(* ===== verification/C_Prelude.thy ===== *)
theory C_Prelude
  imports Main "HOL-Library.Multiset"
begin

text \<open>
  Shared vocabulary of the development.  A C function that can leave the defined behaviour of
  the language or end the process is a function into \<open>fault + 'a\<close>: \<open>Inr\<close> is the value it
  returns, \<open>Inl\<close> the way it fails to return.  \<open>Undefined\<close> is undefined behaviour (an access
  outside an array, a NULL dereference, signed overflow), \<open>AssertFail\<close> a failed \<open>assert\<close>,
  \<open>Exit\<close> a call of \<open>exit\<close> with its status and everything the program has printed by then.
  A theorem that a call is \<open>Inr\<close> is therefore a memory-safety statement as well.
  The theory also holds the generic lemmas on lists, arrays and swaps the components share.
\<close>

section \<open>Faults and sequencing\<close>

datatype fault = Undefined | AssertFail | Exit int string

type_synonym 'a res = "fault + 'a"

definition bindR :: "'a res \<Rightarrow> ('a \<Rightarrow> 'b res) \<Rightarrow> 'b res" where
  "bindR m f = (case m of Inl e \<Rightarrow> Inl e | Inr x \<Rightarrow> f x)"

definition assertR :: "bool \<Rightarrow> 'a res \<Rightarrow> 'a res" where
  "assertR b m = (if b then m else Inl AssertFail)"

lemma bindR_simps [simp]: "bindR (Inl e) f = Inl e" "bindR (Inr x) f = f x"
  by (simp_all add: bindR_def)

lemma bindR_cong [fundef_cong]:
  "m = m' \<Longrightarrow> (\<And>x. m' = Inr x \<Longrightarrow> f x = f' x) \<Longrightarrow> bindR m f = bindR m' f'"
  by (simp add: bindR_def split: sum.splits)

lemma bindR_Inr_iff [simp]: "bindR m f = Inr y \<longleftrightarrow> (\<exists>x. m = Inr x \<and> f x = Inr y)"
  by (simp add: bindR_def split: sum.splits)

lemma bindR_assoc: "bindR (bindR m f) g = bindR m (\<lambda>x. bindR (f x) g)"
  by (simp add: bindR_def split: sum.splits)

lemma bindR_Inr_right [simp]: "bindR m Inr = m"
  by (simp add: bindR_def split: sum.splits)

lemma assertR_simps [simp]: "assertR True m = m" "assertR False m = Inl AssertFail"
  by (simp_all add: assertR_def)

lemma assertR_cong [fundef_cong]:
  "b = b' \<Longrightarrow> (b' \<Longrightarrow> m = m') \<Longrightarrow> assertR b m = assertR b' m'"
  by (simp add: assertR_def)

lemma assertR_Inr_iff [simp]: "assertR b m = Inr y \<longleftrightarrow> b \<and> m = Inr y"
  by (simp add: assertR_def)

text \<open>A computation with a recursion that may not end: \<open>None\<close> is a run that has not returned.\<close>

type_synonym 'a run = "'a res option"

definition bindO :: "'a run \<Rightarrow> ('a \<Rightarrow> 'b run) \<Rightarrow> 'b run" where
  "bindO m f = (case m of None \<Rightarrow> None | Some (Inl e) \<Rightarrow> Some (Inl e) | Some (Inr x) \<Rightarrow> f x)"

lemma bindO_simps [simp]: "bindO None f = None" "bindO (Some (Inl e)) f = Some (Inl e)" "bindO (Some (Inr x)) f = f x"
  by (simp_all add: bindO_def)

lemma bindO_cong [fundef_cong]:
  "m = m' \<Longrightarrow> (\<And>x. m' = Some (Inr x) \<Longrightarrow> f x = f' x) \<Longrightarrow> bindO m f = bindO m' f'"
  by (auto simp: bindO_def split: option.splits sum.splits)

section \<open>Signed arithmetic\<close>

text \<open>The result of an \<open>int\<close> operation: undefined behaviour when it does not fit 32 bits.\<close>

definition in_int32 :: "int \<Rightarrow> bool" where
  "in_int32 i \<longleftrightarrow> - (2 ^ 31) \<le> i \<and> i < 2 ^ 31"

definition ckd :: "int \<Rightarrow> int res" where
  "ckd v = (if in_int32 v then Inr v else Inl Undefined)"

lemma ckd_in [simp]: "in_int32 v \<Longrightarrow> ckd v = Inr v"
  by (simp add: ckd_def)

lemma ckd_Inr_iff: "ckd v = Inr w \<longleftrightarrow> in_int32 v \<and> w = v"
  by (auto simp: ckd_def)

text \<open>Division of C truncates towards zero; the remainder has the sign of the dividend.\<close>

definition c_div :: "int \<Rightarrow> int \<Rightarrow> int" where
  "c_div a b = sgn a * sgn b * (\<bar>a\<bar> div \<bar>b\<bar>)"

definition c_mod :: "int \<Rightarrow> int \<Rightarrow> int" where
  "c_mod a b = a - b * c_div a b"

lemma c_div_nonneg [simp]: "0 \<le> a \<Longrightarrow> 0 < b \<Longrightarrow> c_div a b = a div b"
  by (cases "a = 0") (simp_all add: c_div_def)

lemma c_mod_nonneg [simp]: "0 \<le> a \<Longrightarrow> 0 < b \<Longrightarrow> c_mod a b = a mod b"
  by (simp add: c_mod_def minus_mult_div_eq_mod)

section \<open>Arrays\<close>

text \<open>An array is a list; reading or writing outside it is undefined behaviour.\<close>

definition arr_get :: "'a list \<Rightarrow> nat \<Rightarrow> 'a res" where
  "arr_get xs i = (if i < length xs then Inr (xs ! i) else Inl Undefined)"

definition arr_set :: "'a list \<Rightarrow> nat \<Rightarrow> 'a \<Rightarrow> 'a list res" where
  "arr_set xs i v = (if i < length xs then Inr (xs[i := v]) else Inl Undefined)"

text \<open>The same with a signed index.\<close>

definition arr_geti :: "'a list \<Rightarrow> int \<Rightarrow> 'a res" where
  "arr_geti xs i = (if 0 \<le> i then arr_get xs (nat i) else Inl Undefined)"

definition arr_seti :: "'a list \<Rightarrow> int \<Rightarrow> 'a \<Rightarrow> 'a list res" where
  "arr_seti xs i v = (if 0 \<le> i then arr_set xs (nat i) v else Inl Undefined)"

lemma arr_get_in [simp]: "i < length xs \<Longrightarrow> arr_get xs i = Inr (xs ! i)"
  by (simp add: arr_get_def)

lemma arr_set_in [simp]: "i < length xs \<Longrightarrow> arr_set xs i v = Inr (xs[i := v])"
  by (simp add: arr_set_def)

lemma arr_get_Inr_iff: "arr_get xs i = Inr v \<longleftrightarrow> i < length xs \<and> v = xs ! i"
  by (auto simp: arr_get_def)

lemma arr_set_Inr_iff: "arr_set xs i v = Inr ys \<longleftrightarrow> i < length xs \<and> ys = xs[i := v]"
  by (auto simp: arr_set_def)

lemma arr_geti_in [simp]: "0 \<le> i \<Longrightarrow> nat i < length xs \<Longrightarrow> arr_geti xs i = Inr (xs ! nat i)"
  by (simp add: arr_geti_def)

lemma arr_seti_in [simp]: "0 \<le> i \<Longrightarrow> nat i < length xs \<Longrightarrow> arr_seti xs i v = Inr (xs[nat i := v])"
  by (simp add: arr_seti_def)

text \<open>\<open>memmove\<close> of \<open>n\<close> cells; source and destination may be the same array.\<close>

definition memmove :: "'a list \<Rightarrow> nat \<Rightarrow> 'a list \<Rightarrow> nat \<Rightarrow> nat \<Rightarrow> 'a list res" where
  "memmove dest dp src sp n =
     (if sp + n \<le> length src \<and> dp + n \<le> length dest
      then Inr (take dp dest @ take n (drop sp src) @ drop (dp + n) dest) else Inl Undefined)"

section \<open>Allocation\<close>

text \<open>The outcomes of the coming allocations, the empty list meaning that all succeed.\<close>

type_synonym mem = "bool list"

definition alloc :: "mem \<Rightarrow> bool \<times> mem" where
  "alloc mem = (case mem of [] \<Rightarrow> (True, []) | b # m \<Rightarrow> (b, m))"

section \<open>Swapping two cells\<close>

definition swap_list :: "nat \<Rightarrow> nat \<Rightarrow> 'a list \<Rightarrow> 'a list" where
  "swap_list i j xs = xs[i := xs ! j, j := xs ! i]"

lemma length_swap_list [simp]: "length (swap_list i j xs) = length xs"
  by (simp add: swap_list_def)

lemma mset_swap_list [simp]:
  "i < length xs \<Longrightarrow> j < length xs \<Longrightarrow> mset (swap_list i j xs) = mset xs"
  by (cases "i = j") (simp_all add: swap_list_def mset_swap)

lemma nth_swap_list:
  "i < length xs \<Longrightarrow> j < length xs \<Longrightarrow> k < length xs \<Longrightarrow>
   swap_list i j xs ! k = (if k = i then xs ! j else if k = j then xs ! i else xs ! k)"
  by (auto simp: swap_list_def nth_list_update)

lemma swap_list_same [simp]: "swap_list i i xs = xs"
  by (cases "i < length xs") (simp_all add: swap_list_def list_update_beyond)

lemma swap_list_middle:
  "swap_list (length xs) (Suc (length xs + length m)) (xs @ a # m @ b # ys) = xs @ b # m @ a # ys"
  by (simp add: swap_list_def nth_append list_update_append)

section \<open>Segments of a list\<close>

text \<open>Two lists with the same elements that agree outside \<open>{a..<b}\<close> have the same elements inside.\<close>

lemma mset_segment:
  assumes "length ys = length xs" and "mset ys = mset xs" and "a \<le> b" and "b \<le> length xs"
    and "\<And>i. i < length xs \<Longrightarrow> i < a \<or> b \<le> i \<Longrightarrow> ys ! i = xs ! i"
  shows "mset (take (b - a) (drop a ys)) = mset (take (b - a) (drop a xs))"
proof -
  have split: "zs = take a zs @ take (b - a) (drop a zs) @ drop b zs" for zs :: "'a list"
    using assms(3) by (metis append_take_drop_id drop_drop le_add_diff_inverse2)
  have t: "take a ys = take a xs"
    using assms by (intro nth_equalityI) auto
  have d: "drop b ys = drop b xs"
    using assms by (intro nth_equalityI) auto
  have "mset (take a ys) + mset (take (b - a) (drop a ys)) + mset (drop b ys) =
        mset (take a xs) + mset (take (b - a) (drop a xs)) + mset (drop b xs)"
    using assms(2) split [of ys] split [of xs] by (metis add.assoc mset_append)
  then show ?thesis unfolding t d by simp
qed

lemma set_segment:
  "b \<le> length xs \<Longrightarrow> x \<in> set (take (b - a) (drop a xs)) \<longleftrightarrow> (\<exists>i. a \<le> i \<and> i < b \<and> x = xs ! i)"
proof (cases "a \<le> b")
  case True
  assume b: "b \<le> length xs"
  have "x \<in> set (take (b - a) (drop a xs)) \<longleftrightarrow> (\<exists>k. k < b - a \<and> x = xs ! (a + k))"
    using b True by (auto simp: in_set_conv_nth)
  also have "\<dots> \<longleftrightarrow> (\<exists>i. a \<le> i \<and> i < b \<and> x = xs ! i)"
    by (metis True le_add1 le_add_diff_inverse less_diff_conv add.commute)
  finally show ?thesis .
qed simp

text \<open>Hence every value inside the segment of one occurs inside the segment of the other.\<close>

lemma segment_value:
  assumes "length ys = length xs" and "mset ys = mset xs" and "b \<le> length xs"
    and "\<And>i. i < length xs \<Longrightarrow> i < a \<or> b \<le> i \<Longrightarrow> ys ! i = xs ! i"
    and "a \<le> i" and "i < b"
  obtains j where "a \<le> j" and "j < b" and "ys ! i = xs ! j"
proof -
  have "a \<le> b" using assms(5,6) by simp
  with assms have "set (take (b - a) (drop a ys)) = set (take (b - a) (drop a xs))"
    by (metis mset_segment set_mset_mset)
  moreover have "ys ! i \<in> set (take (b - a) (drop a ys))"
    using assms set_segment [of b ys "ys ! i" a] by auto
  ultimately show ?thesis
    using that assms(3) set_segment [of b xs "ys ! i" a] by auto
qed

end
