(* ===== verification/C_Stdio.thy ===== *)
theory C_Stdio
  imports C_Prelude
begin

text \<open>
  The part of \<open>stdio.h\<close>, \<open>ctype.h\<close> and \<open>stdlib.h\<close> the programs use, on an input stream that is the
  string still to be read and an output stream that is the string printed so far.
  \<open>scan_int\<close> is the integer conversion of glibc's \<open>scanf\<close>: it skips white space, takes an optional
  sign, for \<open>%i\<close> finds the base from the prefix, and reads the longest run of digits.
  \<open>InputEnd\<close> is the \<open>EOF\<close> return (-1), \<open>Mismatch\<close> the return 0, \<open>Item\<close> the return 1.
  The lemmas at the end say that \<open>%i\<close> reads back what \<open>%i\<close> printed.
\<close>

section \<open>Character classes\<close>

definition chr_code :: "char \<Rightarrow> nat" where
  "chr_code c = of_char c"

definition isspace :: "char \<Rightarrow> bool" where
  "isspace c \<longleftrightarrow> chr_code c = 32 \<or> 9 \<le> chr_code c \<and> chr_code c \<le> 13"

definition isdigit :: "char \<Rightarrow> bool" where
  "isdigit c \<longleftrightarrow> 48 \<le> chr_code c \<and> chr_code c \<le> 57"

definition isupper :: "char \<Rightarrow> bool" where
  "isupper c \<longleftrightarrow> 65 \<le> chr_code c \<and> chr_code c \<le> 90"

definition islower :: "char \<Rightarrow> bool" where
  "islower c \<longleftrightarrow> 97 \<le> chr_code c \<and> chr_code c \<le> 122"

definition isalpha :: "char \<Rightarrow> bool" where
  "isalpha c \<longleftrightarrow> isupper c \<or> islower c"

definition tolower :: "char \<Rightarrow> char" where
  "tolower c = (if isupper c then char_of (chr_code c + 32) else c)"

text \<open>The value of a character as a digit of a base up to 36; 36 for any other character.\<close>

definition digit_of :: "char \<Rightarrow> nat" where
  "digit_of c = (if isdigit c then chr_code c - 48
     else if isupper c then chr_code c - 55
     else if islower c then chr_code c - 87
     else 36)"

section \<open>Scanning\<close>

datatype 'a scan = Item 'a string | Mismatch string | InputEnd

fun strip_sign :: "string \<Rightarrow> bool \<times> string" where
  "strip_sign (c # s) = (if c = CHR ''-'' then (True, s) else if c = CHR ''+'' then (False, s)
     else (False, c # s))"
| "strip_sign [] = (False, [])"

text \<open>The base \<open>%i\<close> chooses; the \<open>0\<close> of a \<open>0x\<close> prefix stays as a digit.\<close>

fun detect_base :: "string \<Rightarrow> nat \<times> string" where
  "detect_base (c # s) =
     (if c = CHR ''0'' then
        (case s of d # t \<Rightarrow> if d = CHR ''x'' \<or> d = CHR ''X'' then (16, CHR ''0'' # t) else (8, c # s)
                 | [] \<Rightarrow> (8, c # s))
      else (10, c # s))"
| "detect_base [] = (10, [])"

definition digits_value :: "nat \<Rightarrow> string \<Rightarrow> nat" where
  "digits_value b ds = foldl (\<lambda>a c. a * b + digit_of c) 0 ds"

definition scan_digits :: "nat \<Rightarrow> bool \<Rightarrow> string \<Rightarrow> int scan" where
  "scan_digits b neg u =
     (let ds = takeWhile (\<lambda>c. digit_of c < b) u; v = int (digits_value b ds) in
      if ds = [] then Mismatch u
      else Item (if neg then - v else v) (dropWhile (\<lambda>c. digit_of c < b) u))"

definition scan_int :: "bool \<Rightarrow> string \<Rightarrow> int scan" where
  "scan_int auto_base inp =
     (let s = dropWhile isspace inp in
      if s = [] then InputEnd
      else let (neg, t) = strip_sign s;
               (b, u) = (if auto_base then detect_base t else (10, t))
           in scan_digits b neg u)"

definition clamp64 :: "int \<Rightarrow> int" where
  "clamp64 v = max (- (2 ^ 63)) (min (2 ^ 63 - 1) v)"

definition to_int32 :: "int \<Rightarrow> int" where
  "to_int32 v = (v + 2 ^ 31) mod 2 ^ 32 - 2 ^ 31"

definition to_uint64 :: "int \<Rightarrow> nat" where
  "to_uint64 v = nat ((if \<bar>v\<bar> < 2 ^ 64 then v else 2 ^ 64 - 1) mod 2 ^ 64)"

fun map_scan :: "('a \<Rightarrow> 'b) \<Rightarrow> 'a scan \<Rightarrow> 'b scan" where
  "map_scan f (Item x s) = Item (f x) s"
| "map_scan f (Mismatch s) = Mismatch s"
| "map_scan f InputEnd = InputEnd"

text \<open>\<open>%i\<close> into an \<open>int\<close>, \<open>%li\<close> into an \<open>int64_t\<close>, \<open>%zu\<close> into a \<open>size_t\<close>.\<close>

definition scanf_i :: "string \<Rightarrow> int scan" where
  "scanf_i inp = map_scan (\<lambda>v. to_int32 (clamp64 v)) (scan_int True inp)"

definition scanf_li :: "string \<Rightarrow> int scan" where
  "scanf_li inp = map_scan clamp64 (scan_int True inp)"

definition scanf_zu :: "string \<Rightarrow> nat scan" where
  "scanf_zu inp = map_scan to_uint64 (scan_int False inp)"

text \<open>\<open>%n[^\n]s\<close>: at most \<open>n\<close> characters up to the end of the line, then the literal \<open>s\<close> of the
  format, which is consumed if it is there; \<open>%ns\<close>: at most \<open>n\<close> characters of a word.\<close>

fun skip_literal :: "char \<Rightarrow> string \<Rightarrow> string" where
  "skip_literal c [] = []"
| "skip_literal c (d # s) = (if d = c then s else d # s)"

definition scanf_line :: "nat \<Rightarrow> string \<Rightarrow> string scan" where
  "scanf_line n inp =
     (if inp = [] then InputEnd
      else let s = takeWhile (\<lambda>c. c \<noteq> CHR 0x0A) (take n inp) in
           if s = [] then Mismatch inp
           else Item s (skip_literal CHR ''s'' (drop (length s) inp)))"

definition scanf_word :: "nat \<Rightarrow> string \<Rightarrow> string scan" where
  "scanf_word n inp =
     (let t = dropWhile isspace inp in
      if t = [] then InputEnd
      else let s = takeWhile (\<lambda>c. \<not> isspace c) (take n t) in Item s (drop (length s) t))"

text \<open>\<open>fgetc\<close> with its \<open>EOF\<close>, and \<open>fread\<close> of \<open>n\<close> bytes: the bytes read and the rest.\<close>

definition fgetc :: "string \<Rightarrow> char option \<times> string" where
  "fgetc inp = (case inp of [] \<Rightarrow> (None, []) | c # s \<Rightarrow> (Some c, s))"

definition fread :: "nat \<Rightarrow> string \<Rightarrow> string \<times> string" where
  "fread n inp = (take n inp, drop n inp)"

section \<open>Printing\<close>

definition digit_char :: "nat \<Rightarrow> char" where
  "digit_char d = char_of (48 + d)"

fun show_nat :: "nat \<Rightarrow> string" where
  "show_nat n = (if n < 10 then [digit_char n] else show_nat (n div 10) @ [digit_char (n mod 10)])"

declare show_nat.simps [simp del]

definition show_int :: "int \<Rightarrow> string" where
  "show_int i = (if i < 0 then CHR ''-'' # show_nat (nat (- i)) else show_nat (nat i))"

text \<open>The loop that prints the elements of an array with \<open>"%i "\<close>.\<close>

definition show_ints :: "int list \<Rightarrow> string" where
  "show_ints xs = concat (map (\<lambda>x. show_int x @ '' '') xs)"

section \<open>What is printed is read back\<close>

lemma chr_code_digit_char: "d < 10 \<Longrightarrow> chr_code (digit_char d) = 48 + d"
  by (simp add: chr_code_def digit_char_def)

lemma digit_of_digit_char [simp]: "d < 10 \<Longrightarrow> digit_of (digit_char d) = d"
  by (simp add: digit_of_def isdigit_def chr_code_digit_char)

lemma digit_of_less_10_iff: "digit_of c < 10 \<longleftrightarrow> isdigit c"
  by (auto simp: digit_of_def isdigit_def isupper_def islower_def)

lemma show_nat_digits: "c \<in> set (show_nat n) \<Longrightarrow> digit_of c < 10"
proof (induction n arbitrary: c rule: show_nat.induct)
  case (1 n)
  then show ?case
    by (subst (asm) show_nat.simps) (auto split: if_splits)
qed

lemma digits_value_append:
  "digits_value b (xs @ [c]) = digits_value b xs * b + digit_of c"
  by (simp add: digits_value_def)

lemma digits_value_show_nat [simp]: "digits_value 10 (show_nat n) = n"
proof (induction n rule: show_nat.induct)
  case (1 n)
  show ?case
  proof (cases "n < 10")
    case True
    then show ?thesis by (subst show_nat.simps) (simp add: digits_value_def)
  next
    case False
    with "1.IH" show ?thesis
      by (subst show_nat.simps) (simp add: digits_value_append)
  qed
qed

lemma show_nat_Cons: "\<exists>c s. show_nat n = c # s \<and> digit_of c < 10 \<and> (0 < n \<longrightarrow> c \<noteq> CHR ''0'')"
proof (induction n rule: show_nat.induct)
  case (1 n)
  show ?case
  proof (cases "n < 10")
    case True
    then have "show_nat n = [digit_char n]" by (subst show_nat.simps) simp
    moreover have "0 < n \<Longrightarrow> digit_char n \<noteq> CHR ''0''"
      using True chr_code_digit_char [of n] by (auto simp: chr_code_def)
    ultimately show ?thesis using True by simp
  next
    case False
    then have "0 < n div 10" by simp
    with "1.IH" False obtain c s where "show_nat (n div 10) = c # s" "digit_of c < 10" "c \<noteq> CHR ''0''"
      by blast
    with False show ?thesis by (subst show_nat.simps) simp
  qed
qed

lemma show_nat_nonempty [simp]: "show_nat n \<noteq> []"
  using show_nat_Cons [of n] by auto

lemma show_nat_0 [simp]: "show_nat 0 = ''0''"
  by code_simp

lemma takeWhile_digits:
  "(\<And>c. c \<in> set ds \<Longrightarrow> digit_of c < b) \<Longrightarrow> r = [] \<or> \<not> digit_of (hd r) < b \<Longrightarrow>
   takeWhile (\<lambda>c. digit_of c < b) (ds @ r) = ds \<and> dropWhile (\<lambda>c. digit_of c < b) (ds @ r) = r"
  by (induction ds) (cases r, auto)

text \<open>What may follow a printed number so that the scanner stops there: not a digit and, after
  a \<open>0\<close>, not the \<open>x\<close> of a hexadecimal prefix.\<close>

definition ends_number :: "string \<Rightarrow> bool" where
  "ends_number r \<longleftrightarrow> r = [] \<or> \<not> isdigit (hd r) \<and> hd r \<noteq> CHR ''x'' \<and> hd r \<noteq> CHR ''X''"

lemma not_isspace_digit: "digit_of c < 10 \<Longrightarrow> \<not> isspace c"
  by (simp add: digit_of_less_10_iff isdigit_def isspace_def)

lemma digit_char_not_sign: "digit_of c < 10 \<Longrightarrow> c \<noteq> CHR ''-'' \<and> c \<noteq> CHR ''+''"
  by (auto simp: digit_of_less_10_iff isdigit_def chr_code_def)

lemma scan_show_nat:
  assumes "ends_number r"
  shows "(let (b, u) = detect_base (show_nat n @ r) in scan_digits b neg u) =
         Item (if neg then - int n else int n) r"
proof (cases "n = 0")
  case True
  from assms have r: "r = [] \<or> \<not> digit_of (hd r) < 8"
    using digit_of_less_10_iff [of "hd r"] by (auto simp: ends_number_def)
  have d0: "digit_of CHR ''0'' = 0" by (simp add: digit_of_def isdigit_def chr_code_def)
  have det: "detect_base (''0'' @ r) = (8, ''0'' @ r)"
    using assms by (cases r) (auto simp: ends_number_def)
  have "scan_digits 8 neg (''0'' @ r) = Item 0 r"
    using takeWhile_digits [of "''0''" 8 r] r d0
    by (simp add: scan_digits_def digits_value_def)
  with True det show ?thesis by simp
next
  case False
  then obtain c s where cs: "show_nat n = c # s" "c \<noteq> CHR ''0''"
    using show_nat_Cons [of n] by auto
  then have det: "detect_base (show_nat n @ r) = (10, show_nat n @ r)" by simp
  from assms have "r = [] \<or> \<not> digit_of (hd r) < 10"
    by (auto simp: ends_number_def digit_of_less_10_iff)
  then show ?thesis
    using takeWhile_digits [of "show_nat n" 10 r, OF show_nat_digits]
    unfolding det by (simp add: scan_digits_def)
qed

lemma scan_int_show_int:
  assumes "ends_number r" and "\<And>c. c \<in> set w \<Longrightarrow> isspace c"
  shows "scan_int True (w @ show_int i @ r) = Item i r"
proof (cases "i < 0")
  case True
  have "dropWhile isspace (w @ show_int i @ r) = CHR ''-'' # show_nat (nat (- i)) @ r"
    using assms(2) True by (simp add: show_int_def isspace_def chr_code_def)
  then show ?thesis
    using scan_show_nat [OF assms(1), where n = "nat (- i)" and neg = True] True
    by (simp add: scan_int_def)
next
  case False
  obtain c s where cs: "show_nat (nat i) = c # s" "digit_of c < 10"
    using show_nat_Cons [of "nat i"] by auto
  then have "dropWhile isspace (w @ show_int i @ r) = show_nat (nat i) @ r"
    using assms(2) False by (simp add: show_int_def not_isspace_digit)
  moreover have "strip_sign (show_nat (nat i) @ r) = (False, show_nat (nat i) @ r)"
    using cs digit_char_not_sign by simp
  ultimately show ?thesis
    using scan_show_nat [OF assms(1), where n = "nat i" and neg = False] False
    by (simp add: scan_int_def)
qed

lemma scan_int_show_nat:
  assumes "ends_number r" and "\<And>c. c \<in> set w \<Longrightarrow> isspace c"
  shows "scan_int False (w @ show_nat n @ r) = Item (int n) r"
proof -
  obtain c s where cs: "show_nat n = c # s" "digit_of c < 10" using show_nat_Cons [of n] by auto
  then have "dropWhile isspace (w @ show_nat n @ r) = show_nat n @ r"
    using assms(2) by (simp add: not_isspace_digit)
  moreover have "strip_sign (show_nat n @ r) = (False, show_nat n @ r)" using cs digit_char_not_sign by simp
  moreover have "r = [] \<or> \<not> digit_of (hd r) < 10" using assms(1) by (auto simp: ends_number_def digit_of_less_10_iff)
  ultimately show ?thesis
    using takeWhile_digits [of "show_nat n" 10 r, OF show_nat_digits] by (simp add: scan_int_def scan_digits_def)
qed

lemma to_uint64_of_nat [simp]: "n < 2 ^ 64 \<Longrightarrow> to_uint64 (int n) = n"
  by (simp add: to_uint64_def)

lemma scanf_zu_show_nat [simp]:
  assumes "ends_number r" and "n < 2 ^ 64"
  shows "scanf_zu (show_nat n @ r) = Item n r" "scanf_zu (CHR '' '' # show_nat n @ r) = Item n r"
  using scan_int_show_nat [OF assms(1), of "[]"] scan_int_show_nat [OF assms(1), of "'' ''"] to_uint64_of_nat [OF assms(2)]
  by (simp_all add: scanf_zu_def isspace_def chr_code_def del: to_uint64_of_nat)

lemma to_int32_id [simp]: "in_int32 i \<Longrightarrow> to_int32 i = i"
  by (simp add: in_int32_def to_int32_def)

lemma to_int32_range: "in_int32 (to_int32 v)"
  by (simp add: in_int32_def to_int32_def)

lemma clamp64_id [simp]: "- (2 ^ 63) \<le> i \<Longrightarrow> i < 2 ^ 63 \<Longrightarrow> clamp64 i = i"
  by (simp add: clamp64_def)

lemma clamp64_int32 [simp]: "in_int32 i \<Longrightarrow> clamp64 i = i"
  by (simp add: in_int32_def clamp64_def)

lemma scanf_i_show_int [simp]:
  assumes "ends_number r" and "in_int32 i"
  shows "scanf_i (show_int i @ r) = Item i r" "scanf_i (CHR '' '' # show_int i @ r) = Item i r"
  using scan_int_show_int [OF assms(1), of "[]"] scan_int_show_int [OF assms(1), of "'' ''"] assms(2)
  by (simp_all add: scanf_i_def isspace_def chr_code_def)

lemma ends_number_space [simp]: "ends_number (CHR '' '' # r)" "ends_number []"
  by (simp_all add: ends_number_def isdigit_def chr_code_def)

end
