(* ===== verification/Array_Io.thy ===== *)
theory Array_Io
  imports C_Stdio
begin

text \<open>
  What the two sorting programs (\<open>Heap_sort/src/main.c\<close> and \<open>Quick_sort/src/main.c\<close>) have in
  common, word for word: reading an array, printing it, swapping two cells, leaving with
  \<open>bad input\<close>.  The locale \<open>array_sorter\<close> is the contract between such a program's \<open>main\<close> and its
  sorting routine; each program interprets it on its own routine.
\<close>

definition badInput :: "'a res" where
  "badInput = Inl (Exit 0 ''bad input\<newline>'')"

definition printArray :: "int list \<Rightarrow> string" where
  "printArray arr = show_ints arr @ ''\<newline>''"

text \<open>\<open>cap\<close> is the number of allocated cells from the current one on (0 when \<open>malloc\<close> returned
  NULL), \<open>sz\<close> the iterations left.\<close>

fun readArray :: "nat \<Rightarrow> nat \<Rightarrow> string \<Rightarrow> int list res" where
  "readArray cap sz s =
     (if sz = 0 then Inr []
      else case scanf_i s of
             Item v s' \<Rightarrow>
               if cap = 0 then Inl Undefined
               else bindR (readArray (cap - 1) (sz - 1) s') (\<lambda>vs. Inr (v # vs))
           | Mismatch s' \<Rightarrow> badInput
           | InputEnd \<Rightarrow> badInput)"

declare readArray.simps [simp del]

definition swap :: "int list \<Rightarrow> nat \<Rightarrow> nat \<Rightarrow> int list res" where
  "swap arr a b =
     bindR (arr_get arr a) (\<lambda>t.
     bindR (arr_get arr b) (\<lambda>vb.
     bindR (arr_set arr a vb) (\<lambda>arr'.
     arr_set arr' b t)))"

lemma swap_in [simp]:
  "a < length arr \<Longrightarrow> b < length arr \<Longrightarrow> swap arr a b = Inr (swap_list a b arr)"
  by (simp add: swap_def swap_list_def)

text \<open>Reading back the printed elements of an array.\<close>

lemma readArray_show_ints:
  assumes "\<And>x. x \<in> set xs \<Longrightarrow> in_int32 x"
  shows "readArray (length xs) (length xs) (CHR '' '' # show_ints xs @ r) = Inr xs"
  using assms
proof (induction xs)
  case Nil
  then show ?case by (simp add: readArray.simps)
next
  case (Cons x xs)
  then have "scanf_i (CHR '' '' # show_int x @ CHR '' '' # show_ints xs @ r) =
      Item x (CHR '' '' # show_ints xs @ r)"
    by simp
  with Cons show ?case
    by (subst readArray.simps) (simp add: show_ints_def)
qed

section \<open>The contract of a sorting routine\<close>

locale array_sorter =
  fixes sort_array :: "int list \<Rightarrow> int list res"
    and fits :: "int list \<Rightarrow> bool"
  assumes sort_array_sorts:
    "fits xs \<Longrightarrow> \<exists>ys. sort_array xs = Inr ys \<and> sorted ys \<and> mset ys = mset xs"
begin

lemma sort_array_eq: "fits xs \<Longrightarrow> sort_array xs = Inr (sort xs)"
  using sort_array_sorts [of xs] properties_for_sort by fastforce

lemma read_sort_print:
  assumes "fits xs" and "\<And>x. x \<in> set xs \<Longrightarrow> in_int32 x"
  shows "bindR (readArray (length xs) (length xs) (CHR '' '' # show_ints xs @ r))
           (\<lambda>arr. bindR (sort_array arr) (\<lambda>arr'. Inr (printArray arr'))) =
         Inr (show_ints (sort xs) @ ''\<newline>'')"
  using assms by (simp add: readArray_show_ints sort_array_eq printArray_def)

end

end
