(* ===== verification/Heap_Sort.thy ===== *)
theory Heap_Sort
  imports Array_Io
begin

text \<open>
  \<open>C-Labs/Heap_sort/src/main.c\<close>: the array-based heap sort.  \<open>larger_child\<close> is one of the two
  comparisons that move \<open>largestNode\<close> in \<open>heapify\<close>.  The theorems show that \<open>heapSort\<close> never leaves
  the array, ends, and sorts, and that the whole program prints its input sorted.
\<close>

section \<open>Definitions\<close>

definition larger_child :: "int list \<Rightarrow> nat \<Rightarrow> nat \<Rightarrow> nat \<Rightarrow> nat res" where
  "larger_child arr sz child largestNode =
     (if child < sz then
        bindR (arr_get arr child) (\<lambda>c.
        bindR (arr_get arr largestNode) (\<lambda>x.
        Inr (if c > x then child else largestNode)))
      else Inr largestNode)"

lemma larger_child_Inr:
  "larger_child arr sz child n = Inr m \<Longrightarrow> m = n \<or> m = child \<and> child < sz"
  by (auto simp: larger_child_def split: if_splits)

function heapify :: "int list \<Rightarrow> nat \<Rightarrow> nat \<Rightarrow> int list res" where
  "heapify arr rootNode sz =
     (let lChild = rootNode * 2 + 1; rChild = rootNode * 2 + 2 in
      bindR (larger_child arr sz lChild rootNode) (\<lambda>largest1.
      bindR (larger_child arr sz rChild largest1) (\<lambda>largestNode.
      bindR (arr_get arr largestNode) (\<lambda>vl.
      bindR (arr_get arr rootNode) (\<lambda>vr.
      if vl \<noteq> vr then
        bindR (swap arr rootNode largestNode) (\<lambda>arr'. heapify arr' largestNode sz)
      else Inr arr)))))"
  by pat_completeness auto
termination
proof (relation "measure (\<lambda>(arr, rootNode, sz). sz - rootNode)", goal_cases)
  case 1
  show ?case by simp
next
  case (2 arr rootNode sz lChild rChild largest1 largestNode vl vr arr')
  then have "largestNode \<noteq> rootNode" by auto
  with 2 show ?case
    by (auto dest!: larger_child_Inr)
qed

declare heapify.simps [simp del]

function makeHeap_loop :: "int list \<Rightarrow> int \<Rightarrow> nat \<Rightarrow> int list res" where
  "makeHeap_loop arr i sz =
     (if i \<ge> 0 then bindR (heapify arr (nat i) sz) (\<lambda>arr'. makeHeap_loop arr' (i - 1) sz)
      else Inr arr)"
  by pat_completeness auto
termination
  by (relation "measure (\<lambda>(arr, i, sz). nat (i + 1))") auto

declare makeHeap_loop.simps [simp del]

text \<open>\<open>int i = sz / 2 - 1\<close> converts a \<open>size_t\<close> to \<open>int\<close>.\<close>

definition makeHeap :: "int list \<Rightarrow> nat \<Rightarrow> int list res" where
  "makeHeap arr sz = makeHeap_loop arr (to_int32 (int (sz div 2) - 1)) sz"

fun heapSort_loop :: "int list \<Rightarrow> nat \<Rightarrow> int list res" where
  "heapSort_loop arr 0 = Inr arr"
| "heapSort_loop arr (Suc sz) =
     bindR (swap arr 0 sz) (\<lambda>arr1.
     bindR (heapify arr1 0 sz) (\<lambda>arr2.
     heapSort_loop arr2 sz))"

definition heapSort :: "int list \<Rightarrow> nat \<Rightarrow> int list res" where
  "heapSort arr sz = bindR (makeHeap arr sz) (\<lambda>arr'. heapSort_loop arr' sz)"

text \<open>A negative \<open>elementsN\<close> becomes a huge \<open>size_t\<close>, for which \<open>malloc\<close> returns NULL.\<close>

definition main :: "string \<Rightarrow> string res" where
  "main inp =
     (case scanf_li inp of
        Item elementsN s \<Rightarrow>
          bindR (readArray (nat elementsN) (nat (elementsN mod 2 ^ 64)) s) (\<lambda>elements.
          bindR (heapSort elements (length elements)) (\<lambda>elements'.
          Inr (printArray elements')))
      | Mismatch s \<Rightarrow> badInput
      | InputEnd \<Rightarrow> badInput)"

section \<open>The heap property\<close>

definition node_ok :: "int list \<Rightarrow> nat \<Rightarrow> nat \<Rightarrow> bool" where
  "node_ok arr sz i \<longleftrightarrow>
     (2 * i + 1 < sz \<longrightarrow> arr ! (2 * i + 1) \<le> arr ! i) \<and> (2 * i + 2 < sz \<longrightarrow> arr ! (2 * i + 2) \<le> arr ! i)"

definition heap_from :: "nat \<Rightarrow> int list \<Rightarrow> nat \<Rightarrow> bool" where
  "heap_from lo arr sz \<longleftrightarrow> (\<forall>i \<ge> lo. node_ok arr sz i)"

text \<open>What \<open>heapify\<close> needs: every node but the root it starts at is in order, and the children of
  that root are below the root's parent.\<close>

definition heap_but :: "nat \<Rightarrow> int list \<Rightarrow> nat \<Rightarrow> nat \<Rightarrow> bool" where
  "heap_but lo arr sz root \<longleftrightarrow> (\<forall>i \<ge> lo. i \<noteq> root \<longrightarrow> node_ok arr sz i) \<and>
     (\<forall>p \<ge> lo. root = 2 * p + 1 \<or> root = 2 * p + 2 \<longrightarrow>
        (2 * root + 1 < sz \<longrightarrow> arr ! (2 * root + 1) \<le> arr ! p) \<and>
        (2 * root + 2 < sz \<longrightarrow> arr ! (2 * root + 2) \<le> arr ! p))"

lemma larger_child_in [simp]:
  "sz \<le> length arr \<Longrightarrow> n < length arr \<Longrightarrow>
   larger_child arr sz child n = Inr (if child < sz \<and> arr ! child > arr ! n then child else n)"
  by (simp add: larger_child_def)

text \<open>The index \<open>heapify\<close> chooses, in a readable form.\<close>

definition largest_of :: "int list \<Rightarrow> nat \<Rightarrow> nat \<Rightarrow> nat" where
  "largest_of arr sz r =
     (let l = (if 2 * r + 1 < sz \<and> arr ! (2 * r + 1) > arr ! r then 2 * r + 1 else r)
      in if 2 * r + 2 < sz \<and> arr ! (2 * r + 2) > arr ! l then 2 * r + 2 else l)"

lemma heapify_unfold:
  assumes "sz \<le> length arr" and "root < length arr"
  shows "heapify arr root sz =
    (let m = largest_of arr sz root in
     if arr ! m \<noteq> arr ! root then heapify (swap_list root m arr) m sz else Inr arr)"
proof -
  have "(if 2 * root + 1 < sz \<and> arr ! (2 * root + 1) > arr ! root then 2 * root + 1 else root) < length arr"
    using assms by auto
  then show ?thesis
    using assms
    by (subst heapify.simps) (auto simp: largest_of_def Let_def mult.commute)
qed

lemma largest_of_cases:
  assumes "m = largest_of arr sz root"
  shows "m = root \<or> (m = 2 * root + 1 \<or> m = 2 * root + 2) \<and> m < sz"
    and "arr ! root \<le> arr ! m"
    and "2 * root + 1 < sz \<Longrightarrow> arr ! (2 * root + 1) \<le> arr ! m"
    and "2 * root + 2 < sz \<Longrightarrow> arr ! (2 * root + 2) \<le> arr ! m"
  using assms by (auto simp: largest_of_def Let_def split: if_splits)

lemma heap_but_done:
  assumes "heap_but lo arr sz root" and "arr ! largest_of arr sz root = arr ! root"
  shows "heap_from lo arr sz"
  using assms largest_of_cases(3,4) [OF refl, of root sz arr]
  by (auto simp: heap_but_def heap_from_def node_ok_def)

lemma heap_but_step:
  assumes hb: "heap_but lo arr sz root" and len: "sz \<le> length arr" "root < length arr" and lo: "lo \<le> root"
    and m: "m = largest_of arr sz root" and ne: "arr ! m \<noteq> arr ! root"
  shows "heap_but lo (swap_list root m arr) sz m"
proof -
  note mc = largest_of_cases [OF m]
  from mc(1) ne have mm: "m = 2 * root + 1 \<or> m = 2 * root + 2" and msz: "m < sz" by auto
  let ?a = "swap_list root m arr"
  have nth: "?a ! k = (if k = root then arr ! m else if k = m then arr ! root else arr ! k)"
    if "k < length arr" for k
    using that len msz by (simp add: nth_swap_list)
  have mlen: "m < length arr" using msz len by simp
  have node: "node_ok ?a sz i" if i: "i \<ge> lo" "i \<noteq> m" for i
  proof (cases "i = root")
    case True
    then show ?thesis
      using mc mm msz len by (auto simp: node_ok_def nth)
  next
    case False
    then have ok: "node_ok arr sz i" using hb i by (auto simp: heap_but_def)
    show ?thesis
    proof (cases "root = 2 * i + 1 \<or> root = 2 * i + 2")
      case True
      then have "arr ! m \<le> arr ! i"
        using hb i mm msz by (auto simp: heap_but_def)
      with ok True False i mm len show ?thesis
        by (auto simp: node_ok_def nth)
    next
      case nr: False
      have "m \<noteq> 2 * i + 1 \<and> m \<noteq> 2 * i + 2" using mm False by auto
      with ok nr False i len show ?thesis by (auto simp: node_ok_def nth)
    qed
  qed
  have "node_ok arr sz m" using hb lo mm by (auto simp: heap_but_def)
  then have par: "(2 * m + 1 < sz \<longrightarrow> ?a ! (2 * m + 1) \<le> ?a ! root) \<and> (2 * m + 2 < sz \<longrightarrow> ?a ! (2 * m + 2) \<le> ?a ! root)"
    using len mm by (auto simp: node_ok_def nth)
  have pr: "p = root" if "m = 2 * p + 1 \<or> m = 2 * p + 2" for p
    using that mm by auto
  show ?thesis
    unfolding heap_but_def
  proof (intro conjI allI impI)
    fix i assume "lo \<le> i" "i \<noteq> m"
    then show "node_ok ?a sz i" by (rule node)
  next
    fix p assume "m = 2 * p + 1 \<or> m = 2 * p + 2" "2 * m + 1 < sz"
    then show "?a ! (2 * m + 1) \<le> ?a ! p" using par pr [of p] by simp
  next
    fix p assume "m = 2 * p + 1 \<or> m = 2 * p + 2" "2 * m + 2 < sz"
    then show "?a ! (2 * m + 2) \<le> ?a ! p" using par pr [of p] by simp
  qed
qed

lemma heapify_correct:
  assumes "heap_but lo arr sz root" and "sz \<le> length arr" and "root < length arr" and "lo \<le> root"
  shows "\<exists>arr'. heapify arr root sz = Inr arr' \<and> length arr' = length arr \<and> mset arr' = mset arr \<and>
           heap_from lo arr' sz \<and> (\<forall>i. sz \<le> i \<longrightarrow> i \<noteq> root \<longrightarrow> i < length arr \<longrightarrow> arr' ! i = arr ! i) \<and>
           (sz \<le> root \<longrightarrow> arr' = arr)"
  using assms
proof (induction "sz - root" arbitrary: arr root rule: less_induct)
  case less
  let ?m = "largest_of arr sz root"
  note unf = heapify_unfold [OF less.prems(2,3)]
  show ?case
  proof (cases "arr ! ?m = arr ! root")
    case True
    then show ?thesis
      using unf less.prems heap_but_done [OF less.prems(1) True] by simp
  next
    case False
    let ?a = "swap_list root ?m arr"
    from largest_of_cases(1) [OF refl, of arr sz root] False
    have m: "root < ?m" "?m < sz" by auto
    have hb: "heap_but lo ?a sz ?m"
      using heap_but_step [OF less.prems(1-4) refl False] .
    obtain arr' where "heapify ?a ?m sz = Inr arr'" "length arr' = length ?a" "mset arr' = mset ?a"
      "heap_from lo arr' sz" "\<forall>i. sz \<le> i \<longrightarrow> i \<noteq> ?m \<longrightarrow> i < length ?a \<longrightarrow> arr' ! i = ?a ! i"
      using less.hyps [of ?m ?a] diff_less_mono2 [of root ?m sz] hb m less.prems by auto
    then show ?thesis
      using unf False m less.prems by (auto simp: nth_swap_list Let_def)
  qed
qed

lemma makeHeap_loop_correct:
  assumes "heap_from (nat (i + 1)) arr sz" and "sz \<le> length arr" and "nat i < length arr" and "-1 \<le> i"
  shows "\<exists>arr'. makeHeap_loop arr i sz = Inr arr' \<and> length arr' = length arr \<and> mset arr' = mset arr \<and>
           heap_from 0 arr' sz"
  using assms
proof (induction arr i sz rule: makeHeap_loop.induct)
  case (1 arr i sz)
  show ?case
  proof (cases "i \<ge> 0")
    case False
    with "1.prems" show ?thesis by (simp add: makeHeap_loop.simps [of arr i])
  next
    case True
    then have "heap_but (nat i) arr sz (nat i)"
      using "1.prems"(1) by (auto simp: heap_from_def heap_but_def nat_add_distrib)
    then obtain arr' where h: "heapify arr (nat i) sz = Inr arr'" "length arr' = length arr"
        "mset arr' = mset arr" "heap_from (nat i) arr' sz"
      using heapify_correct [of "nat i" arr sz "nat i"] "1.prems" by auto
    have "nat (i - 1) < length arr'" using "1.prems" h by linarith
    with "1.IH" [OF True h(1)] h True "1.prems" obtain arr2 where
      "makeHeap_loop arr' (i - 1) sz = Inr arr2" "length arr2 = length arr" "mset arr2 = mset arr"
      "heap_from 0 arr2 sz"
      by auto
    with h True show ?thesis by (simp add: makeHeap_loop.simps [of arr i])
  qed
qed

lemma makeHeap_correct:
  assumes "length arr < 2 ^ 32"
  shows "\<exists>arr'. makeHeap arr (length arr) = Inr arr' \<and> length arr' = length arr \<and> mset arr' = mset arr \<and>
           heap_from 0 arr' (length arr)"
proof -
  let ?i = "int (length arr div 2) - 1"
  have i: "to_int32 ?i = ?i" using assms by (intro to_int32_id) (simp add: in_int32_def)
  have "heap_from (nat (?i + 1)) arr (length arr)"
    by (auto simp: heap_from_def node_ok_def)
  moreover have "nat ?i < length arr" if "arr \<noteq> []"
  proof -
    have "0 < length arr" using that by simp
    then show ?thesis by linarith
  qed
  ultimately show ?thesis
    using makeHeap_loop_correct [of ?i arr "length arr"]
    by (cases "arr = []") (auto simp: makeHeap_def i, simp_all add: makeHeap_loop.simps to_int32_def heap_from_def node_ok_def)
qed

lemma heap_top: "heap_from 0 arr sz \<Longrightarrow> i < sz \<Longrightarrow> arr ! i \<le> arr ! 0"
proof (induction i rule: less_induct)
  case (less i)
  show ?case
  proof (cases "i = 0")
    case False
    then obtain p where p: "i = 2 * p + 1 \<or> i = 2 * p + 2"
      by (metis One_nat_def add_2_eq_Suc' even_Suc mult_2 not0_implies_Suc oddE even_two_times_div_two add_Suc_right)
    then have "arr ! p \<le> arr ! 0" "arr ! i \<le> arr ! p"
      using less by (auto simp: heap_from_def node_ok_def)
    then show ?thesis by simp
  qed simp
qed

section \<open>Sorting\<close>

text \<open>The loop's invariant: a heap in front, and behind it a sorted tail of elements no smaller
  than those of the heap.\<close>

definition sort_inv :: "int list \<Rightarrow> nat \<Rightarrow> bool" where
  "sort_inv arr sz \<longleftrightarrow> sz \<le> length arr \<and> heap_from 0 arr sz \<and> sorted (drop sz arr) \<and>
     (\<forall>x \<in> set (take sz arr). \<forall>y \<in> set (drop sz arr). x \<le> y)"

lemma same_tail_same_front:
  assumes "mset ys = mset xs" and "drop n ys = drop n xs"
  shows "mset (take n ys) = mset (take n xs)"
proof -
  have "mset (take n ys) + mset (drop n ys) = mset (take n xs) + mset (drop n xs)"
    using assms(1) by (metis append_take_drop_id mset_append)
  with assms(2) show ?thesis by simp
qed

lemma swap_top_facts:
  assumes "Suc sz \<le> length arr"
  shows "drop sz (swap_list 0 sz arr) = arr ! 0 # drop (Suc sz) arr"
    and "mset (take sz (swap_list 0 sz arr)) = mset (take (Suc sz) arr) - {#arr ! 0#}"
proof -
  let ?a = "swap_list 0 sz arr"
  show d: "drop sz ?a = arr ! 0 # drop (Suc sz) arr"
  proof -
    have "drop sz ?a = ?a ! sz # drop (Suc sz) ?a"
      using assms by (intro Cons_nth_drop_Suc [symmetric]) simp
    moreover have "?a ! sz = arr ! 0"
      using assms by (subst nth_swap_list) auto
    moreover have "drop (Suc sz) ?a = drop (Suc sz) arr"
      by (simp add: swap_list_def)
    ultimately show ?thesis by simp
  qed
  have "mset (take sz ?a) + mset (drop sz ?a) = mset ?a"
    by (simp flip: mset_append)
  also have "\<dots> = mset arr"
    using assms by (intro mset_swap_list) auto
  also have "\<dots> = mset (take (Suc sz) arr) + mset (drop (Suc sz) arr)"
    by (simp flip: mset_append)
  finally have "mset (take sz ?a) + mset (drop sz ?a) = mset (take (Suc sz) arr) + mset (drop (Suc sz) arr)" .
  then have "mset (take sz ?a) + {#arr ! 0#} = mset (take (Suc sz) arr)"
    unfolding d by simp
  then show "mset (take sz ?a) = mset (take (Suc sz) arr) - {#arr ! 0#}"
    by (metis add_diff_cancel_right')
qed

lemma heap_but_swap_top:
  assumes "heap_from 0 arr (Suc sz)" and "Suc sz \<le> length arr"
  shows "heap_but 0 (swap_list 0 sz arr) sz 0"
proof -
  have "swap_list 0 sz arr ! k = arr ! k" if "0 < k" "k < sz" for k
    using assms(2) that by (subst nth_swap_list) auto
  with assms(1) show ?thesis
    by (auto simp: heap_from_def heap_but_def node_ok_def)
qed

lemma sort_inv_step:
  assumes inv: "sort_inv arr (Suc sz)"
  shows "\<exists>arr'. heapify (swap_list 0 sz arr) 0 sz = Inr arr' \<and> length arr' = length arr \<and>
           mset arr' = mset arr \<and> sort_inv arr' sz"
proof -
  let ?a = "swap_list 0 sz arr"
  from inv have len: "Suc sz \<le> length arr" and heap: "heap_from 0 arr (Suc sz)"
    and srt: "sorted (drop (Suc sz) arr)"
    and le: "\<And>x y. x \<in> set (take (Suc sz) arr) \<Longrightarrow> y \<in> set (drop (Suc sz) arr) \<Longrightarrow> x \<le> y"
    by (auto simp: sort_inv_def)
  have "sz \<le> length ?a" "0 < length ?a" using len by auto
  then obtain arr' where h: "heapify ?a 0 sz = Inr arr'" "length arr' = length ?a" "mset arr' = mset ?a"
      "heap_from 0 arr' sz" "\<forall>i \<ge> sz. i \<noteq> 0 \<longrightarrow> i < length ?a \<longrightarrow> arr' ! i = ?a ! i"
      "sz \<le> 0 \<longrightarrow> arr' = ?a"
    using heapify_correct [OF heap_but_swap_top [OF heap len] _ _ order_refl] by blast
  have "arr' ! i = ?a ! i" if "sz \<le> i" "i < length ?a" for i
    using h(5,6) that by (cases "i = 0") auto
  then have d: "drop sz arr' = arr ! 0 # drop (Suc sz) arr"
    using h(2) len unfolding swap_top_facts(1) [OF len, symmetric]
    by (auto simp: list_eq_iff_nth_eq)
  have "mset (take sz arr') = mset (take sz ?a)"
    using same_tail_same_front [OF h(3)] d swap_top_facts(1) [OF len] by simp
  then have m: "mset (take sz arr') = mset (take (Suc sz) arr) - {#arr ! 0#}"
    using swap_top_facts(2) [OF len] by simp
  then have front: "set (take sz arr') \<subseteq> set (take (Suc sz) arr)"
    by (metis diff_subset_eq_self set_mset_mono set_mset_mset)
  have top: "x \<le> arr ! 0" if "x \<in> set (take (Suc sz) arr)" for x
    using that heap_top [OF heap] len by (auto simp: in_set_conv_nth)
  have z: "arr ! 0 \<in> set (take (Suc sz) arr)"
    using len by (auto simp: in_set_conv_nth intro!: exI [of _ 0])
  have "sort_inv arr' sz"
    using h(2,4) len srt le front top z unfolding sort_inv_def d by auto
  moreover have "mset arr' = mset arr"
    using len unfolding h(3) by (intro mset_swap_list) auto
  ultimately show ?thesis using h(1,2) by simp
qed

lemma heapSort_loop_correct:
  "sort_inv arr sz \<Longrightarrow> \<exists>arr'. heapSort_loop arr sz = Inr arr' \<and> sorted arr' \<and> mset arr' = mset arr"
proof (induction sz arbitrary: arr)
  case 0
  then show ?case by (simp add: sort_inv_def)
next
  case (Suc sz)
  then have "Suc sz \<le> length arr" by (simp add: sort_inv_def)
  then have "swap arr 0 sz = Inr (swap_list 0 sz arr)" by (intro swap_in) linarith+
  moreover obtain arr1 where "heapify (swap_list 0 sz arr) 0 sz = Inr arr1" "mset arr1 = mset arr" "sort_inv arr1 sz"
    using sort_inv_step [OF Suc.prems] by blast
  ultimately show ?case using Suc.IH [of arr1] by auto
qed

lemma heapSort_correct:
  assumes "length xs < 2 ^ 32"
  shows "\<exists>ys. heapSort xs (length xs) = Inr ys \<and> sorted ys \<and> mset ys = mset xs"
proof -
  obtain arr where "makeHeap xs (length xs) = Inr arr" "length arr = length xs" "mset arr = mset xs"
    "heap_from 0 arr (length xs)"
    using makeHeap_correct [OF assms] by blast
  moreover from this have "sort_inv arr (length xs)" by (simp add: sort_inv_def)
  ultimately show ?thesis
    using heapSort_loop_correct [of arr "length xs"] by (auto simp: heapSort_def)
qed

interpretation heap_sorter: array_sorter "\<lambda>xs. heapSort xs (length xs)" "\<lambda>xs. length xs < 2 ^ 32"
  by unfold_locales (rule heapSort_correct)

section \<open>Properties\<close>

text \<open>C1: \<open>heapSort\<close> on an array of fewer than 2^32 elements reads and writes only inside the array,
  ends, and returns the array's elements in ascending order.\<close>

theorem heapSort_sorts:
  "length xs < 2 ^ 32 \<Longrightarrow> heapSort xs (length xs) = Inr (sort xs)"
  by (rule heap_sorter.sort_array_eq)

theorem heapSort_sorts_witness:
  "length [3, -1, 2 :: int] < 2 ^ 32 \<and> heapSort [3, -1, 2] (length [3, -1, 2 :: int]) = Inr [-1, 2, 3]"
  using heapSort_sorts [of "[3, -1, 2]"] by simp

text \<open>C2: the whole program: for every array of \<open>int\<close>s given as the element count and the elements,
  it prints the elements in ascending order and a newline.\<close>

theorem heap_sort_main_prints_sorted:
  assumes "length xs < 2 ^ 31" and "\<forall>x \<in> set xs. in_int32 x"
  shows "main (show_int (int (length xs)) @ '' '' @ show_ints xs) = Inr (show_ints (sort xs) @ ''\<newline>'')"
proof -
  have "scanf_li (show_int (int (length xs)) @ '' '' @ show_ints xs) =
      Item (int (length xs)) (CHR '' '' # show_ints xs)"
    using scan_int_show_int [of "CHR '' '' # show_ints xs" "[]" "int (length xs)"] assms(1)
    by (simp add: scanf_li_def)
  with assms show ?thesis
    using heap_sorter.read_sort_print [of xs "[]"] by (simp add: main_def)
qed

theorem heap_sort_main_prints_sorted_witness:
  "main ''3 5 -7 0 '' = Inr ''-7 0 5 \<newline>''"
proof -
  have n: "show_nat 3 = ''3''" "show_nat 5 = ''5''" "show_nat 7 = ''7''" by code_simp+
  then show ?thesis
    using heap_sort_main_prints_sorted [of "[5, -7, 0]"]
    by (simp add: in_int32_def show_ints_def show_int_def)
qed

end
