(* ===== verification/Quick_Sort.thy ===== *)
theory Quick_Sort
  imports Array_Io
begin

text \<open>
  \<open>C-Labs/Quick_sort/src/main.c\<close>: quick sort with the pivot in the middle and two converging
  indices.  \<open>scan_up\<close> and \<open>scan_down\<close> are the two inner loops of \<open>partition\<close>, which have no bound of
  their own: that they stay inside the array is part of what is proved.  Indices are \<open>int\<close>, and
  \<open>start + end\<close> is undefined when it overflows.
\<close>

section \<open>Definitions\<close>

function scan_up :: "int list \<Rightarrow> int \<Rightarrow> int \<Rightarrow> int res" where
  "scan_up arr pivot lo =
     bindR (arr_geti arr lo) (\<lambda>v. if v < pivot then scan_up arr pivot (lo + 1) else Inr lo)"
  by pat_completeness auto
termination
  by (relation "measure (\<lambda>(arr, pivot, lo). nat (int (length arr) - lo))")
     (auto simp: arr_geti_def arr_get_def split: if_splits)

function scan_down :: "int list \<Rightarrow> int \<Rightarrow> int \<Rightarrow> int res" where
  "scan_down arr pivot hi =
     bindR (arr_geti arr hi) (\<lambda>v. if v > pivot then scan_down arr pivot (hi - 1) else Inr hi)"
  by pat_completeness auto
termination
  by (relation "measure (\<lambda>(arr, pivot, hi). nat (hi + 1))")
     (auto simp: arr_geti_def split: if_splits)

declare scan_up.simps [simp del] scan_down.simps [simp del]

lemma scan_up_Inr: "scan_up arr pivot lo = Inr lo' \<Longrightarrow> lo \<le> lo' \<and> 0 \<le> lo \<and> lo < int (length arr)"
proof (induction arr pivot lo rule: scan_up.induct)
  case (1 arr pivot lo)
  from "1.prems" show ?case
    by (subst (asm) scan_up.simps)
       (auto simp: arr_geti_def arr_get_def split: if_splits dest!: "1.IH" [rotated])
qed

lemma scan_down_Inr: "scan_down arr pivot hi = Inr hi' \<Longrightarrow> hi' \<le> hi \<and> 0 \<le> hi \<and> hi < int (length arr)"
proof (induction arr pivot hi rule: scan_down.induct)
  case (1 arr pivot hi)
  from "1.prems" show ?case
    by (subst (asm) scan_down.simps)
       (auto simp: arr_geti_def arr_get_def split: if_splits dest!: "1.IH" [rotated])
qed

function partition_loop :: "int list \<Rightarrow> int \<Rightarrow> int \<Rightarrow> int \<Rightarrow> (int list \<times> int) res" where
  "partition_loop arr pivot lo hi =
     (if lo \<le> hi then
        bindR (scan_up arr pivot lo) (\<lambda>lo'.
        bindR (scan_down arr pivot hi) (\<lambda>hi'.
        if lo' \<ge> hi' then Inr (arr, hi')
        else bindR (swap arr (nat lo') (nat hi')) (\<lambda>arr'.
             partition_loop arr' pivot (lo' + 1) (hi' - 1))))
      else Inr (arr, hi))"
  by pat_completeness auto
termination
  by (relation "measure (\<lambda>(arr, pivot, lo, hi). nat (hi - lo + 1))")
     (auto dest!: scan_up_Inr scan_down_Inr)

declare partition_loop.simps [simp del]

definition partition :: "int list \<Rightarrow> int \<Rightarrow> int \<Rightarrow> (int list \<times> int) res" where
  "partition arr start end' =
     bindR (ckd (start + end')) (\<lambda>sum.
     bindR (arr_geti arr (c_div sum 2)) (\<lambda>pivot.
     partition_loop arr pivot start end'))"

section \<open>Partitioning\<close>

abbreviation cell :: "int list \<Rightarrow> int \<Rightarrow> int" where
  "cell arr i \<equiv> arr ! nat i"

lemma scan_up_spec:
  assumes "0 \<le> lo" and "lo \<le> k" and "k < int (length arr)" and "pivot \<le> cell arr k"
  shows "\<exists>lo'. scan_up arr pivot lo = Inr lo' \<and> lo \<le> lo' \<and> lo' \<le> k \<and> pivot \<le> cell arr lo' \<and>
           (\<forall>i. lo \<le> i \<and> i < lo' \<longrightarrow> cell arr i < pivot)"
  using assms
proof (induction arr pivot lo rule: scan_up.induct)
  case (1 arr pivot lo)
  then have g: "arr_geti arr lo = Inr (cell arr lo)" by simp
  show ?case
  proof (cases "cell arr lo < pivot")
    case True
    then have "lo + 1 \<le> k" using "1.prems" by (cases "lo = k") auto
    then obtain lo' where lo': "scan_up arr pivot (lo + 1) = Inr lo'" "lo + 1 \<le> lo'" "lo' \<le> k"
        "pivot \<le> cell arr lo'" "\<forall>i. lo + 1 \<le> i \<and> i < lo' \<longrightarrow> cell arr i < pivot"
      using "1.IH" [OF g True] "1.prems" by auto
    have "cell arr i < pivot" if "lo \<le> i" "i < lo'" for i
      using that lo'(5) True by (cases "i = lo") auto
    with lo' g True show ?thesis by (subst scan_up.simps) auto
  next
    case False
    with g "1.prems" show ?thesis by (subst scan_up.simps) auto
  qed
qed

lemma scan_down_spec:
  assumes "hi < int (length arr)" and "k \<le> hi" and "0 \<le> k" and "cell arr k \<le> pivot"
  shows "\<exists>hi'. scan_down arr pivot hi = Inr hi' \<and> hi' \<le> hi \<and> k \<le> hi' \<and> cell arr hi' \<le> pivot \<and>
           (\<forall>i. hi' < i \<and> i \<le> hi \<longrightarrow> pivot < cell arr i)"
  using assms
proof (induction arr pivot hi rule: scan_down.induct)
  case (1 arr pivot hi)
  then have g: "arr_geti arr hi = Inr (cell arr hi)" by simp
  show ?case
  proof (cases "cell arr hi > pivot")
    case True
    then have "k \<le> hi - 1" using "1.prems" by (cases "hi = k") auto
    then obtain hi' where hi': "scan_down arr pivot (hi - 1) = Inr hi'" "hi' \<le> hi - 1" "k \<le> hi'"
        "cell arr hi' \<le> pivot" "\<forall>i. hi' < i \<and> i \<le> hi - 1 \<longrightarrow> pivot < cell arr i"
      using "1.IH" [OF g True] "1.prems" by auto
    have "pivot < cell arr i" if "hi' < i" "i \<le> hi" for i
      using that hi'(5) True by (cases "i = hi") auto
    with hi' g True show ?thesis by (subst scan_down.simps) auto
  next
    case False
    with g "1.prems" show ?thesis by (subst scan_down.simps) auto
  qed
qed

text \<open>The loop's invariant on the range \<open>start..end\<close>: what lies left of \<open>lo\<close> is at most the pivot, what
  lies right of \<open>hi\<close> at least the pivot, and either nothing has moved and the pivot is inside the
  range before its last cell, or both indices have moved.\<close>

definition part_inv :: "int \<Rightarrow> int \<Rightarrow> int \<Rightarrow> int list \<Rightarrow> int \<Rightarrow> int \<Rightarrow> bool" where
  "part_inv start end' pivot arr lo hi \<longleftrightarrow>
     0 \<le> start \<and> end' < int (length arr) \<and> start \<le> lo \<and> hi \<le> end' \<and> lo \<le> hi + 1 \<and>
     (\<forall>i. start \<le> i \<and> i < lo \<longrightarrow> cell arr i \<le> pivot) \<and> (\<forall>i. hi < i \<and> i \<le> end' \<longrightarrow> pivot \<le> cell arr i) \<and>
     (lo = start \<and> hi = end' \<and> (\<exists>m. start \<le> m \<and> m < end' \<and> cell arr m = pivot) \<or> start < lo \<and> hi < end')"

definition parted :: "int \<Rightarrow> int \<Rightarrow> int \<Rightarrow> int list \<Rightarrow> int \<Rightarrow> bool" where
  "parted start end' pivot arr d \<longleftrightarrow> start \<le> d \<and> d < end' \<and>
     (\<forall>i. start \<le> i \<and> i \<le> d \<longrightarrow> cell arr i \<le> pivot) \<and> (\<forall>i. d < i \<and> i \<le> end' \<longrightarrow> pivot \<le> cell arr i)"

text \<open>Two arrays with the same elements that agree outside the range.\<close>

definition rearranged :: "int \<Rightarrow> int \<Rightarrow> int list \<Rightarrow> int list \<Rightarrow> bool" where
  "rearranged start end' xs ys \<longleftrightarrow> length ys = length xs \<and> mset ys = mset xs \<and>
     (\<forall>i. 0 \<le> i \<and> i < int (length xs) \<and> (i < start \<or> end' < i) \<longrightarrow> cell ys i = cell xs i)"

lemma rearranged_refl: "rearranged start end' xs xs"
  by (simp add: rearranged_def)

lemma rearranged_trans:
  "rearranged s e xs ys \<Longrightarrow> rearranged s' e' ys zs \<Longrightarrow> s \<le> s' \<Longrightarrow> e' \<le> e \<Longrightarrow> rearranged s e xs zs"
  by (auto simp: rearranged_def)

lemma rearranged_widen:
  "rearranged s' e' xs ys \<Longrightarrow> s \<le> s' \<Longrightarrow> e' \<le> e \<Longrightarrow> rearranged s e xs ys"
  by (auto simp: rearranged_def)

lemma cell_swap:
  assumes "0 \<le> a" "a < int (length arr)" "0 \<le> b" "b < int (length arr)" "0 \<le> i" "i < int (length arr)"
  shows "cell (swap_list (nat a) (nat b) arr) i =
    (if i = a then cell arr b else if i = b then cell arr a else cell arr i)"
  using assms by (subst nth_swap_list) (auto simp: nat_less_iff)

lemma part_inv_step:
  assumes inv: "part_inv start end' pivot arr lo hi" and le: "lo \<le> hi"
  obtains lo' hi' where "scan_up arr pivot lo = Inr lo'" and "scan_down arr pivot hi = Inr hi'"
    and "lo' \<ge> hi' \<Longrightarrow> parted start end' pivot arr hi'"
    and "lo' < hi' \<Longrightarrow> 0 \<le> lo' \<and> hi' < int (length arr) \<and> start \<le> lo' \<and> hi' \<le> end' \<and>
           part_inv start end' pivot (swap_list (nat lo') (nat hi') arr) (lo' + 1) (hi' - 1)"
proof -
  have up: "\<exists>k. lo \<le> k \<and> k \<le> end' \<and> pivot \<le> cell arr k \<and> (lo = start \<longrightarrow> k < end')"
    using inv le unfolding part_inv_def
    by (elim conjE disjE) (fastforce, auto intro!: exI [of _ "hi + 1"])
  then obtain k where k: "lo \<le> k" "k \<le> end'" "pivot \<le> cell arr k" "lo = start \<longrightarrow> k < end'" by blast
  have down: "\<exists>j. start \<le> j \<and> j \<le> hi \<and> cell arr j \<le> pivot"
    using inv le unfolding part_inv_def
    by (elim conjE disjE) (fastforce, auto intro!: exI [of _ "lo - 1"])
  then obtain j where j: "start \<le> j" "j \<le> hi" "cell arr j \<le> pivot" by blast
  obtain lo' where lo': "scan_up arr pivot lo = Inr lo'" "lo \<le> lo'" "lo' \<le> k" "pivot \<le> cell arr lo'"
      "\<forall>i. lo \<le> i \<and> i < lo' \<longrightarrow> cell arr i < pivot"
    using scan_up_spec [of lo k arr pivot] inv k by (auto simp: part_inv_def)
  obtain hi' where hi': "scan_down arr pivot hi = Inr hi'" "hi' \<le> hi" "j \<le> hi'" "cell arr hi' \<le> pivot"
      "\<forall>i. hi' < i \<and> i \<le> hi \<longrightarrow> pivot < cell arr i"
    using scan_down_spec [of hi arr j pivot] inv j by (auto simp: part_inv_def)
  have low: "cell arr i \<le> pivot" if "start \<le> i" "i < lo'" for i
    using that inv lo'(5) by (cases "i < lo") (auto simp: part_inv_def less_imp_le)
  have high: "pivot \<le> cell arr i" if "hi' < i" "i \<le> end'" for i
    using that inv hi'(5) by (cases "hi < i") (auto simp: part_inv_def less_imp_le)
  show ?thesis
  proof (rule that [OF lo'(1) hi'(1)])
    assume ge: "lo' \<ge> hi'"
    have "hi' < end'"
      using inv ge lo' k hi' unfolding part_inv_def by auto
    moreover have "cell arr i \<le> pivot" if "start \<le> i" "i \<le> hi'" for i
      using that low ge hi'(4) by (cases "i = hi'") auto
    ultimately show "parted start end' pivot arr hi'"
      using high j hi' by (auto simp: parted_def)
  next
    assume lt: "lo' < hi'"
    have b: "0 \<le> lo'" "hi' < int (length arr)" "start \<le> lo'" "hi' \<le> end'" "0 \<le> start" "end' < int (length arr)"
      using inv lo' hi' lt by (auto simp: part_inv_def)
    let ?a = "swap_list (nat lo') (nat hi') arr"
    have c: "cell ?a i = (if i = lo' then cell arr hi' else if i = hi' then cell arr lo' else cell arr i)"
      if "0 \<le> i" "i < int (length arr)" for i
      using cell_swap [of lo' arr hi' i] b lt that by auto
    have "part_inv start end' pivot ?a (lo' + 1) (hi' - 1)"
      using b lt low high hi'(4) lo'(4) unfolding part_inv_def by (auto simp: c)
    with b show "0 \<le> lo' \<and> hi' < int (length arr) \<and> start \<le> lo' \<and> hi' \<le> end' \<and>
        part_inv start end' pivot ?a (lo' + 1) (hi' - 1)" by blast
  qed
qed

lemma partition_loop_spec:
  assumes "part_inv start end' pivot arr lo hi"
  shows "\<exists>arr' d. partition_loop arr pivot lo hi = Inr (arr', d) \<and> rearranged start end' arr arr' \<and>
           parted start end' pivot arr' d"
  using assms
proof (induction arr pivot lo hi rule: partition_loop.induct)
  case (1 arr pivot lo hi)
  show ?case
  proof (cases "lo \<le> hi")
    case False
    with "1.prems" have "parted start end' pivot arr hi"
      by (auto simp: part_inv_def parted_def)
    with False show ?thesis
      by (subst partition_loop.simps) (auto simp: rearranged_refl)
  next
    case True
    obtain lo' hi' where s: "scan_up arr pivot lo = Inr lo'" "scan_down arr pivot hi = Inr hi'"
      and ge: "lo' \<ge> hi' \<Longrightarrow> parted start end' pivot arr hi'"
      and lt: "lo' < hi' \<Longrightarrow> 0 \<le> lo' \<and> hi' < int (length arr) \<and> start \<le> lo' \<and> hi' \<le> end' \<and>
           part_inv start end' pivot (swap_list (nat lo') (nat hi') arr) (lo' + 1) (hi' - 1)"
      using part_inv_step [OF "1.prems" True] by blast
    show ?thesis
    proof (cases "lo' \<ge> hi'")
      case True
      with ge s \<open>lo \<le> hi\<close> show ?thesis
        by (subst partition_loop.simps) (auto simp: rearranged_refl)
    next
      case False
      let ?a = "swap_list (nat lo') (nat hi') arr"
      from False lt have b: "0 \<le> lo'" "lo' < hi'" "hi' < int (length arr)" "start \<le> lo'" "hi' \<le> end'"
        and inv: "part_inv start end' pivot ?a (lo' + 1) (hi' - 1)" by auto
      have sw: "swap arr (nat lo') (nat hi') = Inr ?a"
        using b by (intro swap_in) auto
      have "rearranged start end' arr ?a"
        using b cell_swap [of lo' arr hi'] by (auto simp: rearranged_def)
      moreover obtain arr' d where "partition_loop ?a pivot (lo' + 1) (hi' - 1) = Inr (arr', d)"
          "rearranged start end' ?a arr'" "parted start end' pivot arr' d"
        using "1.IH" [OF True s False sw inv] by blast
      ultimately show ?thesis
        using True s False sw rearranged_trans [of start end' arr ?a start end' arr']
        by (subst partition_loop.simps) auto
    qed
  qed
qed

lemma partition_spec:
  assumes "0 \<le> start" and "start < end'" and "end' < int (length arr)" and "in_int32 (start + end')"
  shows "\<exists>arr' d pivot. partition arr start end' = Inr (arr', d) \<and> rearranged start end' arr arr' \<and>
           parted start end' pivot arr' d"
proof -
  let ?m = "(start + end') div 2"
  have m: "start \<le> ?m" "?m < end'" using assms(2) by auto
  then have "part_inv start end' (cell arr ?m) arr start end'"
    using assms by (auto simp: part_inv_def)
  from partition_loop_spec [OF this] show ?thesis
    using assms m by (auto simp: partition_def)
qed

lemma partition_Inr:
  assumes "partition arr start end' = Inr (arr', d)" and "start < end'"
  shows "0 \<le> start \<and> end' < int (length arr) \<and> start \<le> d \<and> d < end'"
proof -
  obtain pivot where l: "partition_loop arr pivot start end' = Inr (arr', d)" and s: "in_int32 (start + end')"
    using assms(1) by (auto simp: partition_def ckd_Inr_iff)
  from l assms(2) have "0 \<le> start \<and> end' < int (length arr)"
    by (subst (asm) partition_loop.simps) (auto dest!: scan_up_Inr scan_down_Inr)
  with partition_spec [of start end' arr] assms s show ?thesis
    by (auto simp: parted_def)
qed

section \<open>Sorting\<close>

function quickSort :: "int list \<Rightarrow> int \<Rightarrow> int \<Rightarrow> int list res" where
  "quickSort arr start end' =
     (if start \<ge> end' then Inr arr
      else bindR (partition arr start end') (\<lambda>(arr', dividerIndex).
           bindR (quickSort arr' start dividerIndex) (\<lambda>arr''.
           quickSort arr'' (dividerIndex + 1) end')))"
  by pat_completeness auto
termination
  by (relation "measure (\<lambda>(arr, start, end'). nat (end' - start))") (auto dest: partition_Inr)

declare quickSort.simps [simp del]

definition main :: "string \<Rightarrow> string res" where
  "main inp =
     (case scanf_i inp of
        Item arraySize s \<Rightarrow>
          bindR (readArray (nat arraySize) (nat (arraySize mod 2 ^ 64)) s) (\<lambda>array.
          bindR (quickSort array 0 (int (length array) - 1)) (\<lambda>array'.
          Inr (printArray array')))
      | Mismatch s \<Rightarrow> badInput
      | InputEnd \<Rightarrow> badInput)"

definition sorted_range :: "int \<Rightarrow> int \<Rightarrow> int list \<Rightarrow> bool" where
  "sorted_range start end' arr \<longleftrightarrow> (\<forall>i j. start \<le> i \<and> i \<le> j \<and> j \<le> end' \<longrightarrow> cell arr i \<le> cell arr j)"

text \<open>A bound that holds of every cell of a range survives rearranging the range.\<close>

lemma rearranged_value:
  assumes "rearranged s e xs ys" and "0 \<le> s" and "e < int (length xs)" and "s \<le> i" and "i \<le> e"
  shows "\<exists>j. s \<le> j \<and> j \<le> e \<and> cell ys i = cell xs j"
proof -
  have "ys ! k = xs ! k" if "k < length xs" "k < nat s \<or> nat (e + 1) \<le> k" for k
    using assms(1) that unfolding rearranged_def
    by (elim conjE allE [of _ "int k"]) auto
  moreover have "nat (e + 1) \<le> length xs" "nat s \<le> nat i" "nat i < nat (e + 1)"
    using assms by auto
  ultimately obtain j where "nat s \<le> j" "j < nat (e + 1)" "ys ! nat i = xs ! j"
    using segment_value [of ys xs "nat (e + 1)" "nat s" "nat i"] assms(1)
    unfolding rearranged_def by metis
  then show ?thesis
    using assms by (intro exI [of _ "int j"]) auto
qed

lemma quickSort_spec:
  assumes "0 \<le> start" and "end' < int (length arr)" and "int (length arr) \<le> 2 ^ 30"
  shows "\<exists>arr'. quickSort arr start end' = Inr arr' \<and> rearranged start end' arr arr' \<and>
           sorted_range start end' arr'"
  using assms
proof (induction arr start end' rule: quickSort.induct)
  case (1 arr start end')
  show ?case
  proof (cases "start \<ge> end'")
    case True
    then have "i = j" if "start \<le> i" "i \<le> j" "j \<le> end'" for i j
      using that by simp
    then have "sorted_range start end' arr"
      unfolding sorted_range_def by (metis order_refl)
    with True show ?thesis
      by (subst quickSort.simps) (simp add: rearranged_refl)
  next
    case False
    then have "in_int32 (start + end')" using "1.prems" by (simp add: in_int32_def)
    then obtain a d pivot where p: "partition arr start end' = Inr (a, d)" "rearranged start end' arr a"
        "parted start end' pivot a d"
      using partition_spec [of start end' arr] False "1.prems" by auto
    then have d: "start \<le> d" "d < end'" and la: "length a = length arr"
      by (auto simp: parted_def rearranged_def)
    obtain b where b: "quickSort a start d = Inr b" "rearranged start d a b" "sorted_range start d b"
      using "1.IH"(1) [OF False p(1) refl] "1.prems" d la by auto
    then have lb: "length b = length arr" using la by (simp add: rearranged_def)
    obtain c where c: "quickSort b (d + 1) end' = Inr c" "rearranged (d + 1) end' b c" "sorted_range (d + 1) end' c"
      using "1.IH"(2) [OF False p(1) refl b(1)] "1.prems" d lb by auto
    have left: "cell c i = cell b i" if "start \<le> i" "i \<le> d" for i
      using c(2) that "1.prems" d lb by (auto simp: rearranged_def)
    have right: "cell b i = cell a i" if "d < i" "i \<le> end'" for i
      using b(2) that "1.prems" d la by (auto simp: rearranged_def)
    have low: "cell c i \<le> pivot" if "start \<le> i" "i \<le> d" for i
      using rearranged_value [OF b(2) "1.prems"(1), of i] that left p(3) d la "1.prems"
      by (auto simp: parted_def)
    have high: "pivot \<le> cell c i" if i: "d < i" "i \<le> end'" for i
    proof -
      obtain j where "d + 1 \<le> j" "j \<le> end'" "cell c i = cell b j"
        using rearranged_value [OF c(2), of i] i "1.prems" d lb by auto
      then show ?thesis using right p(3) by (simp add: parted_def)
    qed
    have "cell c i \<le> cell c j" if ij: "start \<le> i" "i \<le> j" "j \<le> end'" for i j
    proof -
      consider "j \<le> d" | "i \<le> d" "d < j" | "d < i" by linarith
      then show ?thesis
      proof cases
        case 1
        then show ?thesis using ij b(3) left by (simp add: sorted_range_def)
      next
        case 2
        then show ?thesis using ij low [of i] high [of j] by simp
      next
        case 3
        then show ?thesis using ij c(3) by (simp add: sorted_range_def)
      qed
    qed
    then have "sorted_range start end' c" by (simp add: sorted_range_def)
    moreover have "rearranged start end' arr c"
      using p(2) b(2) c(2) d
        rearranged_trans [OF p(2), of start d b] rearranged_trans [of start end' arr b "d + 1" end' c]
      by simp
    ultimately show ?thesis
      using False p(1) b(1) c(1) by (subst quickSort.simps) auto
  qed
qed

lemma quickSort_correct:
  assumes "length xs \<le> 2 ^ 30"
  shows "\<exists>ys. quickSort xs 0 (int (length xs) - 1) = Inr ys \<and> sorted ys \<and> mset ys = mset xs"
proof -
  obtain ys where "quickSort xs 0 (int (length xs) - 1) = Inr ys" "rearranged 0 (int (length xs) - 1) xs ys"
      "sorted_range 0 (int (length xs) - 1) ys"
    using quickSort_spec [of 0 "int (length xs) - 1" xs] assms by auto
  moreover from this have "ys ! i \<le> ys ! j" if "i \<le> j" "j < length ys" for i j
    using that unfolding sorted_range_def rearranged_def
    by (elim conjE allE [of _ "int i"] allE [of _ "int j"]) auto
  ultimately show ?thesis
    by (auto simp: rearranged_def sorted_iff_nth_mono)
qed

interpretation quick_sorter: array_sorter
  "\<lambda>xs. quickSort xs 0 (int (length xs) - 1)" "\<lambda>xs. length xs \<le> 2 ^ 30"
  by unfold_locales (rule quickSort_correct)

section \<open>Properties\<close>

lemma quickSort_segment:
  assumes "a \<le> b" and "b \<le> length xs" and "length xs \<le> 2 ^ 30"
  shows "quickSort xs (int a) (int b - 1) = Inr (take a xs @ sort (take (b - a) (drop a xs)) @ drop b xs)"
proof -
  obtain ys where q: "quickSort xs (int a) (int b - 1) = Inr ys" and r: "rearranged (int a) (int b - 1) xs ys"
    and srt: "sorted_range (int a) (int b - 1) ys"
    using quickSort_spec [of "int a" "int b - 1" xs] assms by auto
  have len: "length ys = length xs" and ms: "mset ys = mset xs" using r by (auto simp: rearranged_def)
  have out: "ys ! i = xs ! i" if "i < length xs" "i < a \<or> b \<le> i" for i
  proof -
    have "0 \<le> int i \<and> int i < int (length xs) \<and> (int i < int a \<or> int b - 1 < int i)" using that by auto
    then have "cell ys (int i) = cell xs (int i)" using r unfolding rearranged_def by blast
    then show ?thesis by simp
  qed
  have "mset (take (b - a) (drop a ys)) = mset (take (b - a) (drop a xs))"
    by (rule mset_segment [OF len ms assms(1,2)]) (rule out)
  moreover have "sorted (take (b - a) (drop a ys))"
    unfolding sorted_iff_nth_mono
  proof (intro allI impI)
    fix i j assume ij: "i \<le> j" "j < length (take (b - a) (drop a ys))"
    then have "cell ys (int (a + i)) \<le> cell ys (int (a + j))"
      using assms len by (intro srt [unfolded sorted_range_def, rule_format]) auto
    then show "take (b - a) (drop a ys) ! i \<le> take (b - a) (drop a ys) ! j"
      using ij assms len unfolding nat_int by simp
  qed
  ultimately have "take (b - a) (drop a ys) = sort (take (b - a) (drop a xs))" by (simp add: properties_for_sort)
  moreover have "take a ys = take a xs" "drop b ys = drop b xs"
    using out len assms(1,2) by (auto intro!: nth_equalityI)
  moreover have "ys = take a ys @ take (b - a) (drop a ys) @ drop b ys"
    using assms(1) by (metis append_take_drop_id drop_drop le_add_diff_inverse2)
  ultimately show ?thesis using q by simp
qed

text \<open>C3: \<open>quickSort\<close> of the segment from \<open>a\<close> to before \<open>b\<close> of an array of at most 2^30 elements, the largest size for
  which \<open>start + end\<close> cannot overflow, stays inside the array although its inner loops test no bound, ends, puts the
  elements of the segment in ascending order and leaves everything before and after the segment as it was.\<close>

theorem quickSort_sorts:
  assumes "a \<le> b" and "b \<le> length xs" and "length xs \<le> 2 ^ 30"
  shows "quickSort xs (int a) (int b - 1) = Inr (take a xs @ sort (take (b - a) (drop a xs)) @ drop b xs)"
  by (rule quickSort_segment [OF assms])

theorem quickSort_sorts_witness:
  "quickSort [9, 3, -1, 2, 0] 1 3 = Inr [9, -1, 2, 3, 0]"
  using quickSort_sorts [of 1 4 "[9, 3, -1, 2, 0]"] by simp

text \<open>C4: the whole program prints its input array in ascending order.\<close>

theorem quick_sort_main_prints_sorted:
  assumes "length xs \<le> 2 ^ 30" and "\<forall>x \<in> set xs. in_int32 x"
  shows "main (show_int (int (length xs)) @ '' '' @ show_ints xs) = Inr (show_ints (sort xs) @ ''\<newline>'')"
proof -
  have "scanf_i (show_int (int (length xs)) @ CHR '' '' # show_ints xs) =
      Item (int (length xs)) (CHR '' '' # show_ints xs)"
    using assms(1) by (intro scanf_i_show_int) (simp_all add: in_int32_def)
  with assms show ?thesis
    using quick_sorter.read_sort_print [of xs "[]"] by (simp add: main_def)
qed

theorem quick_sort_main_prints_sorted_witness:
  "main ''3 5 -7 0 '' = Inr ''-7 0 5 \<newline>''"
proof -
  have n: "show_nat 3 = ''3''" "show_nat 5 = ''5''" "show_nat 7 = ''7''" by code_simp+
  then show ?thesis
    using quick_sort_main_prints_sorted [of "[5, -7, 0]"]
    by (simp add: in_int32_def show_ints_def show_int_def)
qed

end
