(* ===== verification/C_Heap.thy ===== *)
theory C_Heap
  imports C_Prelude "HOL-Library.AList"
begin

text \<open>
  An explicit store for the structures whose nodes are linked by pointers and updated through
  them.  A pointer is an address or NULL (\<open>None\<close>); a heap maps the allocated addresses to the
  structs there and knows the address \<open>malloc\<close> hands out next.  Loading from, storing to or freeing
  an address that is not allocated is undefined behaviour, so a use after free or a double free
  shows up as \<open>Inl Undefined\<close>.
\<close>

type_synonym ptr = "nat option"

record 'a heap =
  cells :: "(nat \<times> 'a) list"
  brk :: nat

text \<open>What a pointer to a single struct, kept as a record of its own, points to.\<close>

datatype block = NullPointer | Live | Freed

text \<open>An access through the pointer, and \<open>free\<close> of what it points to.\<close>

definition deref :: "block \<Rightarrow> 'a res \<Rightarrow> 'a res" where
  "deref b m = (if b = Live then m else Inl Undefined)"

definition free_block :: "block \<Rightarrow> block res" where
  "free_block b = (case b of NullPointer \<Rightarrow> Inr NullPointer | Live \<Rightarrow> Inr Freed | Freed \<Rightarrow> Inl Undefined)"

lemma deref_Live [simp]: "deref Live m = m"
  by (simp add: deref_def)

lemma deref_Inr_iff [simp]: "deref b m = Inr x \<longleftrightarrow> b = Live \<and> m = Inr x"
  by (simp add: deref_def)

lemma free_block_Live [simp]: "free_block Live = Inr Freed"
  by (simp add: free_block_def)

definition empty_heap :: "'a heap" where
  "empty_heap = \<lparr>cells = [], brk = 0\<rparr>"

definition lookup :: "'a heap \<Rightarrow> nat \<Rightarrow> 'a option" where
  "lookup h a = map_of (cells h) a"

definition h_load :: "'a heap \<Rightarrow> ptr \<Rightarrow> 'a res" where
  "h_load h p = (case p of None \<Rightarrow> Inl Undefined
     | Some a \<Rightarrow> (case lookup h a of None \<Rightarrow> Inl Undefined | Some v \<Rightarrow> Inr v))"

definition h_store :: "'a heap \<Rightarrow> ptr \<Rightarrow> 'a \<Rightarrow> 'a heap res" where
  "h_store h p v = (case p of None \<Rightarrow> Inl Undefined
     | Some a \<Rightarrow> (case lookup h a of None \<Rightarrow> Inl Undefined
                  | Some _ \<Rightarrow> Inr (h\<lparr>cells := AList.update a v (cells h)\<rparr>)))"

definition h_alloc :: "'a heap \<Rightarrow> 'a \<Rightarrow> nat \<times> 'a heap" where
  "h_alloc h v = (brk h, h\<lparr>cells := (brk h, v) # cells h, brk := brk h + 1\<rparr>)"

definition h_free :: "'a heap \<Rightarrow> ptr \<Rightarrow> 'a heap res" where
  "h_free h p = (case p of None \<Rightarrow> Inr h
     | Some a \<Rightarrow> (case lookup h a of None \<Rightarrow> Inl Undefined
                  | Some _ \<Rightarrow> Inr (h\<lparr>cells := AList.delete a (cells h)\<rparr>)))"

text \<open>Every allocated address lies below the next one.\<close>

definition heap_ok :: "'a heap \<Rightarrow> bool" where
  "heap_ok h \<longleftrightarrow> (\<forall>a. lookup h a \<noteq> None \<longrightarrow> a < brk h)"

lemma heap_ok_empty [simp]: "heap_ok empty_heap" "lookup empty_heap a = None"
  by (simp_all add: heap_ok_def lookup_def empty_heap_def)

lemma h_load_Some [simp]: "lookup h a = Some v \<Longrightarrow> h_load h (Some a) = Inr v"
  by (simp add: h_load_def)

lemma h_load_Inr_iff: "h_load h p = Inr v \<longleftrightarrow> (\<exists>a. p = Some a \<and> lookup h a = Some v)"
  by (auto simp: h_load_def split: option.splits)

lemma h_store_Inr_iff: "h_store h p v = Inr h' \<longleftrightarrow>
    (\<exists>a w. p = Some a \<and> lookup h a = Some w \<and> h' = h\<lparr>cells := AList.update a v (cells h)\<rparr>)"
  by (auto simp: h_store_def split: option.splits)

lemma h_store_ok:
  assumes "lookup h a = Some w"
  shows "\<exists>h'. h_store h (Some a) v = Inr h' \<and> lookup h' = (lookup h)(a \<mapsto> v) \<and> brk h' = brk h \<and>
           (heap_ok h \<longrightarrow> heap_ok h')"
proof -
  let ?h = "h\<lparr>cells := AList.update a v (cells h)\<rparr>"
  have "lookup ?h = (lookup h)(a \<mapsto> v)" by (auto simp: lookup_def update_conv')
  with assms show ?thesis by (auto simp: h_store_def heap_ok_def)
qed

lemma h_alloc_ok:
  assumes "heap_ok h" and "h_alloc h v = (a, h')"
  shows "lookup h a = None" and "lookup h' = (lookup h)(a \<mapsto> v)" and "heap_ok h'" and "brk h' = brk h + 1"
    and "a = brk h"
  using assms by (auto simp: h_alloc_def heap_ok_def lookup_def fun_eq_iff less_Suc_eq split: if_splits)

lemma h_free_ok:
  assumes "lookup h a = Some w"
  shows "\<exists>h'. h_free h (Some a) = Inr h' \<and> lookup h' = (lookup h)(a := None) \<and> brk h' = brk h \<and>
           (heap_ok h \<longrightarrow> heap_ok h')"
proof -
  let ?h = "h\<lparr>cells := AList.delete a (cells h)\<rparr>"
  have "lookup ?h = (lookup h)(a := None)" by (auto simp: lookup_def delete_conv')
  with assms show ?thesis by (auto simp: h_free_def heap_ok_def)
qed

text \<open>Freeing an allocated cell makes the heap smaller, which is what ends a loop that frees.\<close>

lemma h_free_shrinks:
  assumes "h_load h p = Inr v" and "h_free h p = Inr h'"
  shows "length (cells h') < length (cells h)"
proof -
  obtain a where a: "p = Some a" "lookup h a = Some v" using assms(1) by (auto simp: h_load_Inr_iff)
  then have "(a, v) \<in> set (cells h)" by (auto simp: lookup_def dest: map_of_SomeD)
  then have "length (filter (\<lambda>(k, _). a \<noteq> k) (cells h)) < length (cells h)"
    by (intro length_filter_less) auto
  with a assms(2) show ?thesis
    by (auto simp: h_free_def AList.delete_eq)
qed

end
