(* ===== verification/Huffman_Queue.thy ===== *)
theory Huffman_Queue
  imports C_Heap
begin

text \<open>
  \<open>C-Labs/Huffman_archiver/src/Queue.c\<close>: a queue as a singly linked list with pointers to its first
  and last node.  Each queue owns its nodes, kept in a heap of its own; \<open>queue_mem\<close> says whether the
  struct \<open>Queue\<close> itself is allocated, so that a use of a destroyed queue is \<open>Undefined\<close>.  \<open>GetSize\<close> and
  \<open>IsEmpty\<close> are only called on live queues and give plain values.  \<open>queue_rep q xs\<close> says that
  \<open>q\<close> is a well-formed queue that holds \<open>xs\<close>; the locale \<open>fifo_queue\<close> is the contract its client,
  the Huffman tree builder, relies on.
\<close>

section \<open>Definitions\<close>

record 'a QNode =
  next_node :: ptr
  data :: 'a

record 'a Queue =
  nodes :: "'a QNode heap"
  frontNode :: ptr
  backNode :: ptr
  qsize :: nat
  queue_mem :: block

text \<open>\<open>assert(queue != NULL)\<close> and then an access to \<open>*queue\<close>.\<close>

definition on_queue :: "'a Queue \<Rightarrow> 'b res \<Rightarrow> 'b res" where
  "on_queue queue m = assertR (queue_mem queue \<noteq> NullPointer) (deref (queue_mem queue) m)"

lemma on_queue_Inr_iff [simp]: "on_queue queue m = Inr x \<longleftrightarrow> queue_mem queue = Live \<and> m = Inr x"
  by (auto simp: on_queue_def)

lemma on_queue_Live [simp]: "queue_mem queue = Live \<Longrightarrow> on_queue queue m = m"
  by (simp add: on_queue_def)

definition CreateQueue :: "'a Queue" where
  "CreateQueue = \<lparr>nodes = empty_heap, frontNode = None, backNode = None, qsize = 0, queue_mem = Live\<rparr>"

definition CreateQNode :: "'a QNode heap \<Rightarrow> 'a \<Rightarrow> nat \<times> 'a QNode heap" where
  "CreateQNode h v = h_alloc h \<lparr>next_node = None, data = v\<rparr>"

definition Push :: "'a Queue \<Rightarrow> 'a \<Rightarrow> 'a Queue res" where
  "Push queue value = on_queue queue
     (let (newNode, h) = CreateQNode (nodes queue) value in
      if qsize queue = 0 then
        Inr (queue\<lparr>nodes := h, backNode := Some newNode, frontNode := Some newNode,
                   qsize := qsize queue + 1\<rparr>)
      else
        bindR (h_load h (backNode queue)) (\<lambda>b.
        bindR (h_store h (backNode queue) (b\<lparr>next_node := Some newNode\<rparr>)) (\<lambda>h'.
        Inr (queue\<lparr>nodes := h', backNode := Some newNode, qsize := qsize queue + 1\<rparr>))))"

definition Pop :: "'a Queue \<Rightarrow> ('a \<times> 'a Queue) res" where
  "Pop queue = on_queue queue
     (assertR (qsize queue \<noteq> 0)
     (bindR (h_load (nodes queue) (frontNode queue)) (\<lambda>head.
      let value = data head; front = next_node head;
          back = (if front = None then None else backNode queue) in
      bindR (h_free (nodes queue) (frontNode queue)) (\<lambda>h.
      Inr (value, queue\<lparr>nodes := h, frontNode := front, backNode := back,
                        qsize := qsize queue - 1\<rparr>)))))"

definition GetFront :: "'a Queue \<Rightarrow> 'a res" where
  "GetFront queue = on_queue queue
     (assertR (qsize queue \<noteq> 0)
     (bindR (h_load (nodes queue) (frontNode queue)) (\<lambda>n. Inr (data n))))"

definition GetSize :: "'a Queue \<Rightarrow> nat" where
  "GetSize queue = qsize queue"

definition IsEmpty :: "'a Queue \<Rightarrow> bool" where
  "IsEmpty queue \<longleftrightarrow> frontNode queue = None"

function MakeEmpty_loop :: "'a QNode heap \<Rightarrow> ptr \<Rightarrow> 'a QNode heap res" where
  "MakeEmpty_loop h current =
     (if current = None then Inr h
      else bindR (h_load h current) (\<lambda>n.
           bindR (h_free h current) (\<lambda>h'.
           MakeEmpty_loop h' (next_node n))))"
  by pat_completeness auto
termination
  by (relation "measure (\<lambda>(h, current). length (cells h))") (auto simp: h_free_shrinks)

declare MakeEmpty_loop.simps [simp del]

definition MakeEmpty :: "'a Queue \<Rightarrow> 'a Queue res" where
  "MakeEmpty queue = on_queue queue
     (bindR (MakeEmpty_loop (nodes queue) (frontNode queue)) (\<lambda>h.
     Inr (queue\<lparr>nodes := h, qsize := 0, backNode := None, frontNode := None\<rparr>)))"

text \<open>Destroying a queue returns what is left of it: the heap of its nodes and the freed struct.\<close>

definition DestroyQueue :: "'a Queue \<Rightarrow> 'a Queue res" where
  "DestroyQueue queue =
     assertR (queue_mem queue \<noteq> NullPointer)
     (bindR (MakeEmpty queue) (\<lambda>q.
      bindR (free_block (queue_mem q)) (\<lambda>b. Inr (q\<lparr>queue_mem := b\<rparr>))))"

section \<open>The representation\<close>

fun qpath :: "'a QNode heap \<Rightarrow> ptr \<Rightarrow> nat list \<Rightarrow> 'a list \<Rightarrow> bool" where
  "qpath h p [] [] \<longleftrightarrow> p = None"
| "qpath h p (a # as) (x # xs) \<longleftrightarrow>
     p = Some a \<and> (\<exists>n. lookup h a = Some n \<and> data n = x \<and> qpath h (next_node n) as xs)"
| "qpath h p _ _ \<longleftrightarrow> False"

definition queue_at :: "'a Queue \<Rightarrow> nat list \<Rightarrow> 'a list \<Rightarrow> bool" where
  "queue_at q as xs \<longleftrightarrow> queue_mem q = Live \<and> heap_ok (nodes q) \<and> qpath (nodes q) (frontNode q) as xs \<and> distinct as \<and>
     qsize q = length xs \<and> backNode q = (if as = [] then None else Some (last as)) \<and>
     (\<forall>a. lookup (nodes q) a \<noteq> None \<longrightarrow> a \<in> set as)"

definition queue_rep :: "'a Queue \<Rightarrow> 'a list \<Rightarrow> bool" where
  "queue_rep q xs \<longleftrightarrow> (\<exists>as. queue_at q as xs)"

lemma qpath_length: "qpath h p as xs \<Longrightarrow> length as = length xs"
  by (induction h p as xs rule: qpath.induct) auto

lemma qpath_allocated: "qpath h p as xs \<Longrightarrow> a \<in> set as \<Longrightarrow> lookup h a \<noteq> None"
  by (induction h p as xs rule: qpath.induct) auto

text \<open>A path does not depend on the cells outside it.\<close>

lemma qpath_frame:
  "qpath h p as xs \<Longrightarrow> (\<And>a. a \<in> set as \<Longrightarrow> lookup h' a = lookup h a) \<Longrightarrow> qpath h' p as xs"
  by (induction h p as xs rule: qpath.induct) auto

lemma qpath_append_node:
  assumes "qpath h p as xs" and "as \<noteq> []" and "distinct as" and "lookup h (last as) = Some b"
    and "lookup h' (last as) = Some (b\<lparr>next_node := Some n\<rparr>)"
    and "\<And>a. a \<in> set as \<Longrightarrow> a \<noteq> last as \<Longrightarrow> lookup h' a = lookup h a"
    and "lookup h' n = Some \<lparr>next_node = None, data = v\<rparr>" and "n \<notin> set as"
  shows "qpath h' p (as @ [n]) (xs @ [v])"
  using assms
proof (induction h p as xs rule: qpath.induct)
  case (2 h p a as x xs)
  then obtain m where m: "lookup h a = Some m" "data m = x" "qpath h (next_node m) as xs" by auto
  show ?case
  proof (cases "as = []")
    case True
    with m 2 have "xs = []" by (cases xs) auto
    with True 2 m show ?thesis by auto
  next
    case False
    then have "qpath h' (next_node m) (as @ [n]) (xs @ [v])"
      using 2 m by (intro "2.IH") auto
    moreover have "lookup h' a = Some m"
      using "2.prems"(3) "2.prems"(6) [of a] False m by (metis distinct.simps(2) last.simps last_in_set list.set_intros(1))
    ultimately show ?thesis using "2.prems"(1) m by auto
  qed
qed auto

section \<open>The operations implement a queue\<close>

lemma CreateQueue_rep: "queue_rep CreateQueue []"
  by (auto simp: queue_rep_def queue_at_def CreateQueue_def intro: exI [of _ "[]"])

lemma Push_rep:
  assumes "queue_rep q xs"
  shows "\<exists>q'. Push q v = Inr q' \<and> queue_rep q' (xs @ [v])"
proof -
  obtain as where qa: "queue_at q as xs" using assms by (auto simp: queue_rep_def)
  then have ok: "heap_ok (nodes q)" and path: "qpath (nodes q) (frontNode q) as xs" and dist: "distinct as"
    and sz: "qsize q = length xs" and bk: "backNode q = (if as = [] then None else Some (last as))"
    and own: "\<And>a. lookup (nodes q) a \<noteq> None \<Longrightarrow> a \<in> set as" and live: "queue_mem q = Live"
    by (auto simp: queue_at_def)
  obtain n h where al: "CreateQNode (nodes q) v = (n, h)" by force
  then have h: "lookup (nodes q) n = None" "lookup h = (lookup (nodes q))(n \<mapsto> \<lparr>next_node = None, data = v\<rparr>)" "heap_ok h"
    using h_alloc_ok [OF ok, of _ n h] by (auto simp: CreateQNode_def)
  then have n: "n \<notin> set as" using qpath_allocated [OF path, of n] by auto
  show ?thesis
  proof (cases "xs = []")
    case True
    with qpath_length [OF path] have as: "as = []" by simp
    then have "lookup (nodes q) a = None" for a
      using own [of a] by (cases "lookup (nodes q) a") auto
    with True as have "queue_at (q\<lparr>nodes := h, backNode := Some n, frontNode := Some n, qsize := 1\<rparr>) [n] [v]"
      using h live by (auto simp: queue_at_def)
    with True al sz live show ?thesis by (auto simp: Push_def queue_rep_def)
  next
    case False
    with qpath_length [OF path] have ne: "as \<noteq> []" by auto
    then obtain b where b: "lookup (nodes q) (last as) = Some b"
      using qpath_allocated [OF path, of "last as"] by auto
    have hb: "lookup h (last as) = Some b" using h(2) b n ne by auto
    then obtain h' where h': "h_store h (Some (last as)) (b\<lparr>next_node := Some n\<rparr>) = Inr h'"
        "lookup h' = (lookup h)(last as \<mapsto> b\<lparr>next_node := Some n\<rparr>)" "heap_ok h'"
      using h_store_ok [of h "last as"] h(3) by blast
    have "n \<noteq> last as" using n ne by auto
    then have "qpath h' (frontNode q) (as @ [n]) (xs @ [v])"
      using n by (intro qpath_append_node [OF path ne dist b]) (auto simp: h' h(2))
    moreover have "a \<in> set (as @ [n])" if "lookup h' a \<noteq> None" for a
      using that own [of a] b ne by (auto simp: h' h(2) split: if_splits)
    ultimately have "queue_at (q\<lparr>nodes := h', backNode := Some n, qsize := qsize q + 1\<rparr>) (as @ [n]) (xs @ [v])"
      using h' dist n sz live by (auto simp: queue_at_def)
    moreover have "Push q v = Inr (q\<lparr>nodes := h', backNode := Some n, qsize := qsize q + 1\<rparr>)"
      using False sz bk ne hb h' al live by (simp add: Push_def)
    ultimately show ?thesis unfolding queue_rep_def by blast
  qed
qed

lemma Pop_rep:
  assumes "queue_rep q (x # xs)"
  shows "\<exists>q'. Pop q = Inr (x, q') \<and> queue_rep q' xs"
proof -
  obtain as0 where qa: "queue_at q as0 (x # xs)" using assms by (auto simp: queue_rep_def)
  then obtain a as where as0: "as0 = a # as" by (cases as0) (auto simp: queue_at_def)
  with qa obtain m where m: "frontNode q = Some a" "lookup (nodes q) a = Some m" "data m = x"
      "qpath (nodes q) (next_node m) as xs"
    by (auto simp: queue_at_def)
  obtain h where h: "h_free (nodes q) (Some a) = Inr h" "lookup h = (lookup (nodes q))(a := None)" "heap_ok h"
    using h_free_ok [OF m(2)] qa by (auto simp: queue_at_def)
  let ?q = "q\<lparr>nodes := h, frontNode := next_node m,
      backNode := (if next_node m = None then None else backNode q), qsize := qsize q - 1\<rparr>"
  have "qpath h (next_node m) as xs"
    using qa as0 by (intro qpath_frame [OF m(4)]) (auto simp: h queue_at_def)
  moreover have "next_node m = None \<longleftrightarrow> as = []"
    using m(4) by (cases as; cases xs) auto
  ultimately have "queue_at ?q as xs"
    using qa h as0 by (auto simp: queue_at_def split: if_splits)
  moreover have "Pop q = Inr (x, ?q)"
    using qa m h by (auto simp: Pop_def queue_at_def Let_def)
  ultimately show ?thesis unfolding queue_rep_def by blast
qed

lemma GetFront_rep: "queue_rep q (x # xs) \<Longrightarrow> GetFront q = Inr x"
  unfolding queue_rep_def queue_at_def
  by (elim exE conjE) (rename_tac as, case_tac as, auto simp: GetFront_def)

lemma GetSize_rep: "queue_rep q xs \<Longrightarrow> GetSize q = length xs"
  by (auto simp: queue_rep_def queue_at_def GetSize_def)

lemma IsEmpty_rep: "queue_rep q xs \<Longrightarrow> IsEmpty q \<longleftrightarrow> xs = []"
  unfolding queue_rep_def queue_at_def
  by (elim exE conjE) (rename_tac as, case_tac as; cases xs; auto simp: IsEmpty_def)

text \<open>The contract, and the client's loop that fills a queue.\<close>

locale fifo_queue =
  fixes create :: 'q and push :: "'q \<Rightarrow> 'a \<Rightarrow> 'q res" and pop :: "'q \<Rightarrow> ('a \<times> 'q) res"
    and rep :: "'q \<Rightarrow> 'a list \<Rightarrow> bool"
  assumes create_rep: "rep create []"
    and push_rep: "rep q xs \<Longrightarrow> \<exists>q'. push q v = Inr q' \<and> rep q' (xs @ [v])"
    and pop_rep: "rep q (x # xs) \<Longrightarrow> \<exists>q'. pop q = Inr (x, q') \<and> rep q' xs"
begin

primrec push_all :: "'q \<Rightarrow> 'a list \<Rightarrow> 'q res" where
  "push_all q [] = Inr q"
| "push_all q (v # vs) = bindR (push q v) (\<lambda>q'. push_all q' vs)"

lemma push_all_rep: "rep q xs \<Longrightarrow> \<exists>q'. push_all q vs = Inr q' \<and> rep q' (xs @ vs)"
proof (induction vs arbitrary: q xs)
  case (Cons v vs)
  then obtain q1 where "push q v = Inr q1" "rep q1 (xs @ [v])" using push_rep by blast
  with Cons.IH show ?case by fastforce
qed simp

end

interpretation hq: fifo_queue CreateQueue Push Pop queue_rep
  by unfold_locales (rule CreateQueue_rep, erule Push_rep, erule Pop_rep)

section \<open>Freeing\<close>

lemma MakeEmpty_loop_frees:
  assumes "qpath h p as xs" and "distinct as" and "\<forall>a. lookup h a \<noteq> None \<longrightarrow> a \<in> set as"
  shows "\<exists>h'. MakeEmpty_loop h p = Inr h' \<and> (\<forall>a. lookup h' a = None)"
  using assms
proof (induction as arbitrary: h p xs)
  case Nil
  then show ?case by (cases xs) (auto simp: MakeEmpty_loop.simps)
next
  case (Cons a as)
  then obtain x ys where xs: "xs = x # ys" by (cases xs) auto
  with Cons.prems obtain m where m: "p = Some a" "lookup h a = Some m" "qpath h (next_node m) as ys" by auto
  obtain h1 where h1: "h_free h (Some a) = Inr h1" "lookup h1 = (lookup h)(a := None)"
    using h_free_ok [OF m(2)] by blast
  have "qpath h1 (next_node m) as ys"
    using Cons.prems by (intro qpath_frame [OF m(3)]) (auto simp: h1)
  then obtain h' where "MakeEmpty_loop h1 (next_node m) = Inr h'" "\<forall>a. lookup h' a = None"
  proof -
    have "\<forall>b. lookup h1 b \<noteq> None \<longrightarrow> b \<in> set as"
      using Cons.prems(3) by (auto simp: h1(2))
    with \<open>qpath h1 (next_node m) as ys\<close> show ?thesis
      using that Cons.IH [of h1 "next_node m" ys] Cons.prems(2) by auto
  qed
  with m h1 show ?case by (subst MakeEmpty_loop.simps) auto
qed

lemma destroy_at:
  "queue_at q as xs \<Longrightarrow> \<exists>q'. DestroyQueue q = Inr q' \<and> (\<forall>a. lookup (nodes q') a = None) \<and> queue_mem q' = Freed"
  using MakeEmpty_loop_frees [of "nodes q" "frontNode q" as xs]
  by (auto simp: queue_at_def DestroyQueue_def MakeEmpty_def)

text \<open>A destroyed queue can neither be used nor be destroyed again.\<close>

lemma freed_queue_unusable:
  assumes "queue_mem q = Freed"
  shows "Push q v = Inl Undefined" and "Pop q = Inl Undefined" and "DestroyQueue q = Inl Undefined"
  using assms by (simp_all add: Push_def Pop_def DestroyQueue_def MakeEmpty_def on_queue_def deref_def)

text \<open>C6: destroying a queue ends without a fault, frees each of its nodes and the queue itself exactly once, and leaves
  none of them allocated; a second call would be undefined.\<close>

theorem DestroyQueue_frees_all:
  assumes "queue_rep q xs"
  shows "\<exists>q'. DestroyQueue q = Inr q' \<and> (\<forall>a. lookup (nodes q') a = None) \<and> queue_mem q' = Freed \<and>
    DestroyQueue q' = Inl Undefined"
  using assms destroy_at freed_queue_unusable(3) unfolding queue_rep_def by metis

theorem DestroyQueue_frees_all_witness:
  "\<exists>q q'. queue_rep q [1, 2 :: nat] \<and> DestroyQueue q = Inr q' \<and> (\<forall>a. lookup (nodes q') a = None) \<and> queue_mem q' = Freed"
proof -
  obtain q where "queue_rep q [1, 2 :: nat]"
    using hq.push_all_rep [OF hq.create_rep, of "[1, 2 :: nat]"] by (metis append_Nil)
  with DestroyQueue_frees_all [OF this] show ?thesis by blast
qed

end
