(* ===== verification/Bit_Stream.thy ===== *)
theory Bit_Stream
  imports C_Prelude "HOL-Library.Word"
begin

text \<open>
  \<open>C-Labs/Huffman_archiver/src/BitStream.c\<close>: bits written to and read from a byte file through a
  one-byte buffer.  For a stream that is written, \<open>bs_file\<close> is the bytes written so far; for one that
  is read, the bytes still to be read.  \<open>out_bits\<close> and \<open>in_bits\<close> are the bit sequences a stream
  stands for, and the lemmas say that the operations append to the one and consume the other.
\<close>

unbundle bit_operations_syntax

type_synonym byte = "8 word"

section \<open>Definitions\<close>

record BitStream =
  bs_file :: "byte list"
  buffer :: byte
  bufferedBitsCount :: nat

definition OpenBitStream :: "byte list \<Rightarrow> BitStream" where
  "OpenBitStream f = \<lparr>bs_file = f, buffer = 0, bufferedBitsCount = 0\<rparr>"

definition Flush :: "BitStream \<Rightarrow> BitStream" where
  "Flush s =
     (if bufferedBitsCount s \<noteq> 0
      then s\<lparr>bs_file := bs_file s @ [buffer s], buffer := 0, bufferedBitsCount := 0\<rparr>
      else s)"

text \<open>The file a closed stream leaves.\<close>

definition CloseBitStream :: "BitStream \<Rightarrow> byte list" where
  "CloseBitStream s = bs_file (Flush s)"

definition WriteBit :: "BitStream \<Rightarrow> bool \<Rightarrow> BitStream" where
  "WriteBit s b =
     (let s1 = s\<lparr>buffer := buffer s OR push_bit (8 - bufferedBitsCount s - 1) (if b then 1 else 0),
                 bufferedBitsCount := bufferedBitsCount s + 1\<rparr>
      in if bufferedBitsCount s1 = 8 then Flush s1 else s1)"

function WriteByte_loop :: "nat \<Rightarrow> BitStream \<Rightarrow> byte \<Rightarrow> BitStream" where
  "WriteByte_loop i s b =
     (if i < 8 then WriteByte_loop (i + 1) (WriteBit s (b AND push_bit i 1 \<noteq> 0)) b else s)"
  by pat_completeness auto
termination
  by (relation "measure (\<lambda>(i, s, b). 8 - i)") auto

declare WriteByte_loop.simps [simp del]

definition WriteByte :: "BitStream \<Rightarrow> byte \<Rightarrow> BitStream" where
  "WriteByte s b = WriteByte_loop 0 s b"

fun WriteByteArray :: "BitStream \<Rightarrow> byte list \<Rightarrow> BitStream" where
  "WriteByteArray s [] = s"
| "WriteByteArray s (b # bs) = WriteByteArray (WriteByte s b) bs"

text \<open>\<open>EOF\<close> is -1, as in the \<open>int16_t\<close> results of the source.\<close>

definition EOF :: int where
  "EOF = -1"

definition ReadBit :: "BitStream \<Rightarrow> int \<times> BitStream" where
  "ReadBit s =
     (if bufferedBitsCount s = 0 then
        (case bs_file s of
           [] \<Rightarrow> (EOF, s)
         | b # f \<Rightarrow> (if b AND push_bit 7 1 \<noteq> 0 then 1 else 0, s\<lparr>bs_file := f, buffer := b, bufferedBitsCount := 7\<rparr>))
      else (if buffer s AND push_bit (bufferedBitsCount s - 1) 1 \<noteq> 0 then 1 else 0,
            s\<lparr>bufferedBitsCount := bufferedBitsCount s - 1\<rparr>))"

text \<open>\<open>Inl\<close> would be a fault; \<open>None\<close> is the \<open>EOF\<close> return, which leaves the stream where it is.\<close>

function ReadByte_loop :: "nat \<Rightarrow> BitStream \<Rightarrow> byte \<Rightarrow> byte option \<times> BitStream" where
  "ReadByte_loop i s b =
     (if i < 8 then
        (let (bitv, s') = ReadBit s in
         if bitv = EOF then (None, s')
         else ReadByte_loop (i + 1) s' (b OR push_bit i (word_of_int bitv)))
      else (Some b, s))"
  by pat_completeness auto
termination
  by (relation "measure (\<lambda>(i, s, b). 8 - i)") auto

declare ReadByte_loop.simps [simp del]

definition ReadByte :: "BitStream \<Rightarrow> byte option \<times> BitStream" where
  "ReadByte s = ReadByte_loop 0 s 0"

text \<open>Storing the \<open>EOF\<close> of \<open>ReadByte\<close> in a \<open>uint8_t\<close> gives 255.\<close>

definition byte_of_int16 :: "byte option \<Rightarrow> byte" where
  "byte_of_int16 r = (case r of Some b \<Rightarrow> b | None \<Rightarrow> 255)"

fun ReadByteArray :: "BitStream \<Rightarrow> nat \<Rightarrow> byte list \<times> BitStream" where
  "ReadByteArray s 0 = ([], s)"
| "ReadByteArray s (Suc n) =
     (let (r, s1) = ReadByte s; (bs, s2) = ReadByteArray s1 n in (byte_of_int16 r # bs, s2))"

section \<open>Bit sequences\<close>

definition msb_bits :: "byte \<Rightarrow> bool list" where
  "msb_bits b = map (\<lambda>k. bit b (7 - k)) [0..<8]"

definition lsb_bits :: "byte \<Rightarrow> bool list" where
  "lsb_bits b = map (bit b) [0..<8]"

definition out_bits :: "BitStream \<Rightarrow> bool list" where
  "out_bits s = concat (map msb_bits (bs_file s)) @ take (bufferedBitsCount s) (msb_bits (buffer s))"

definition in_bits :: "BitStream \<Rightarrow> bool list" where
  "in_bits s = drop (8 - bufferedBitsCount s) (msb_bits (buffer s)) @ concat (map msb_bits (bs_file s))"

text \<open>A stream being written: fewer than eight bits wait in the buffer, the rest of it is zero.\<close>

definition out_ok :: "BitStream \<Rightarrow> bool" where
  "out_ok s \<longleftrightarrow> bufferedBitsCount s < 8 \<and> (\<forall>j < 8 - bufferedBitsCount s. \<not> bit (buffer s) j)"

definition in_ok :: "BitStream \<Rightarrow> bool" where
  "in_ok s \<longleftrightarrow> bufferedBitsCount s < 8"

lemma unat_byte_less [simp]: "unat (b :: byte) < 256"
  using unsigned_less [of b, where ?'a = nat] by simp

lemma unat_byte_eq_iff: "unat (a :: byte) = unat b \<longleftrightarrow> a = b"
  by (rule word_unat_eq_iff [symmetric])

lemma length_msb_bits [simp]: "length (msb_bits b) = 8"
  by (simp add: msb_bits_def)

lemma nth_msb_bits [simp]: "k < 8 \<Longrightarrow> msb_bits b ! k = bit b (7 - k)"
  by (simp add: msb_bits_def)

lemma test_bit_and: "(b :: byte) AND push_bit i 1 \<noteq> 0 \<longleftrightarrow> bit b i"
  by (metis and_exp_eq_0_iff_not_bit push_bit_of_1)

lemma test_bit_exp [simp]: "(b :: byte) AND 2 ^ i = 0 \<longleftrightarrow> \<not> bit b i"
  by (rule and_exp_eq_0_iff_not_bit)

lemma bit_or_at:
  "i < 8 \<Longrightarrow> bit (b OR push_bit i (if v then 1 else 0) :: byte) j \<longleftrightarrow> bit b j \<or> v \<and> j = i"
  by (auto simp: bit_or_iff bit_push_bit_iff bit_1_iff)

section \<open>Writing\<close>

lemma out_ok_Open [simp]: "out_ok (OpenBitStream f)" "out_bits (OpenBitStream []) = []"
  by (simp_all add: out_ok_def out_bits_def OpenBitStream_def)

lemma WriteBit_ok:
  assumes "out_ok s"
  shows "out_ok (WriteBit s b)" and "out_bits (WriteBit s b) = out_bits s @ [b]"
proof -
  let ?n = "bufferedBitsCount s"
  let ?i = "8 - ?n - 1"
  define nb where "nb = buffer s OR push_bit ?i (if b then 1 else 0)"
  have n: "?n < 8" and z: "\<And>j. j < 8 - ?n \<Longrightarrow> \<not> bit (buffer s) j"
    using assms by (auto simp: out_ok_def)
  have bits: "bit nb j \<longleftrightarrow> bit (buffer s) j \<or> b \<and> j = ?i" for j
    using n unfolding nb_def by (intro bit_or_at) simp
  have W: "WriteBit s b =
      (let s1 = s\<lparr>buffer := nb, bufferedBitsCount := ?n + 1\<rparr> in if ?n + 1 = 8 then Flush s1 else s1)"
    by (simp add: WriteBit_def nb_def Let_def)
  have t: "take (?n + 1) (msb_bits nb) = take ?n (msb_bits (buffer s)) @ [b]"
  proof (rule nth_equalityI)
    fix k assume "k < length (take (?n + 1) (msb_bits nb))"
    then have k: "k \<le> ?n" using n by simp
    show "take (?n + 1) (msb_bits nb) ! k = (take ?n (msb_bits (buffer s)) @ [b]) ! k"
    proof (cases "k = ?n")
      case True
      then show ?thesis using n z [of "7 - ?n"] by (simp add: bits nth_append)
    next
      case False
      then show ?thesis using k n by (auto simp: bits nth_append)
    qed
  qed (use n in simp)
  show "out_ok (WriteBit s b)"
    using n z by (auto simp: W Flush_def out_ok_def Let_def bits)
  show "out_bits (WriteBit s b) = out_bits s @ [b]"
  proof (cases "?n + 1 = 8")
    case True
    then have "msb_bits nb = take ?n (msb_bits (buffer s)) @ [b]"
      using t by simp
    with True show ?thesis
      by (simp add: W Flush_def out_bits_def Let_def)
  next
    case False
    with t show ?thesis by (simp add: W out_bits_def Let_def)
  qed
qed

text \<open>The contract of a bit sink, and what a client of one needs: writing a list of bits.\<close>

locale bit_sink =
  fixes put :: "'s \<Rightarrow> bool \<Rightarrow> 's" and written :: "'s \<Rightarrow> bool list" and ok :: "'s \<Rightarrow> bool"
  assumes put_ok: "ok s \<Longrightarrow> ok (put s b)"
    and put_written: "ok s \<Longrightarrow> written (put s b) = written s @ [b]"
begin

lemma put_all: "ok s \<Longrightarrow> ok (foldl put s bs) \<and> written (foldl put s bs) = written s @ bs"
  by (induction bs arbitrary: s) (auto simp: put_ok put_written)

end

interpretation stream_sink: bit_sink WriteBit out_bits out_ok
  by unfold_locales (simp_all add: WriteBit_ok)

lemma WriteByte_loop_eq:
  "i \<le> 8 \<Longrightarrow> WriteByte_loop i s b = foldl WriteBit s (map (bit b) [i..<8])"
proof (induction i s b rule: WriteByte_loop.induct)
  case (1 i s b)
  show ?case
  proof (cases "i < 8")
    case True
    then have "[i..<8] = i # [i + 1..<8]" by (simp add: upt_rec)
    with 1 True show ?thesis
      by (subst WriteByte_loop.simps) (simp add: test_bit_and)
  next
    case False
    with 1 show ?thesis by (subst WriteByte_loop.simps) simp
  qed
qed

lemma WriteByte_eq: "WriteByte s b = foldl WriteBit s (lsb_bits b)"
  by (simp add: WriteByte_def WriteByte_loop_eq lsb_bits_def)

lemma WriteByte_ok:
  "out_ok s \<Longrightarrow> out_ok (WriteByte s b) \<and> out_bits (WriteByte s b) = out_bits s @ lsb_bits b"
  by (simp add: WriteByte_eq stream_sink.put_all)

lemma WriteByteArray_ok:
  "out_ok s \<Longrightarrow> out_ok (WriteByteArray s bs) \<and>
     out_bits (WriteByteArray s bs) = out_bits s @ concat (map lsb_bits bs)"
  by (induction bs arbitrary: s) (auto simp: WriteByte_ok)

text \<open>Closing pads with zeros, so reading the file gives the written bits and padding.\<close>

lemma CloseBitStream_bits:
  assumes "out_ok s"
  shows "\<exists>k. in_bits (OpenBitStream (CloseBitStream s)) = out_bits s @ replicate k False"
proof -
  let ?n = "bufferedBitsCount s"
  have n: "?n < 8" and z: "\<And>j. j < 8 - ?n \<Longrightarrow> \<not> bit (buffer s) j"
    using assms by (auto simp: out_ok_def)
  have "msb_bits (buffer s) = take ?n (msb_bits (buffer s)) @ replicate (8 - ?n) False"
  proof (rule nth_equalityI)
    fix k assume "k < length (msb_bits (buffer s))"
    then show "msb_bits (buffer s) ! k = (take ?n (msb_bits (buffer s)) @ replicate (8 - ?n) False) ! k"
      using n z [of "7 - k"] by (auto simp: nth_append)
  qed (use n in simp)
  then show ?thesis
    by (cases "?n = 0")
       (auto simp: CloseBitStream_def Flush_def OpenBitStream_def in_bits_def out_bits_def
             intro: exI [of _ 0] exI [of _ "8 - ?n"])
qed

section \<open>Reading\<close>

lemma in_ok_Open [simp]: "in_ok (OpenBitStream f)"
  by (simp add: in_ok_def OpenBitStream_def)

lemma ReadBit_Nil:
  assumes "in_ok s" and "in_bits s = []"
  shows "ReadBit s = (EOF, s)"
proof -
  have "bufferedBitsCount s = 0"
    using assms by (auto simp: in_ok_def in_bits_def)
  with assms show ?thesis
    by (cases "bs_file s") (auto simp: ReadBit_def in_bits_def dest: arg_cong [of _ _ length])
qed

lemma drop_msb_Cons: "n < 8 \<Longrightarrow> drop n (msb_bits b) = bit b (7 - n) # drop (Suc n) (msb_bits b)"
  by (subst Cons_nth_drop_Suc [symmetric]) simp_all

lemma ReadBit_Cons:
  assumes "in_ok s" and "in_bits s = b # bs"
  shows "\<exists>s'. ReadBit s = (if b then 1 else 0, s') \<and> in_ok s' \<and> in_bits s' = bs"
proof (cases "bufferedBitsCount s = 0")
  case True
  with assms obtain y f where f: "bs_file s = y # f"
    by (cases "bs_file s") (auto simp: in_bits_def)
  have "in_bits s = bit y 7 # drop 1 (msb_bits y) @ concat (map msb_bits f)"
    using True f drop_msb_Cons [of 0 y] by (simp add: in_bits_def)
  then have "b = bit y 7" "bs = drop 1 (msb_bits y) @ concat (map msb_bits f)"
    using assms(2) by auto
  with True f show ?thesis
    using test_bit_exp [of y 7] by (auto simp: ReadBit_def in_ok_def in_bits_def)
next
  case False
  let ?n = "bufferedBitsCount s"
  have n: "0 < ?n" "?n < 8" using False assms by (auto simp: in_ok_def)
  then have "drop (8 - ?n) (msb_bits (buffer s)) = bit (buffer s) (?n - 1) # drop (8 - (?n - 1)) (msb_bits (buffer s))"
    using drop_msb_Cons [of "8 - ?n" "buffer s"] Suc_diff_le [of ?n 8] by simp
  with assms(2) n False show ?thesis
    by (auto simp: ReadBit_def in_ok_def in_bits_def test_bit_and)
qed

text \<open>The contract of a bit source: it gives the next bit of the sequence, or \<open>EOF\<close> at its end.\<close>

locale bit_source =
  fixes get :: "'s \<Rightarrow> int \<times> 's" and remaining :: "'s \<Rightarrow> bool list" and ok :: "'s \<Rightarrow> bool"
  assumes get_Cons: "ok s \<Longrightarrow> remaining s = b # bs \<Longrightarrow>
      \<exists>s'. get s = (if b then 1 else 0, s') \<and> ok s' \<and> remaining s' = bs"
    and get_Nil: "ok s \<Longrightarrow> remaining s = [] \<Longrightarrow> get s = (EOF, s)"
begin

lemma get_shrinks:
  assumes "ok s" and "remaining s \<noteq> []"
  shows "fst (get s) \<noteq> EOF \<and> ok (snd (get s)) \<and>
    length (remaining s) = Suc (length (remaining (snd (get s))))"
proof -
  from assms(2) obtain b bs where "remaining s = b # bs" by (cases "remaining s") auto
  with get_Cons [OF assms(1) this] show ?thesis by (auto simp: EOF_def split: if_splits)
qed

lemma get_EOF_iff: "ok s \<Longrightarrow> fst (get s) = EOF \<longleftrightarrow> remaining s = []"
  using get_shrinks get_Nil by fastforce

end

interpretation stream_source: bit_source ReadBit in_bits in_ok
  by unfold_locales (rule ReadBit_Cons, auto simp: ReadBit_Nil)

lemma ReadByte_loop_ok:
  assumes "in_ok s" and "in_bits s = map (bit b) [i..<8] @ bs" and "i \<le> 8"
    and "\<And>j. bit acc j \<longleftrightarrow> j < i \<and> bit b j"
  shows "\<exists>s'. ReadByte_loop i s acc = (Some b, s') \<and> in_ok s' \<and> in_bits s' = bs"
  using assms
proof (induction i s acc rule: ReadByte_loop.induct)
  case (1 i s acc)
  show ?case
  proof (cases "i < 8")
    case True
    then have "in_bits s = bit b i # map (bit b) [i + 1..<8] @ bs"
      using "1.prems"(2) by (simp add: upt_rec)
    then obtain s' where s': "ReadBit s = (if bit b i then 1 else 0, s')" "in_ok s'"
        "in_bits s' = map (bit b) [i + 1..<8] @ bs"
      using stream_source.get_Cons [OF "1.prems"(1)] by blast
    let ?v = "if bit b i then 1 else 0 :: int"
    have acc: "bit (acc OR push_bit i (word_of_int ?v)) j \<longleftrightarrow> j < i + 1 \<and> bit b j" for j
      using bit_or_at [OF True, of acc "bit b i" j] "1.prems"(4) [of j]
      by (auto simp: less_Suc_eq split: if_splits)
    have "\<exists>s''. ReadByte_loop (i + 1) s' (acc OR push_bit i (word_of_int ?v)) = (Some b, s'') \<and>
        in_ok s'' \<and> in_bits s'' = bs"
      using "1.IH" [OF True s'(1) [symmetric] refl] s' True acc by (auto simp: EOF_def)
    with s' True show ?thesis
      by (subst ReadByte_loop.simps) (auto simp: EOF_def)
  next
    case False
    then have "acc = b" using "1.prems"(3,4) by (intro bit_eqI) (auto dest: bit_imp_possible_bit)
    with False "1.prems" show ?thesis by (subst ReadByte_loop.simps) auto
  qed
qed

lemma ReadByte_ok:
  assumes "in_ok s" and "in_bits s = lsb_bits b @ bs"
  shows "\<exists>s'. ReadByte s = (Some b, s') \<and> in_ok s' \<and> in_bits s' = bs"
  unfolding ReadByte_def using assms by (intro ReadByte_loop_ok) (auto simp: lsb_bits_def)

lemma ReadByteArray_ok:
  assumes "in_ok s" and "in_bits s = concat (map lsb_bits xs) @ bs"
  shows "\<exists>s'. ReadByteArray s (length xs) = (xs, s') \<and> in_ok s' \<and> in_bits s' = bs"
  using assms
proof (induction xs arbitrary: s)
  case (Cons x xs)
  then obtain s1 where s1: "ReadByte s = (Some x, s1)" "in_ok s1" "in_bits s1 = concat (map lsb_bits xs) @ bs"
    using ReadByte_ok [of s x] by auto
  with Cons.IH [OF s1(2,3)] show ?case by (auto simp: byte_of_int16_def)
qed auto

text \<open>C5: bytes written through a bit stream, whose file is then closed and opened for reading, are
  read back as they were written.\<close>

theorem byte_array_roundtrip:
  "fst (ReadByteArray (OpenBitStream (CloseBitStream (WriteByteArray (OpenBitStream []) xs))) (length xs)) = xs"
proof -
  let ?s = "WriteByteArray (OpenBitStream []) xs"
  have w: "out_ok ?s" "out_bits ?s = concat (map lsb_bits xs)"
    using WriteByteArray_ok [of "OpenBitStream []" xs] by simp_all
  then obtain k where "in_bits (OpenBitStream (CloseBitStream ?s)) = concat (map lsb_bits xs) @ replicate k False"
    using CloseBitStream_bits by metis
  then show ?thesis using ReadByteArray_ok [OF in_ok_Open] by fastforce
qed

end
