(* ===== verification/C_Qsort.thy ===== *)
theory C_Qsort
  imports C_Prelude
begin

text \<open>
  \<open>qsort\<close> of glibc, which is a merge sort: it halves the array, sorts the halves and merges them,
  taking from the left half when the comparison is at most 0.  The comparison functions of the
  programs return 1 for "greater" and 0 otherwise, which this sort accepts.
\<close>

fun qmerge :: "('a \<Rightarrow> 'a \<Rightarrow> int) \<Rightarrow> 'a list \<Rightarrow> 'a list \<Rightarrow> 'a list" where
  "qmerge cmp [] ys = ys"
| "qmerge cmp (x # xs) [] = x # xs"
| "qmerge cmp (x # xs) (y # ys) =
     (if cmp x y \<le> 0 then x # qmerge cmp xs (y # ys) else y # qmerge cmp (x # xs) ys)"

fun qsort :: "('a \<Rightarrow> 'a \<Rightarrow> int) \<Rightarrow> 'a list \<Rightarrow> 'a list" where
  "qsort cmp xs =
     (if length xs \<le> 1 then xs
      else qmerge cmp (qsort cmp (take (length xs div 2) xs)) (qsort cmp (drop (length xs div 2) xs)))"

declare qsort.simps [simp del]

lemma mset_qmerge [simp]: "mset (qmerge cmp xs ys) = mset xs + mset ys"
  by (induction cmp xs ys rule: qmerge.induct) auto

lemma mset_qsort [simp]: "mset (qsort cmp xs) = mset xs"
proof (induction cmp xs rule: qsort.induct)
  case (1 cmp xs)
  show ?case
  proof (cases "length xs \<le> 1")
    case True
    then show ?thesis by (simp add: qsort.simps [of cmp xs])
  next
    case False
    have "mset (qsort cmp xs) = mset (take (length xs div 2) xs) + mset (drop (length xs div 2) xs)"
      using False "1.IH" by (simp add: qsort.simps [of cmp xs])
    then show ?thesis by (simp flip: mset_append)
  qed
qed

lemma set_qsort [simp]: "set (qsort cmp xs) = set xs"
  by (metis mset_qsort set_mset_mset)

lemma length_qsort [simp]: "length (qsort cmp xs) = length xs"
  by (metis mset_qsort size_mset)

lemma set_qmerge [simp]: "set (qmerge cmp xs ys) = set xs \<union> set ys"
  by (metis mset_qmerge set_mset_mset set_mset_union)

text \<open>A comparison that is positive exactly where a key is greater.\<close>

definition key_cmp :: "('a \<Rightarrow> 'a \<Rightarrow> int) \<Rightarrow> ('a \<Rightarrow> 'k :: linorder) \<Rightarrow> bool" where
  "key_cmp cmp key \<longleftrightarrow> (\<forall>x y. cmp x y > 0 \<longleftrightarrow> key x > key y)"

lemma sorted_qmerge:
  "key_cmp cmp key \<Longrightarrow> sorted (map key xs) \<Longrightarrow> sorted (map key ys) \<Longrightarrow>
   sorted (map key (qmerge cmp xs ys))"
proof (induction cmp xs ys rule: qmerge.induct)
  case (3 cmp x xs y ys)
  then have "cmp x y \<le> 0 \<longleftrightarrow> key x \<le> key y" by (metis key_cmp_def linorder_not_less)
  with 3 show ?case by (auto intro: order_trans less_imp_le)
qed auto

lemma sorted_qsort: "key_cmp cmp key \<Longrightarrow> sorted (map key (qsort cmp xs))"
proof (induction cmp xs rule: qsort.induct)
  case (1 cmp xs)
  show ?case
  proof (cases "length xs \<le> 1")
    case True
    then have "qsort cmp xs = xs" by (subst qsort.simps) simp
    with True show ?thesis by (cases xs) auto
  next
    case False
    with 1 show ?thesis by (simp add: qsort.simps [of cmp xs] sorted_qmerge)
  qed
qed

end
