(* ===== verification/Huffman_Tree.thy ===== *)
theory Huffman_Tree
  imports Huffman_Queue Bit_Stream C_Qsort
begin

text \<open>
  \<open>C-Labs/Huffman_archiver/src/HuffmanTree.c\<close>: building the code tree from byte frequencies with two
  queues, writing it to a bit stream and reading it back, the table of code words, and emitting
  and decoding one byte.  A tree is a value, \<open>NullTree\<close> the NULL pointer: a node is linked into its
  parent once and never changed afterwards.
\<close>

unbundle bit_operations_syntax

section \<open>Definitions\<close>

datatype HTree = NullTree | HTreeNode (left: HTree) (right: HTree) (hvalue: byte)

record HSortNode =
  treeNode :: HTree
  frequency :: nat

definition CreateTreeNode :: "byte \<Rightarrow> HTree" where
  "CreateTreeNode v = HTreeNode NullTree NullTree v"

fun IsLeafNode :: "HTree \<Rightarrow> bool res" where
  "IsLeafNode NullTree = Inl Undefined"
| "IsLeafNode (HTreeNode l r v) = Inr (l = NullTree \<and> r = NullTree)"

definition HSortNodeCompare :: "HSortNode \<Rightarrow> HSortNode \<Rightarrow> int" where
  "HSortNodeCompare nodeA nodeB = (if frequency nodeA > frequency nodeB then 1 else 0)"

text \<open>The first loop of \<open>PrepareLeafNodesQueue\<close> fills an array of \<open>uniqueBytesCount\<close> nodes, \<open>leaves\<close> being the
  part filled so far.\<close>

function leaves_loop :: "nat list \<Rightarrow> nat \<Rightarrow> nat \<Rightarrow> HSortNode list \<Rightarrow> HSortNode list res" where
  "leaves_loop freqTable uniqueBytesCount i leaves =
     (if i < 256 then
        bindR (arr_get freqTable i) (\<lambda>f.
        if f = 0 then leaves_loop freqTable uniqueBytesCount (i + 1) leaves
        else if length leaves < uniqueBytesCount then
          leaves_loop freqTable uniqueBytesCount (i + 1)
            (leaves @ [\<lparr>treeNode = CreateTreeNode (word_of_nat i), frequency = f\<rparr>])
        else Inl Undefined)
      else Inr leaves)"
  by pat_completeness auto
termination
  by (relation "measure (\<lambda>(freqTable, n, i, leaves). 256 - i)") auto

declare leaves_loop.simps [simp del]

fun push_leaves :: "HSortNode Queue \<Rightarrow> HSortNode list \<Rightarrow> HSortNode Queue res" where
  "push_leaves q [] = Inr q"
| "push_leaves q (x # xs) = bindR (Push q x) (\<lambda>q'. push_leaves q' xs)"

text \<open>Sorting the array reads all of its \<open>uniqueBytesCount\<close> nodes, so all of them have to be filled.\<close>

definition PrepareLeafNodesQueue :: "nat list \<Rightarrow> nat \<Rightarrow> HSortNode Queue res" where
  "PrepareLeafNodesQueue freqTable uniqueBytesCount =
     bindR (leaves_loop freqTable uniqueBytesCount 0 []) (\<lambda>leaves.
     if length leaves \<noteq> uniqueBytesCount then Inl Undefined
     else push_leaves CreateQueue (qsort HSortNodeCompare leaves))"

type_synonym queues = "HSortNode Queue \<times> HSortNode Queue"

definition PopMinimum :: "HSortNode Queue \<Rightarrow> HSortNode Queue \<Rightarrow> (HSortNode \<times> queues) res" where
  "PopMinimum leafNodes compositeNodes =
     assertR (\<not> IsEmpty leafNodes \<or> \<not> IsEmpty compositeNodes)
     (if IsEmpty leafNodes then
        bindR (Pop compositeNodes) (\<lambda>(x, c). Inr (x, leafNodes, c))
      else if IsEmpty compositeNodes then
        bindR (Pop leafNodes) (\<lambda>(x, l). Inr (x, l, compositeNodes))
      else
        bindR (GetFront leafNodes) (\<lambda>leaf.
        bindR (GetFront compositeNodes) (\<lambda>composite.
        if frequency leaf < frequency composite then
          bindR (Pop leafNodes) (\<lambda>(x, l). Inr (x, l, compositeNodes))
        else
          bindR (Pop compositeNodes) (\<lambda>(x, c). Inr (x, leafNodes, c)))))"

definition join_nodes :: "HSortNode \<Rightarrow> HSortNode \<Rightarrow> HSortNode" where
  "join_nodes m1 m2 =
     \<lparr>treeNode = HTreeNode (treeNode m2) (treeNode m1) 0, frequency = frequency m1 + frequency m2\<rparr>"

lemma Pop_size: "Pop q = Inr (x, q') \<Longrightarrow> GetSize q = Suc (GetSize q')"
  by (auto simp: Pop_def GetSize_def Let_def)

lemma Push_size: "Push q x = Inr q' \<Longrightarrow> GetSize q' = Suc (GetSize q)"
  by (auto simp: Push_def GetSize_def Let_def split: prod.splits if_splits)

lemma PopMinimum_size:
  "PopMinimum l c = Inr (x, l', c') \<Longrightarrow> GetSize l + GetSize c = Suc (GetSize l' + GetSize c')"
  by (auto simp: PopMinimum_def dest!: Pop_size split: if_splits)

function build_loop :: "HSortNode Queue \<Rightarrow> HSortNode Queue \<Rightarrow> queues res" where
  "build_loop leafNodes compositeNodes =
     (if GetSize leafNodes + GetSize compositeNodes > 1 then
        bindR (PopMinimum leafNodes compositeNodes) (\<lambda>(m1, l1, c1).
        bindR (PopMinimum l1 c1) (\<lambda>(m2, l2, c2).
        bindR (Push c2 (join_nodes m1 m2)) (\<lambda>c3.
        build_loop l2 c3)))
      else Inr (leafNodes, compositeNodes))"
  by pat_completeness auto
termination
  by (relation "measure (\<lambda>(l, c). GetSize l + GetSize c)") (auto dest!: PopMinimum_size Push_size)

declare build_loop.simps [simp del]

definition BuildHuffmanTree :: "nat list \<Rightarrow> nat \<Rightarrow> HTree res" where
  "BuildHuffmanTree freqTable uniqueBytesCount =
     assertR (uniqueBytesCount \<noteq> 0)
     (bindR (PrepareLeafNodesQueue freqTable uniqueBytesCount) (\<lambda>leafNodes.
      if GetSize leafNodes = 1 then
        bindR (Pop leafNodes) (\<lambda>(n, l).
        bindR (DestroyQueue l) (\<lambda>_.
        Inr (treeNode n)))
      else
        bindR (build_loop leafNodes CreateQueue) (\<lambda>(l, c).
        bindR (GetFront c) (\<lambda>n.
        bindR (DestroyQueue l) (\<lambda>_.
        bindR (DestroyQueue c) (\<lambda>_.
        Inr (treeNode n)))))))"

fun SerializeHuffmanTree :: "BitStream \<Rightarrow> HTree \<Rightarrow> BitStream res" where
  "SerializeHuffmanTree bitOut NullTree = Inl AssertFail"
| "SerializeHuffmanTree bitOut (HTreeNode l r v) =
     bindR (IsLeafNode (HTreeNode l r v)) (\<lambda>leaf.
     if leaf then Inr (WriteByte (WriteBit bitOut True) v)
     else bindR (SerializeHuffmanTree (WriteBit bitOut False) l) (\<lambda>s.
          SerializeHuffmanTree s r))"

text \<open>The result of \<open>ReadBit\<close> converted to \<open>bool\<close>: \<open>EOF\<close> counts as a leaf.\<close>

definition bits_left :: "BitStream \<Rightarrow> nat" where
  "bits_left s = bufferedBitsCount s + 8 * length (bs_file s)"

lemma ReadBit_bits_left:
  "ReadBit s = (v, s') \<Longrightarrow> bits_left s' \<le> bits_left s \<and> (v \<noteq> EOF \<longrightarrow> bits_left s' < bits_left s)"
  by (auto simp: ReadBit_def bits_left_def split: if_splits list.splits)

lemma ReadByte_loop_bits_left: "ReadByte_loop i s b = (r, s') \<Longrightarrow> bits_left s' \<le> bits_left s"
proof (induction i s b arbitrary: r s' rule: ReadByte_loop.induct)
  case (1 i s b)
  obtain v s1 where r: "ReadBit s = (v, s1)" by force
  show ?case
  proof (cases "i < 8 \<and> v \<noteq> EOF")
    case True
    then have "bits_left s' \<le> bits_left s1"
      using "1.IH" [OF _ r [symmetric] refl] "1.prems" r
      by (subst (asm) (2) ReadByte_loop.simps) auto
    with ReadBit_bits_left [OF r] show ?thesis by simp
  next
    case False
    with "1.prems" r ReadBit_bits_left [OF r] show ?thesis
      by (subst (asm) ReadByte_loop.simps) (auto split: if_splits)
  qed
qed

lemma ReadByte_bits_left: "ReadByte s = (r, s') \<Longrightarrow> bits_left s' \<le> bits_left s"
  unfolding ReadByte_def by (rule ReadByte_loop_bits_left)

function DeserializeHuffmanTree :: "BitStream \<Rightarrow> HTree \<times> BitStream" where
  "DeserializeHuffmanTree bitIn =
     (let (isLeafNode, s1) = ReadBit bitIn in
      if isLeafNode \<noteq> 0 then
        (let (value, s2) = ReadByte s1 in (CreateTreeNode (byte_of_int16 value), s2))
      else
        (let (l, s2) = DeserializeHuffmanTree s1; (r, s3) = DeserializeHuffmanTree s2 in
         (HTreeNode l r 0, s3)))"
  by pat_completeness auto

termination
proof -
  have shrinks: "bits_left (snd (DeserializeHuffmanTree s)) \<le> bits_left s" if "DeserializeHuffmanTree_dom s" for s
    using that
  proof (induction s rule: DeserializeHuffmanTree.pinduct)
    case (1 s)
    obtain v s1 where r: "ReadBit s = (v, s1)" by force
    show ?case
    proof (cases "v \<noteq> 0")
      case True
      obtain b s2 where "ReadByte s1 = (b, s2)" by force
      with ReadByte_bits_left [OF this] ReadBit_bits_left [OF r] True r show ?thesis
        by (simp add: DeserializeHuffmanTree.psimps [OF "1.hyps"])
    next
      case False
      obtain l s2 where l: "DeserializeHuffmanTree s1 = (l, s2)" by force
      obtain r' s3 where r': "DeserializeHuffmanTree s2 = (r', s3)" by force
      have "bits_left s2 \<le> bits_left s1"
        using "1.IH"(1) [OF r [symmetric] refl] False l by simp
      moreover have "bits_left s3 \<le> bits_left s2"
        using "1.IH"(2) [OF r [symmetric] refl _ l [symmetric] refl] False r' by simp
      ultimately show ?thesis
        using ReadBit_bits_left [OF r] r l r' False
        by (simp add: DeserializeHuffmanTree.psimps [OF "1.hyps"])
    qed
  qed
  show ?thesis
  proof (relation "measure bits_left", goal_cases)
    case 1
    show ?case by simp
  next
    case (2 s x v s1)
    then show ?case using ReadBit_bits_left [of s v s1] by (auto simp: EOF_def)
  next
    case (3 s x v s1 y l s2)
    then show ?case
      using ReadBit_bits_left [of s v s1] shrinks [of s1]
      by (auto simp: EOF_def dest!: sym [of "(_, _)"])
  qed
qed

declare DeserializeHuffmanTree.simps [simp del]

text \<open>The code table: \<open>curCode\<close> is the buffer the current path is written into, a table entry \<open>None\<close> the
  NULL of \<open>calloc\<close>.  \<open>strcpy\<close> copies up to the first NUL character.\<close>

type_synonym code_table = "string option list"

fun MakeCodeTableImpl :: "HTree \<Rightarrow> code_table \<Rightarrow> string \<Rightarrow> nat \<Rightarrow> (code_table \<times> string) res" where
  "MakeCodeTableImpl NullTree table curCode curDepth = Inl Undefined"
| "MakeCodeTableImpl (HTreeNode l r v) table curCode curDepth =
     bindR (IsLeafNode (HTreeNode l r v)) (\<lambda>leaf.
     if leaf then
       bindR (arr_set curCode curDepth CHR 0x00) (\<lambda>curCode'.
       bindR (arr_set table (unat v) (Some (takeWhile (\<lambda>c. c \<noteq> CHR 0x00) curCode'))) (\<lambda>table'.
       Inr (table', curCode')))
     else
       bindR (arr_set curCode curDepth CHR ''0'') (\<lambda>curCode1.
       bindR (MakeCodeTableImpl l table curCode1 (curDepth + 1)) (\<lambda>(table1, curCode2).
       bindR (arr_set curCode2 curDepth CHR ''1'') (\<lambda>curCode3.
       MakeCodeTableImpl r table1 curCode3 (curDepth + 1)))))"

text \<open>The initial contents of the \<open>malloc\<close>ed buffer do not matter; they are an argument.\<close>

definition MakeCodeTable :: "string \<Rightarrow> HTree \<Rightarrow> code_table res" where
  "MakeCodeTable junk tree =
     bindR (MakeCodeTableImpl tree (replicate 256 None) junk 0) (\<lambda>(table, _). Inr table)"

fun emit_loop :: "BitStream \<Rightarrow> string \<Rightarrow> BitStream res" where
  "emit_loop bitOut [] = Inr bitOut"
| "emit_loop bitOut (c # code) =
     assertR (c = CHR ''0'' \<or> c = CHR ''1'')
     (emit_loop (WriteBit bitOut (c = CHR ''1'')) code)"

definition EmitCode :: "BitStream \<Rightarrow> code_table \<Rightarrow> byte \<Rightarrow> BitStream res" where
  "EmitCode bitOut codeTable b =
     bindR (arr_get codeTable (unat b)) (\<lambda>code.
     case code of None \<Rightarrow> Inl Undefined | Some c \<Rightarrow> emit_loop bitOut c)"

text \<open>\<open>None\<close> is the \<open>EOF\<close> result.\<close>

fun DecodeByte :: "BitStream \<Rightarrow> HTree \<Rightarrow> (byte option \<times> BitStream) res" where
  "DecodeByte bitIn NullTree = Inl Undefined"
| "DecodeByte bitIn (HTreeNode l r v) =
     bindR (IsLeafNode (HTreeNode l r v)) (\<lambda>leaf.
     if leaf then Inr (Some v, bitIn)
     else let (b, s) = ReadBit bitIn in
       if b = 0 then DecodeByte s l
       else if b = 1 then DecodeByte s r
       else Inr (None, s))"

section \<open>Code trees\<close>

text \<open>A tree as the builder makes it: a node has two children or none, and only leaves carry a value.\<close>

fun proper :: "HTree \<Rightarrow> bool" where
  "proper NullTree \<longleftrightarrow> False"
| "proper (HTreeNode l r v) \<longleftrightarrow> l = NullTree \<and> r = NullTree \<or> proper l \<and> proper r \<and> v = 0"

fun leaf_values :: "HTree \<Rightarrow> byte list" where
  "leaf_values NullTree = []"
| "leaf_values (HTreeNode l r v) =
     (if l = NullTree \<and> r = NullTree then [v] else leaf_values l @ leaf_values r)"

fun codes :: "HTree \<Rightarrow> (byte \<times> bool list) list" where
  "codes NullTree = []"
| "codes (HTreeNode l r v) =
     (if l = NullTree \<and> r = NullTree then [(v, [])]
      else map (\<lambda>(x, c). (x, False # c)) (codes l) @ map (\<lambda>(x, c). (x, True # c)) (codes r))"

fun tree_height :: "HTree \<Rightarrow> nat" where
  "tree_height NullTree = 0"
| "tree_height (HTreeNode l r v) =
     (if l = NullTree \<and> r = NullTree then 0 else Suc (max (tree_height l) (tree_height r)))"

lemma proper_not_Null: "proper t \<Longrightarrow> t \<noteq> NullTree"
  by auto

lemma proper_induct [consumes 1, case_names Leaf Node]:
  assumes "proper t"
    and "\<And>v. P (HTreeNode NullTree NullTree v)"
    and "\<And>l r. proper l \<Longrightarrow> proper r \<Longrightarrow> P l \<Longrightarrow> P r \<Longrightarrow> P (HTreeNode l r 0)"
  shows "P t"
  using assms(1) by (induction t) (auto intro: assms(2,3))

lemma map_fst_codes: "map fst (codes t) = leaf_values t"
  by (induction t) (auto simp: comp_def case_prod_beta)

lemma height_less_leaves: "proper t \<Longrightarrow> tree_height t < length (leaf_values t)"
  by (induction t rule: proper_induct) (auto dest: proper_not_Null)

lemma leaf_values_nonempty: "proper t \<Longrightarrow> leaf_values t \<noteq> []"
  using height_less_leaves by fastforce

lemma length_distinct_bytes: "distinct (xs :: byte list) \<Longrightarrow> length xs \<le> 256"
proof -
  assume "distinct xs"
  then have "length xs = card (set xs)" by (simp add: distinct_card)
  also have "\<dots> \<le> card (UNIV :: byte set)" by (rule card_mono) auto
  finally show ?thesis by (simp add: card_word)
qed

text \<open>No code word is a prefix of another one's.\<close>

lemma codes_prefix_free:
  assumes "proper t" and "(x, c) \<in> set (codes t)" and "(y, c @ d) \<in> set (codes t)"
  shows "d = [] \<and> (distinct (leaf_values t) \<longrightarrow> x = y)"
  using assms
proof (induction t arbitrary: c rule: proper_induct)
  case (Node l r)
  then show ?case by (auto dest: proper_not_Null)
qed auto

section \<open>The tree on a bit stream\<close>

fun tree_bits :: "HTree \<Rightarrow> bool list" where
  "tree_bits NullTree = []"
| "tree_bits (HTreeNode l r v) =
     (if l = NullTree \<and> r = NullTree then True # lsb_bits v else False # tree_bits l @ tree_bits r)"

lemma SerializeHuffmanTree_ok:
  assumes "proper t" and "out_ok s"
  shows "\<exists>s'. SerializeHuffmanTree s t = Inr s' \<and> out_ok s' \<and> out_bits s' = out_bits s @ tree_bits t"
  using assms
proof (induction t arbitrary: s rule: proper_induct)
  case (Leaf v)
  then show ?case by (simp add: WriteBit_ok WriteByte_ok)
next
  case (Node l r)
  from Node.prems have w: "out_ok (WriteBit s False)" by (rule stream_sink.put_ok)
  obtain s1 where s1: "SerializeHuffmanTree (WriteBit s False) l = Inr s1" "out_ok s1"
      "out_bits s1 = out_bits s @ False # tree_bits l"
    using Node.IH(1) [OF w] stream_sink.put_written [OF Node.prems, of False] by auto
  with Node.IH(2) [OF s1(2)] Node.hyps show ?case by (auto dest: proper_not_Null)
qed

lemma DeserializeHuffmanTree_ok:
  assumes "proper t" and "in_ok s" and "in_bits s = tree_bits t @ bs"
  shows "\<exists>s'. DeserializeHuffmanTree s = (t, s') \<and> in_ok s' \<and> in_bits s' = bs"
  using assms
proof (induction t arbitrary: s bs rule: proper_induct)
  case (Leaf v)
  then obtain s1 where s1: "ReadBit s = (1, s1)" "in_ok s1" "in_bits s1 = lsb_bits v @ bs"
    using stream_source.get_Cons [of s True "lsb_bits v @ bs"] by auto
  with ReadByte_ok [OF s1(2,3)] show ?case
    by (auto simp: DeserializeHuffmanTree.simps [of s] byte_of_int16_def CreateTreeNode_def)
next
  case (Node l r)
  then have "in_bits s = False # tree_bits l @ tree_bits r @ bs" by (auto dest: proper_not_Null)
  then obtain s1 where s1: "ReadBit s = (0, s1)" "in_ok s1" "in_bits s1 = tree_bits l @ tree_bits r @ bs"
    using stream_source.get_Cons [OF Node.prems(1), of False] by auto
  obtain s2 where s2: "DeserializeHuffmanTree s1 = (l, s2)" "in_ok s2" "in_bits s2 = tree_bits r @ bs"
    using Node.IH(1) [OF s1(2,3)] by blast
  with Node.IH(2) [OF s2(2,3)] s1 show ?case
    by (auto simp: DeserializeHuffmanTree.simps [of s])
qed

section \<open>The code table\<close>

definition bit_char :: "bool \<Rightarrow> char" where
  "bit_char b = (if b then CHR ''1'' else CHR ''0'')"

definition code_string :: "bool list \<Rightarrow> string" where
  "code_string c = map bit_char c"

definition store_codes :: "bool list \<Rightarrow> code_table \<Rightarrow> (byte \<times> bool list) list \<Rightarrow> code_table" where
  "store_codes p tb cs = foldl (\<lambda>tb (v, c). tb[unat v := Some (code_string (p @ c))]) tb cs"

lemma store_codes_simps [simp]:
  "store_codes p tb [] = tb"
  "store_codes p tb ((v, c) # cs) = store_codes p (tb[unat v := Some (code_string (p @ c))]) cs"
  "store_codes p tb (cs @ ds) = store_codes p (store_codes p tb cs) ds"
  by (simp_all add: store_codes_def)

lemma store_codes_Cons_bit:
  "store_codes p tb (map (\<lambda>(x, c). (x, b # c)) cs) = store_codes (p @ [b]) tb cs"
  by (induction cs arbitrary: tb) auto

lemma length_store_codes [simp]: "length (store_codes p tb cs) = length tb"
  by (induction cs arbitrary: tb) auto

lemma store_codes_other:
  "v \<notin> fst ` set cs \<Longrightarrow> store_codes p tb cs ! unat v = tb ! unat v"
proof (induction cs arbitrary: tb)
  case (Cons x cs)
  obtain w d where x: "x = (w, d)" by force
  with Cons.prems have "unat w \<noteq> unat v" by (auto simp: unat_byte_eq_iff)
  with Cons x show ?case by simp
qed simp

lemma store_codes_lookup:
  assumes "(v, c) \<in> set cs" and "distinct (map fst cs)" and "length tb = 256"
  shows "store_codes p tb cs ! unat v = Some (code_string (p @ c))"
  using assms
proof (induction cs arbitrary: tb)
  case (Cons x cs)
  obtain w d where x: "x = (w, d)" by force
  with Cons show ?case
    by (cases "(v, c) = (w, d)") (force simp: store_codes_other)+
qed simp

lemma code_string_no_NUL: "CHR 0x00 \<notin> set (code_string c)"
  by (auto simp: code_string_def bit_char_def)

lemma take_update_next:
  assumes "take n xs = ys" and "n < length xs"
  shows "take (Suc n) (xs[n := c]) = ys @ [c]"
  using assms by (simp add: take_Suc_conv_app_nth)

lemma takeWhile_at_NUL:
  assumes "take n xs = code_string p" and "n < length xs"
  shows "takeWhile (\<lambda>c. c \<noteq> CHR 0x00) (xs[n := CHR 0x00]) = code_string p"
proof -
  have "xs[n := CHR 0x00] = code_string p @ CHR 0x00 # drop (Suc n) xs"
    using assms by (simp add: upd_conv_take_nth_drop)
  then show ?thesis
    using code_string_no_NUL [of p] by (simp add: takeWhile_append)
qed

lemma MakeCodeTableImpl_ok:
  assumes "proper t" and "length table = 256" and "length curCode = 256"
    and "length p + tree_height t < 256" and "take (length p) curCode = code_string p"
  shows "\<exists>cc. MakeCodeTableImpl t table curCode (length p) = Inr (store_codes p table (codes t), cc) \<and>
           length cc = 256 \<and> take (length p) cc = code_string p"
  using assms
proof (induction t arbitrary: table curCode p rule: proper_induct)
  case (Leaf v)
  then show ?case using takeWhile_at_NUL [OF Leaf.prems(4)] by simp
next
  case (Node l r)
  let ?n = "length p"
  have nn: "\<not> (l = NullTree \<and> r = NullTree)" using Node.hyps by auto
  have n: "?n < 256" using Node.prems by simp
  have hl: "?n + tree_height l < 255" and hr: "?n + tree_height r < 255"
    using Node.prems(3) nn by (auto simp: max_def split: if_splits)
  let ?c1 = "curCode[?n := CHR ''0'']"
  have "take (Suc ?n) ?c1 = code_string (p @ [False])"
    using take_update_next [OF Node.prems(4)] n Node.prems by (simp add: code_string_def bit_char_def)
  then obtain c2 where c2: "MakeCodeTableImpl l table ?c1 (Suc ?n) = Inr (store_codes (p @ [False]) table (codes l), c2)"
      "length c2 = 256" "take (Suc ?n) c2 = code_string (p @ [False])"
    using Node.IH(1) [of table ?c1 "p @ [False]"] Node.prems hl by auto
  then have "take ?n c2 = code_string p"
    by (metis append_eq_conv_conj code_string_def length_map lessI map_append min.strict_order_iff take_take min.commute)
  then have "take (Suc ?n) (c2[?n := CHR ''1'']) = code_string (p @ [True])"
    using take_update_next [of ?n c2] n c2 by (simp add: code_string_def bit_char_def)
  then obtain c4 where c4: "MakeCodeTableImpl r (store_codes (p @ [False]) table (codes l)) (c2[?n := CHR ''1'']) (Suc ?n) =
        Inr (store_codes (p @ [True]) (store_codes (p @ [False]) table (codes l)) (codes r), c4)"
      "length c4 = 256" "take (Suc ?n) c4 = code_string (p @ [True])"
    using Node.IH(2) [of "store_codes (p @ [False]) table (codes l)" "c2[?n := CHR ''1'']" "p @ [True]"]
      Node.prems hr c2 by auto
  then have "take ?n c4 = code_string p"
    by (metis append_eq_conv_conj code_string_def length_map lessI map_append min.strict_order_iff take_take min.commute)
  with c2 c4 n nn Node.prems show ?case by (auto simp: store_codes_Cons_bit)
qed

lemma MakeCodeTable_ok:
  assumes "proper t" and "distinct (leaf_values t)" and "length junk = 256"
  shows "\<exists>table. MakeCodeTable junk t = Inr table \<and> length table = 256 \<and>
           (\<forall>(v, c) \<in> set (codes t). table ! unat v = Some (code_string c))"
proof -
  have "tree_height t < 256"
    using height_less_leaves [OF assms(1)] length_distinct_bytes [OF assms(2)] by simp
  then have "\<exists>cc. MakeCodeTableImpl t (replicate 256 None) junk 0 =
      Inr (store_codes [] (replicate 256 None) (codes t), cc)"
    using MakeCodeTableImpl_ok [OF assms(1), of "replicate 256 None" junk "[]"] assms(3)
    by (auto simp: code_string_def)
  then show ?thesis
    using store_codes_lookup [of _ _ "codes t" "replicate 256 None" "[]"] assms(2)
    by (auto simp: MakeCodeTable_def map_fst_codes)
qed

section \<open>Emitting and decoding\<close>

lemma emit_loop_ok: "emit_loop s (code_string c) = Inr (foldl WriteBit s c)"
  by (induction c arbitrary: s) (auto simp: code_string_def bit_char_def)

lemma DecodeByte_ok:
  assumes "proper t" and "(v, c) \<in> set (codes t)" and "in_ok s" and "in_bits s = c @ bs"
  shows "\<exists>s'. DecodeByte s t = Inr (Some v, s') \<and> in_ok s' \<and> in_bits s' = bs"
  using assms
proof (induction t arbitrary: c s rule: proper_induct)
  case (Leaf w)
  then show ?case by auto
next
  case (Node l r)
  have nn: "l \<noteq> NullTree" using Node.hyps by auto
  then obtain b d where c: "c = b # d" "(v, d) \<in> set (codes (if b then r else l))"
    using Node.prems(1) by auto
  with Node.prems obtain s1 where "ReadBit s = (if b then 1 else 0, s1)" "in_ok s1" "in_bits s1 = d @ bs"
    using stream_source.get_Cons [of s b "d @ bs"] by auto
  note s1 = this
  show ?case
  proof (cases b)
    case True
    with Node.IH(2) [of d s1] c s1 nn show ?thesis by simp
  next
    case False
    with Node.IH(1) [of d s1] c s1 nn show ?thesis by simp
  qed
qed

section \<open>Building the tree\<close>

text \<open>The builder on the contents of its queues.\<close>

fun pop_min :: "HSortNode list \<Rightarrow> HSortNode list \<Rightarrow> HSortNode \<times> HSortNode list \<times> HSortNode list" where
  "pop_min [] cs = (hd cs, [], tl cs)"
| "pop_min (l # ls) [] = (l, ls, [])"
| "pop_min (l # ls) (c # cs) =
     (if frequency l < frequency c then (l, ls, c # cs) else (c, l # ls, cs))"

lemma pop_min_length:
  "ls @ cs \<noteq> [] \<Longrightarrow> pop_min ls cs = (x, ls', cs') \<Longrightarrow> length ls + length cs = Suc (length ls' + length cs')"
  by (cases "(ls, cs)" rule: pop_min.cases) (auto split: if_splits)

lemma pop_min_mset:
  "ls @ cs \<noteq> [] \<Longrightarrow> pop_min ls cs = (x, ls', cs') \<Longrightarrow> mset (ls @ cs) = add_mset x (mset (ls' @ cs'))"
  by (cases "(ls, cs)" rule: pop_min.cases) (auto simp: neq_Nil_conv split: if_splits)

lemma PopMinimum_rep:
  assumes "queue_rep l ls" and "queue_rep c cs" and "ls @ cs \<noteq> []" and "pop_min ls cs = (x, ls', cs')"
  shows "\<exists>l' c'. PopMinimum l c = Inr (x, l', c') \<and> queue_rep l' ls' \<and> queue_rep c' cs'"
proof -
  have e: "IsEmpty l \<longleftrightarrow> ls = []" "IsEmpty c \<longleftrightarrow> cs = []"
    using assms IsEmpty_rep by auto
  consider (leaves_empty) y ys where "ls = []" "cs = y # ys"
    | (composite_empty) y ys where "ls = y # ys" "cs = []"
    | (both) y ys z zs where "ls = y # ys" "cs = z # zs"
    using assms(3) by (cases ls; cases cs) auto
  then show ?thesis
  proof cases
    case leaves_empty
    with assms e hq.pop_rep [of c y ys] show ?thesis by (auto simp: PopMinimum_def)
  next
    case composite_empty
    with assms e hq.pop_rep [of l y ys] show ?thesis by (auto simp: PopMinimum_def)
  next
    case both
    then have f: "GetFront l = Inr y" "GetFront c = Inr z"
      using assms GetFront_rep by auto
    show ?thesis
    proof (cases "frequency y < frequency z")
      case True
      with both assms e f hq.pop_rep [of l y ys] show ?thesis by (auto simp: PopMinimum_def)
    next
      case False
      with both assms e f hq.pop_rep [of c z zs] show ?thesis by (auto simp: PopMinimum_def)
    qed
  qed
qed

function build_list :: "HSortNode list \<Rightarrow> HSortNode list \<Rightarrow> HSortNode list \<times> HSortNode list" where
  "build_list ls cs =
     (if length ls + length cs > 1 then
        (let (m1, l1, c1) = pop_min ls cs; (m2, l2, c2) = pop_min l1 c1 in
         build_list l2 (c2 @ [join_nodes m1 m2]))
      else (ls, cs))"
  by pat_completeness auto
termination
proof (relation "measure (\<lambda>(ls, cs). length ls + length cs)", goal_cases)
  case 1
  show ?case by simp
next
  case (2 ls cs x m1 y l1 c1 z m2 w l2 c2)
  then have "length ls + length cs = Suc (length l1 + length c1)"
    by (intro pop_min_length [of ls cs m1]) auto
  moreover from this 2 have "length l1 + length c1 = Suc (length l2 + length c2)"
    by (intro pop_min_length [of l1 c1 m2]) auto
  ultimately show ?case using 2 by simp
qed

declare build_list.simps [simp del]

text \<open>Taking two nodes, as one round of the loop does.\<close>

lemma two_pops:
  assumes "1 < length ls + length cs"
  obtains m1 l1 c1 m2 l2 c2 where "pop_min ls cs = (m1, l1, c1)" and "pop_min l1 c1 = (m2, l2, c2)"
    and "ls @ cs \<noteq> []" and "l1 @ c1 \<noteq> []"
    and "mset (ls @ cs) = {#m1, m2#} + mset (l2 @ c2)"
    and "build_list ls cs = build_list l2 (c2 @ [join_nodes m1 m2])"
    and "length ls + length cs = Suc (Suc (length l2 + length c2))"
proof -
  obtain m1 l1 c1 where p1: "pop_min ls cs = (m1, l1, c1)" by (metis prod_cases3)
  obtain m2 l2 c2 where p2: "pop_min l1 c1 = (m2, l2, c2)" by (metis prod_cases3)
  have n1: "ls @ cs \<noteq> []" using assms by auto
  then have s1: "length ls + length cs = Suc (length l1 + length c1)" using pop_min_length p1 by blast
  then have n2: "l1 @ c1 \<noteq> []" using assms by auto
  show thesis
    using that [OF p1 p2 n1 n2] pop_min_mset [OF n1 p1] pop_min_mset [OF n2 p2]
      pop_min_length [OF n2 p2] s1 p1 p2 assms build_list.simps [of ls cs] by simp
qed

lemma build_loop_rep:
  assumes "queue_rep l ls" and "queue_rep c cs" and "build_list ls cs = (ls', cs')"
  shows "\<exists>l' c'. build_loop l c = Inr (l', c') \<and> queue_rep l' ls' \<and> queue_rep c' cs'"
  using assms
proof (induction ls cs arbitrary: l c rule: build_list.induct)
  case (1 ls cs)
  have sz: "GetSize l = length ls" "GetSize c = length cs" using "1.prems" GetSize_rep by auto
  show ?case
  proof (cases "1 < length ls + length cs")
    case False
    with 1 sz show ?thesis by (auto simp: build_loop.simps [of l] build_list.simps [of ls])
  next
    case True
    then obtain m1 l1 c1 m2 l2 c2 where p: "pop_min ls cs = (m1, l1, c1)" "pop_min l1 c1 = (m2, l2, c2)"
        "ls @ cs \<noteq> []" "l1 @ c1 \<noteq> []" "build_list ls cs = build_list l2 (c2 @ [join_nodes m1 m2])"
      using two_pops by metis
    obtain q1 r1 where q1: "PopMinimum l c = Inr (m1, q1, r1)" "queue_rep q1 l1" "queue_rep r1 c1"
      using PopMinimum_rep [OF "1.prems"(1,2) p(3,1)] by blast
    obtain q2 r2 where q2: "PopMinimum q1 r1 = Inr (m2, q2, r2)" "queue_rep q2 l2" "queue_rep r2 c2"
      using PopMinimum_rep [OF q1(2,3) p(4,2)] by blast
    obtain r3 where r3: "Push r2 (join_nodes m1 m2) = Inr r3" "queue_rep r3 (c2 @ [join_nodes m1 m2])"
      using hq.push_rep [OF q2(3)] by blast
    have "\<exists>l' c'. build_loop q2 r3 = Inr (l', c') \<and> queue_rep l' ls' \<and> queue_rep c' cs'"
      using "1.IH" [OF True p(1) [symmetric] refl refl p(2) [symmetric] refl refl q2(2) r3(2)] p(5) "1.prems"(3)
      by simp
    with True sz q1 q2 r3 show ?thesis by (subst build_loop.simps) auto
  qed
qed

text \<open>The leaf values of a collection of nodes.\<close>

abbreviation all_leaves :: "HSortNode multiset \<Rightarrow> byte multiset" where
  "all_leaves M \<equiv> (\<Sum>n \<in># M. mset (leaf_values (treeNode n)))"

lemma join_nodes_tree:
  "proper (treeNode m1) \<Longrightarrow> proper (treeNode m2) \<Longrightarrow>
   proper (treeNode (join_nodes m1 m2)) \<and>
   mset (leaf_values (treeNode (join_nodes m1 m2))) =
     mset (leaf_values (treeNode m1)) + mset (leaf_values (treeNode m2))"
  by (auto simp: join_nodes_def dest: proper_not_Null)

lemma build_list_ok:
  assumes "build_list ls cs = (ls', cs')" and "ls @ cs \<noteq> []" and "\<forall>n \<in> set (ls @ cs). proper (treeNode n)"
  shows "length (ls' @ cs') = 1 \<and> (\<forall>n \<in> set (ls' @ cs'). proper (treeNode n)) \<and>
    all_leaves (mset (ls' @ cs')) = all_leaves (mset (ls @ cs)) \<and>
    (cs \<noteq> [] \<or> 1 < length (ls @ cs) \<longrightarrow> ls' = [])"
  using assms
proof (induction ls cs rule: build_list.induct)
  case (1 ls cs)
  show ?case
  proof (cases "1 < length ls + length cs")
    case False
    then have "ls' = ls" "cs' = cs" using "1.prems"(1) by (simp_all add: build_list.simps [of ls cs])
    moreover have "length ls + length cs = 1" using False "1.prems"(2) by (cases ls; cases cs) auto
    ultimately show ?thesis using "1.prems"(3) by (cases ls) auto
  next
    case True
    then obtain m1 l1 c1 m2 l2 c2 where p: "pop_min ls cs = (m1, l1, c1)" "pop_min l1 c1 = (m2, l2, c2)"
        "mset (ls @ cs) = {#m1, m2#} + mset (l2 @ c2)"
        "build_list ls cs = build_list l2 (c2 @ [join_nodes m1 m2])"
      by (rule two_pops)
    have s: "set (ls @ cs) = {m1, m2} \<union> set (l2 @ c2)"
      using arg_cong [OF p(3), of set_mset] by simp
    with "1.prems"(3) have pr: "proper (treeNode m1)" "proper (treeNode m2)" "\<forall>n \<in> set (l2 @ c2). proper (treeNode n)"
      by auto
    note j = join_nodes_tree [OF pr(1,2)]
    have b: "build_list l2 (c2 @ [join_nodes m1 m2]) = (ls', cs')" using p(4) "1.prems"(1) by simp
    have pj: "\<forall>n \<in> set (l2 @ c2 @ [join_nodes m1 m2]). proper (treeNode n)" using pr(3) j by auto
    have ne: "l2 @ c2 @ [join_nodes m1 m2] \<noteq> []" "c2 @ [join_nodes m1 m2] \<noteq> []" by auto
    note ih = "1.IH" [OF True p(1) [symmetric] refl refl p(2) [symmetric] refl refl b ne(1) pj]
    have eq: "all_leaves (mset (l2 @ c2 @ [join_nodes m1 m2])) = all_leaves (mset (ls @ cs))"
      unfolding p(3) using j by simp
    from ih ne(2) show ?thesis unfolding eq by blast
  qed
qed

definition leaf_node :: "nat list \<Rightarrow> nat \<Rightarrow> HSortNode" where
  "leaf_node freqTable i = \<lparr>treeNode = CreateTreeNode (word_of_nat i), frequency = freqTable ! i\<rparr>"

definition used_bytes :: "nat list \<Rightarrow> nat \<Rightarrow> nat list" where
  "used_bytes freqTable i = filter (\<lambda>j. freqTable ! j \<noteq> 0) [i..<256]"

lemma used_bytes_step:
  "i < 256 \<Longrightarrow> used_bytes f i = (if f ! i = 0 then used_bytes f (i + 1) else i # used_bytes f (i + 1))"
  by (simp add: used_bytes_def upt_rec [of i])

lemma leaves_loop_ok:
  assumes "length freqTable = 256" and "length leaves + length (used_bytes freqTable i) \<le> n"
  shows "leaves_loop freqTable n i leaves = Inr (leaves @ map (leaf_node freqTable) (used_bytes freqTable i))"
  using assms
proof (induction freqTable n i leaves rule: leaves_loop.induct)
  case (1 freqTable n i leaves)
  show ?case
  proof (cases "i < 256")
    case True
    then have g: "arr_get freqTable i = Inr (freqTable ! i)" using 1 by simp
    show ?thesis
    proof (cases "freqTable ! i = 0")
      case zero: True
      with True g "1.IH"(1) [OF True g] "1.prems" show ?thesis
        by (simp add: leaves_loop.simps [of freqTable n i] used_bytes_step [OF True])
    next
      case used: False
      then have "length leaves < n" using "1.prems" True by (simp add: used_bytes_step)
      with used True g "1.IH"(2) [OF True g] "1.prems" show ?thesis
        by (simp add: leaves_loop.simps [of freqTable n i] used_bytes_step [OF True] leaf_node_def)
    qed
  next
    case False
    then show ?thesis by (simp add: leaves_loop.simps [of freqTable n i] used_bytes_def)
  qed
qed

lemma push_leaves_eq: "push_leaves q xs = hq.push_all q xs"
  by (induction xs arbitrary: q) auto

lemma PrepareLeafNodesQueue_ok:
  assumes "length freqTable = 256"
  shows "\<exists>q. PrepareLeafNodesQueue freqTable (length (used_bytes freqTable 0)) = Inr q \<and>
    queue_rep q (qsort HSortNodeCompare (map (leaf_node freqTable) (used_bytes freqTable 0)))"
  using leaves_loop_ok [OF assms, of "[]" 0] hq.push_all_rep [OF hq.create_rep]
  by (simp add: PrepareLeafNodesQueue_def push_leaves_eq)

lemma HSortNodeCompare_key: "key_cmp HSortNodeCompare frequency"
  by (auto simp: key_cmp_def HSortNodeCompare_def)

lemma proper_leaf_node [simp]:
  "proper (treeNode (leaf_node f i))" "leaf_values (treeNode (leaf_node f i)) = [word_of_nat i]"
  by (simp_all add: leaf_node_def CreateTreeNode_def)

lemma qsort_Nil_iff [simp]: "qsort cmp xs = [] \<longleftrightarrow> xs = []"
  by (metis length_0_conv length_qsort)

lemma all_leaves_leaf_nodes: "all_leaves (mset (map (leaf_node f) is)) = mset (map word_of_nat is)"
  by (induction "is") auto

lemma DestroyQueue_rep: "queue_rep q xs \<Longrightarrow> \<exists>h. DestroyQueue q = Inr h"
  unfolding queue_rep_def using destroy_at by blast

lemma singleton_list: "length xs = 1 \<Longrightarrow> \<exists>x. xs = [x]"
  by (cases xs) auto

lemma BuildHuffmanTree_queue:
  assumes "PrepareLeafNodesQueue freqTable n = Inr q" and "queue_rep q ls" and "length ls = n" and "n \<noteq> 0"
    and "\<forall>x \<in> set ls. proper (treeNode x)"
  shows "\<exists>t. BuildHuffmanTree freqTable n = Inr t \<and> proper t \<and> mset (leaf_values t) = all_leaves (mset ls)"
proof (cases "n = 1")
  case True
  then obtain x where ls: "ls = [x]" using singleton_list assms(3) by blast
  with assms(2) have "queue_rep q [x]" by simp
  then obtain q' where q': "Pop q = Inr (x, q')" "queue_rep q' []" using hq.pop_rep [of q x "[]"] by auto
  then obtain h where "DestroyQueue q' = Inr h" using DestroyQueue_rep by blast
  with assms(1,5) ls q' True GetSize_rep [OF assms(2)] show ?thesis by (simp add: BuildHuffmanTree_def)
next
  case False
  obtain ls' cs' where b: "build_list ls [] = (ls', cs')" by force
  have r: "length (ls' @ cs') = 1" "\<forall>n \<in> set (ls' @ cs'). proper (treeNode n)"
      "all_leaves (mset (ls' @ cs')) = all_leaves (mset ls)" "ls' = []"
    using build_list_ok [OF b] False assms(3-5) by auto
  then obtain x where x: "cs' = [x]" using singleton_list by force
  obtain l c where lc: "build_loop q CreateQueue = Inr (l, c)" "queue_rep l []" "queue_rep c [x]"
    using build_loop_rep [OF assms(2) hq.create_rep b] r(4) x by blast
  obtain h1 h2 where "DestroyQueue l = Inr h1" "DestroyQueue c = Inr h2"
    using DestroyQueue_rep [OF lc(2)] DestroyQueue_rep [OF lc(3)] by auto
  with assms(1,3,4) lc GetFront_rep [OF lc(3)] r x False GetSize_rep [OF assms(2)] show ?thesis
    by (simp add: BuildHuffmanTree_def)
qed

lemma BuildHuffmanTree_ok:
  assumes "length freqTable = 256" and "used_bytes freqTable 0 \<noteq> []"
  shows "\<exists>t. BuildHuffmanTree freqTable (length (used_bytes freqTable 0)) = Inr t \<and> proper t \<and>
    mset (leaf_values t) = mset (map word_of_nat (used_bytes freqTable 0))"
proof -
  let ?ns = "map (leaf_node freqTable) (used_bytes freqTable 0)"
  obtain q where "PrepareLeafNodesQueue freqTable (length (used_bytes freqTable 0)) = Inr q"
      "queue_rep q (qsort HSortNodeCompare ?ns)"
    using PrepareLeafNodesQueue_ok [OF assms(1)] by blast
  from BuildHuffmanTree_queue [OF this] show ?thesis
    using assms(2) all_leaves_leaf_nodes [of freqTable "used_bytes freqTable 0"] by auto
qed

end
