(* ===== verification/Huffman_Archiver.thy ===== *)
theory Huffman_Archiver
  imports Huffman_Tree C_Stdio
begin

text \<open>
  \<open>C-Labs/Huffman_archiver/src/Compress.c\<close>, \<open>Decompress.c\<close> and \<open>main.c\<close>.  A file is its list of bytes.
  The input is seekable, as \<open>fgetpos\<close> and \<open>fsetpos\<close> require: the second pass of the compressor reads
  the same bytes as the first.  \<open>junk\<close> is what the buffer of the code table holds before it is written.
\<close>

section \<open>Definitions\<close>

text \<open>The first pass: \<open>freqTable\<close> and \<open>totalBytesCount\<close> are \<open>uint32_t\<close>, \<open>uniqueBytesCount\<close> is \<open>uint16_t\<close>.\<close>

fun count_loop :: "byte list \<Rightarrow> nat list \<Rightarrow> nat \<Rightarrow> nat \<Rightarrow> (nat list \<times> nat \<times> nat) res" where
  "count_loop [] freqTable uniqueBytesCount totalBytesCount =
     Inr (freqTable, uniqueBytesCount, totalBytesCount)"
| "count_loop (b # inp) freqTable uniqueBytesCount totalBytesCount =
     bindR (arr_get freqTable (unat b)) (\<lambda>f.
     bindR (arr_set freqTable (unat b) ((f + 1) mod 2 ^ 32)) (\<lambda>freqTable'.
     count_loop inp freqTable'
       (if f = 0 then (uniqueBytesCount + 1) mod 2 ^ 16 else uniqueBytesCount)
       ((totalBytesCount + 1) mod 2 ^ 32)))"

text \<open>The four bytes of a \<open>uint32_t\<close> in memory, least significant first.\<close>

definition u32_bytes :: "nat \<Rightarrow> byte list" where
  "u32_bytes n = map (\<lambda>k. word_of_nat (n div 256 ^ k)) [0..<4]"

definition u32_of_bytes :: "byte list \<Rightarrow> nat" where
  "u32_of_bytes bs = foldr (\<lambda>b n. unat b + 256 * n) bs 0"

fun emit_all :: "BitStream \<Rightarrow> code_table \<Rightarrow> byte list \<Rightarrow> BitStream res" where
  "emit_all bitOutput codeTable [] = Inr bitOutput"
| "emit_all bitOutput codeTable (b # inp) =
     bindR (EmitCode bitOutput codeTable b) (\<lambda>s. emit_all s codeTable inp)"

definition Compress :: "string \<Rightarrow> byte list \<Rightarrow> byte list res" where
  "Compress junk inp =
     bindR (count_loop inp (replicate 256 0) 0 0) (\<lambda>(freqTable, uniqueBytesCount, totalBytesCount).
     let bitOutput = WriteByteArray (OpenBitStream []) (u32_bytes totalBytesCount) in
     bindR (BuildHuffmanTree freqTable uniqueBytesCount) (\<lambda>huffmanTree.
     bindR (SerializeHuffmanTree bitOutput huffmanTree) (\<lambda>bitOutput1.
     bindR (MakeCodeTable junk huffmanTree) (\<lambda>codeTable.
     bindR (emit_all bitOutput1 codeTable inp) (\<lambda>bitOutput2.
     Inr (CloseBitStream bitOutput2))))))"

text \<open>The decoding loop runs at most \<open>n = totalBytesEncoded - bytesDecoded\<close> times.\<close>

fun decode_loop :: "BitStream \<Rightarrow> HTree \<Rightarrow> nat \<Rightarrow> byte list res" where
  "decode_loop bitInput huffmanTree 0 = Inr []"
| "decode_loop bitInput huffmanTree (Suc n) =
     bindR (DecodeByte bitInput huffmanTree) (\<lambda>(r, s).
     case r of
       None \<Rightarrow> Inr []
     | Some b \<Rightarrow> bindR (decode_loop s huffmanTree n) (\<lambda>out. Inr (b # out)))"

definition Decompress :: "byte list \<Rightarrow> byte list res" where
  "Decompress inp =
     (let (bs, bitInput) = ReadByteArray (OpenBitStream inp) 4;
          (huffmanTree, bitInput1) = DeserializeHuffmanTree bitInput
      in decode_loop bitInput1 huffmanTree (u32_of_bytes bs))"

definition ExitWithError :: "string \<Rightarrow> 'a res" where
  "ExitWithError msg = Inl (Exit 1 msg)"

definition IsEmptyStream :: "byte list \<Rightarrow> bool" where
  "IsEmptyStream stream = (stream = [])"

text \<open>\<open>getc\<close> at the end of the input gives \<open>EOF\<close>, which is 255 as a \<open>char\<close>.\<close>

fun getc :: "byte list \<Rightarrow> byte \<times> byte list" where
  "getc [] = (255, [])"
| "getc (b # inp) = (b, inp)"

definition quoted :: "string \<Rightarrow> string" where
  "quoted s = CHR 0x27 # s @ [CHR 0x27]"

definition run_mode :: "string \<Rightarrow> byte \<Rightarrow> byte list \<Rightarrow> byte list res" where
  "run_mode junk mode inp =
     (if IsEmptyStream inp then Inr []
      else if mode = 99 then Compress junk inp
      else if mode = 100 then Decompress inp
      else ExitWithError (quoted [char_of (unat mode)] @ '' - unknown mode identifier\<newline>''))"

text \<open>\<open>main\<close> gives what is written to the output: the standard output, or the file of its last argument.
  \<open>files\<close> says which files can be read and \<open>creatable\<close> which can be created; creating a file empties it.\<close>

definition main ::
    "string \<Rightarrow> string list \<Rightarrow> byte list \<Rightarrow> (string \<Rightarrow> byte list option) \<Rightarrow> (string \<Rightarrow> bool) \<Rightarrow> byte list res" where
  "main junk argv stdin files creatable =
     (if length argv = 1 then
        (let (mode, inp) = getc stdin in run_mode junk mode inp)
      else if length argv = 4 then
        (let mode = (case argv ! 1 of [] \<Rightarrow> 0 | c # _ \<Rightarrow> word_of_nat (of_char c)) in
         case files (argv ! 2) of
           None \<Rightarrow> ExitWithError (''Can'' @ [CHR 0x27] @ ''t open file '' @ quoted (argv ! 2) @ ''\<newline>'')
         | Some inp \<Rightarrow>
             if \<not> creatable (argv ! 3) then ExitWithError (''Can'' @ [CHR 0x27] @ ''t create file '' @ quoted (argv ! 3) @ ''\<newline>'')
             else run_mode junk mode (if argv ! 2 = argv ! 3 then [] else inp))
      else ExitWithError ''Invalid arguments\<newline>'')"

section \<open>Counting\<close>

lemma length_used_bytes: "length (used_bytes f 0) = card {j. j < 256 \<and> f ! j \<noteq> 0}"
proof -
  have "length (used_bytes f 0) = card (set (used_bytes f 0))"
    unfolding used_bytes_def by (rule distinct_card [symmetric]) simp
  also have "set (used_bytes f 0) = {j. j < 256 \<and> f ! j \<noteq> 0}" by (auto simp: used_bytes_def)
  finally show ?thesis .
qed

lemma length_used_bytes_le: "length (used_bytes f 0) \<le> 256"
  unfolding used_bytes_def by (rule order_trans [OF length_filter_le]) simp

lemma length_used_bytes_update:
  assumes "length f = 256" and "i < 256" and "v \<noteq> 0"
  shows "length (used_bytes (f[i := v]) 0) = (if f ! i = 0 then Suc else id) (length (used_bytes f 0))"
proof -
  let ?S = "{j. j < 256 \<and> f ! j \<noteq> 0}"
  have "{j. j < 256 \<and> f[i := v] ! j \<noteq> 0} = insert i ?S"
    using assms by (auto simp: nth_list_update)
  moreover have "finite ?S" by simp
  ultimately show ?thesis using assms by (simp add: length_used_bytes card_insert_if)
qed

lemma count_loop_ok:
  assumes "length f = 256" and "\<And>j. j < 256 \<Longrightarrow> f ! j + count_list (map unat inp) j < 2 ^ 32"
    and "t + length inp < 2 ^ 32"
  shows "\<exists>f'. count_loop inp f (length (used_bytes f 0)) t =
      Inr (f', length (used_bytes f' 0), t + length inp) \<and> length f' = 256 \<and>
      (\<forall>j < 256. f' ! j = f ! j + count_list (map unat inp) j)"
  using assms
proof (induction inp arbitrary: f t)
  case (Cons b inp)
  let ?b = "unat b"
  let ?f = "f[?b := f ! ?b + 1]"
  have nw: "(f ! ?b + 1) mod 2 ^ 32 = f ! ?b + 1"
    using Cons.prems(2) [of ?b] by simp
  have st: "?f ! j = f ! j + (if j = ?b then 1 else 0)" if "j < 256" for j
    using Cons.prems(1) that by (simp add: nth_list_update)
  have u: "(if f ! ?b = 0 then (length (used_bytes f 0) + 1) mod 2 ^ 16 else length (used_bytes f 0)) =
      length (used_bytes ?f 0)"
    using length_used_bytes_le [of f] length_used_bytes_update [OF Cons.prems(1), of ?b "f ! ?b + 1"] by auto
  have "count_loop (b # inp) f (length (used_bytes f 0)) t = count_loop inp ?f (length (used_bytes ?f 0)) (t + 1)"
    using Cons.prems(1,3) nw u by simp
  moreover have "\<And>j. j < 256 \<Longrightarrow> ?f ! j + count_list (map unat inp) j < 2 ^ 32"
    using Cons.prems(2) st by (force split: if_splits)
  ultimately show ?case
    using Cons.IH [of ?f "t + 1"] Cons.prems(1,3) st by (auto split: if_splits)
qed simp

lemma count_list_pos: "0 < count_list xs x \<longleftrightarrow> x \<in> set xs"
  by (metis count_list_0_iff neq0_conv)

text \<open>Counting from the empty table.\<close>

lemma count_all:
  assumes "length inp < 2 ^ 32"
  obtains f where "count_loop inp (replicate 256 0) 0 0 = Inr (f, length (used_bytes f 0), length inp)"
    and "length f = 256" and "\<And>b. unat b \<in> set (used_bytes f 0) \<longleftrightarrow> b \<in> set inp"
proof -
  let ?z = "replicate 256 0 :: nat list"
  have z: "used_bytes ?z 0 = []" by (simp add: used_bytes_def)
  have "?z ! j + count_list (map unat inp) j < 2 ^ 32" if "j < 256" for j
    using count_le_length [of "map unat inp" j] assms that by simp
  then obtain f where f: "count_loop inp ?z (length (used_bytes ?z 0)) 0 = Inr (f, length (used_bytes f 0), 0 + length inp)"
      "length f = 256" "\<forall>j < 256. f ! j = ?z ! j + count_list (map unat inp) j"
    using count_loop_ok [of ?z inp 0] assms by auto
  have "unat b \<in> set (used_bytes f 0) \<longleftrightarrow> b \<in> set inp" for b
    using f(3) by (auto simp: used_bytes_def count_list_pos unat_byte_eq_iff)
  with f z show thesis using that by simp
qed

section \<open>The four byte header\<close>

lemma four_digits:
  assumes "(n :: nat) < 4294967296"
  shows "n mod 256 + 256 * (n div 256 mod 256 + 256 * (n div 65536 mod 256 + 256 * (n div 16777216 mod 256))) = n"
proof -
  have "n div 16777216 < 256" using assms by auto
  moreover have "n div 65536 = n div 256 div 256" "n div 16777216 = n div 256 div 256 div 256"
    by (simp_all add: div_mult2_eq [symmetric])
  ultimately show ?thesis by (metis add.commute mod_less mult_div_mod_eq)
qed

lemma u32_roundtrip:
  assumes "n < 2 ^ 32"
  shows "u32_of_bytes (u32_bytes n) = n"
proof -
  have "u32_bytes n = [word_of_nat n, word_of_nat (n div 256), word_of_nat (n div 65536), word_of_nat (n div 16777216)]"
    by (simp add: u32_bytes_def upt_rec)
  then show ?thesis
    using assms four_digits [of n] by (simp add: u32_of_bytes_def unat_of_nat)
qed

lemma length_u32_bytes [simp]: "length (u32_bytes n) = 4"
  by (simp add: u32_bytes_def)

section \<open>The round trip\<close>

text \<open>The bits of the data, with a code word for each byte.\<close>

definition codes_for :: "HTree \<Rightarrow> byte list \<Rightarrow> (byte \<Rightarrow> bool list) \<Rightarrow> bool" where
  "codes_for t inp cw \<longleftrightarrow> (\<forall>b \<in> set inp. (b, cw b) \<in> set (codes t))"

lemma codes_for_exists:
  assumes "set inp \<subseteq> set (leaf_values t)"
  shows "\<exists>cw. codes_for t inp cw"
proof -
  have "\<forall>b \<in> set inp. \<exists>c. (b, c) \<in> set (codes t)"
  proof
    fix b assume "b \<in> set inp"
    then have "b \<in> set (map fst (codes t))" using assms by (auto simp only: map_fst_codes)
    then show "\<exists>c. (b, c) \<in> set (codes t)" by auto
  qed
  then show ?thesis unfolding codes_for_def by metis
qed

lemma emit_all_ok:
  assumes "\<forall>b \<in> set inp. table ! unat b = Some (code_string (cw b))" and "length table = 256" and "out_ok s"
  shows "\<exists>s'. emit_all s table inp = Inr s' \<and> out_ok s' \<and> out_bits s' = out_bits s @ concat (map cw inp)"
  using assms
proof (induction inp arbitrary: s)
  case (Cons b inp)
  let ?s = "foldl WriteBit s (cw b)"
  have "EmitCode s table b = Inr ?s" using Cons.prems by (simp add: EmitCode_def emit_loop_ok)
  with Cons.IH [of ?s] Cons.prems stream_sink.put_all [of s "cw b"] show ?case by auto
qed simp

lemma decode_loop_ok:
  assumes "proper t" and "codes_for t inp cw" and "in_ok s" and "in_bits s = concat (map cw inp) @ bs"
  shows "decode_loop s t (length inp) = Inr inp"
  using assms(2-)
proof (induction inp arbitrary: s)
  case (Cons b inp)
  then obtain s' where "DecodeByte s t = Inr (Some b, s')" "in_ok s'" "in_bits s' = concat (map cw inp) @ bs"
    using DecodeByte_ok [OF assms(1), of b "cw b" s "concat (map cw inp) @ bs"] by (auto simp: codes_for_def)
  with Cons show ?case by (simp add: codes_for_def)
qed simp

lemma Compress_bits:
  assumes "inp \<noteq> []" and "length inp < 2 ^ 32" and "length junk = 256"
  obtains t cw s where "Compress junk inp = Inr (CloseBitStream s)" and "proper t" and "codes_for t inp cw"
    and "out_ok s" and "out_bits s = concat (map lsb_bits (u32_bytes (length inp))) @ tree_bits t @ concat (map cw inp)"
proof -
  obtain f where f: "count_loop inp (replicate 256 0) 0 0 = Inr (f, length (used_bytes f 0), length inp)"
      "length f = 256" "\<And>b. unat b \<in> set (used_bytes f 0) \<longleftrightarrow> b \<in> set inp"
    using count_all [OF assms(2)] by metis
  have "used_bytes f 0 \<noteq> []" using f(3) assms(1) by (metis hd_in_set empty_iff empty_set)
  then obtain t where t: "BuildHuffmanTree f (length (used_bytes f 0)) = Inr t" "proper t"
      "mset (leaf_values t) = mset (map word_of_nat (used_bytes f 0))"
    using BuildHuffmanTree_ok [OF f(2)] by blast
  have "distinct (map (word_of_nat :: nat \<Rightarrow> byte) (used_bytes f 0))"
    by (auto simp: distinct_map used_bytes_def inj_on_def word_of_nat_eq_iff take_bit_eq_mod)
  then have d: "distinct (leaf_values t)" using t(3) mset_eq_imp_distinct_iff by blast
  have lv: "set inp \<subseteq> set (leaf_values t)"
  proof
    fix b assume "b \<in> set inp"
    then have "word_of_nat (unat b) \<in> set (map (word_of_nat :: nat \<Rightarrow> byte) (used_bytes f 0))"
      unfolding set_map by (intro imageI) (simp add: f(3))
    then show "b \<in> set (leaf_values t)" using mset_eq_setD [OF t(3)] by simp
  qed
  let ?s0 = "WriteByteArray (OpenBitStream []) (u32_bytes (length inp))"
  have s0: "out_ok ?s0" "out_bits ?s0 = concat (map lsb_bits (u32_bytes (length inp)))"
    using WriteByteArray_ok [of "OpenBitStream []"] by simp_all
  obtain s1 where s1: "SerializeHuffmanTree ?s0 t = Inr s1" "out_ok s1" "out_bits s1 = out_bits ?s0 @ tree_bits t"
    using SerializeHuffmanTree_ok [OF t(2) s0(1)] by blast
  obtain table where tb: "MakeCodeTable junk t = Inr table" "length table = 256"
      "\<forall>(v, c) \<in> set (codes t). table ! unat v = Some (code_string c)"
    using MakeCodeTable_ok [OF t(2) d assms(3)] by blast
  obtain cw where cw: "codes_for t inp cw" using codes_for_exists [OF lv] by blast
  then have "\<forall>b \<in> set inp. table ! unat b = Some (code_string (cw b))"
    using tb(3) by (auto simp: codes_for_def)
  then obtain s2 where s2: "emit_all s1 table inp = Inr s2" "out_ok s2" "out_bits s2 = out_bits s1 @ concat (map cw inp)"
    using emit_all_ok [OF _ tb(2) s1(2)] by blast
  have "Compress junk inp = Inr (CloseBitStream s2)"
    using f(1) t(1) s1(1) tb(1) s2(1) by (simp add: Compress_def Let_def)
  then show thesis using that t(2) cw s2(2,3) s1(3) s0(2) by simp
qed

lemma Decompress_Compress:
  assumes "inp \<noteq> []" and "length inp < 2 ^ 32" and "length junk = 256"
  shows "\<exists>out. Compress junk inp = Inr out \<and> out \<noteq> [] \<and> Decompress out = Inr inp"
proof -
  obtain t cw s where c: "Compress junk inp = Inr (CloseBitStream s)" "proper t" "codes_for t inp cw" "out_ok s"
      "out_bits s = concat (map lsb_bits (u32_bytes (length inp))) @ tree_bits t @ concat (map cw inp)"
    using Compress_bits [OF assms] by metis
  let ?out = "CloseBitStream s"
  obtain k where k: "in_bits (OpenBitStream ?out) = out_bits s @ replicate k False"
    using CloseBitStream_bits [OF c(4)] by blast
  obtain s1 where s1: "ReadByteArray (OpenBitStream ?out) 4 = (u32_bytes (length inp), s1)" "in_ok s1"
      "in_bits s1 = tree_bits t @ concat (map cw inp) @ replicate k False"
    using ReadByteArray_ok [of "OpenBitStream ?out" "u32_bytes (length inp)" "tree_bits t @ concat (map cw inp) @ replicate k False"] k c(5)
    by auto
  obtain s2 where s2: "DeserializeHuffmanTree s1 = (t, s2)" "in_ok s2" "in_bits s2 = concat (map cw inp) @ replicate k False"
    using DeserializeHuffmanTree_ok [OF c(2) s1(2,3)] by blast
  have "Decompress ?out = Inr inp"
    using s1(1) s2(1) decode_loop_ok [OF c(2,3) s2(2,3)] u32_roundtrip [OF assms(2)] by (simp add: Decompress_def)
  moreover have "?out \<noteq> []"
  proof
    assume "?out = []"
    with k c(5) have "concat (map lsb_bits (u32_bytes (length inp))) = []"
      by (simp add: in_bits_def OpenBitStream_def)
    then show False by (simp add: u32_bytes_def lsb_bits_def upt_rec)
  qed
  ultimately show ?thesis using c(1) by blast
qed

text \<open>C7: compressing a non-empty file of less than 4 GiB runs without a fault, and decompressing the
  result gives the file back.\<close>

theorem archive_roundtrip:
  assumes "inp \<noteq> []" and "length inp < 2 ^ 32" and "length junk = 256"
  shows "\<exists>out. Compress junk inp = Inr out \<and> Decompress out = Inr inp"
  using Decompress_Compress [OF assms] by blast

theorem archive_roundtrip_witness:
  "\<exists>out. Compress (replicate 256 CHR ''x'') [1, 2, 1, 3] = Inr out \<and> Decompress out = Inr [1, 2, 1, 3]"
  by (rule archive_roundtrip) simp_all

text \<open>C8: the program run with the file arguments \<open>c\<close> and then \<open>d\<close> restores the input file.\<close>

theorem archiver_main_roundtrip:
  assumes "files a = Some inp" and "inp \<noteq> []" and "length inp < 2 ^ 32" and "length junk = 256"
    and "a \<noteq> b" and "b \<noteq> c" and "creatable b" and "creatable c"
  shows "\<exists>out. main junk [prog, ''c'', a, b] stdin files creatable = Inr out \<and>
    main junk [prog, ''d'', b, c] stdin (files(b := Some out)) creatable = Inr inp"
proof -
  obtain out where "Compress junk inp = Inr out" "out \<noteq> []" "Decompress out = Inr inp"
    using Decompress_Compress [OF assms(2-4)] by blast
  with assms show ?thesis
    by (simp add: main_def run_mode_def IsEmptyStream_def)
qed

theorem archiver_main_roundtrip_witness:
  "\<exists>out. main (replicate 256 CHR ''x'') [''huf'', ''c'', ''a'', ''b''] [] [''a'' \<mapsto> [1, 2, 1]] (\<lambda>_. True) = Inr out \<and>
    main (replicate 256 CHR ''x'') [''huf'', ''d'', ''b'', ''c''] [] ([''a'' \<mapsto> [1, 2, 1]](''b'' := Some out)) (\<lambda>_. True) =
      Inr [1, 2, 1]"
  by (rule archiver_main_roundtrip) simp_all

end
