(* ===== verification/Knapsack.thy ===== *)
theory Knapsack
  imports C_Stdio
begin

text \<open>
  \<open>C-Labs/Knapsack_problem/src\<close>: the 0/1 knapsack by dynamic programming.  The cost table is a list of
  rows; every access to it, to the weights and to the prices is checked, as is \<open>int\<close> arithmetic.  An allocation
  whose size is a negative \<open>int\<close> becomes a huge \<open>size_t\<close> and fails; the outcomes of the others are an argument.
  The program is proved to find a selection of maximal total price among those that fit.
\<close>

section \<open>Definitions\<close>

record KnapsackAnswer =
  bestTotalCost :: int
  includedItems :: "int list"
  includedItemsCount :: int

record KnapsackData =
  itemsCount :: int
  capacity :: int
  weights :: "int list"
  prices :: "int list"

datatype ErrorType = ALLOCATION_ERROR | INPUT_ERROR

definition PrintAndExitWithError :: "string \<Rightarrow> 'a res" where
  "PrintAndExitWithError msg = Inl (Exit 1 msg)"

fun ExitWithError :: "ErrorType \<Rightarrow> 'a res" where
  "ExitWithError ALLOCATION_ERROR = PrintAndExitWithError ''Allocation failed\<newline>''"
| "ExitWithError INPUT_ERROR = PrintAndExitWithError ''Wrong input\<newline>''"

definition Max_int :: "int \<Rightarrow> int \<Rightarrow> int" where
  "Max_int a b = (if a > b then a else b)"

type_synonym matrix = "int list list"

definition mat_get :: "matrix \<Rightarrow> int \<Rightarrow> int \<Rightarrow> int res" where
  "mat_get T i j = bindR (arr_geti T i) (\<lambda>row. arr_geti row j)"

definition mat_set :: "matrix \<Rightarrow> int \<Rightarrow> int \<Rightarrow> int \<Rightarrow> matrix res" where
  "mat_set T i j v = bindR (arr_geti T i) (\<lambda>row. bindR (arr_seti row j v) (\<lambda>row'. arr_seti T i row'))"

text \<open>A call of \<open>malloc\<close> or \<open>calloc\<close> for \<open>n\<close> elements and the test of its result.\<close>

definition allocate :: "mem \<Rightarrow> int \<Rightarrow> mem res" where
  "allocate mem n = (case alloc mem of (ok, mem') \<Rightarrow> if ok \<and> 0 \<le> n then Inr mem' else ExitWithError ALLOCATION_ERROR)"

fun allocate_rows :: "mem \<Rightarrow> nat \<Rightarrow> int \<Rightarrow> (matrix \<times> mem) res" where
  "allocate_rows mem 0 m = Inr ([], mem)"
| "allocate_rows mem (Suc n) m =
     bindR (allocate mem m) (\<lambda>mem.
     bindR (allocate_rows mem n m) (\<lambda>(rows, mem). Inr (replicate (nat m) 0 # rows, mem)))"

definition AllocateIntMatrix :: "mem \<Rightarrow> int \<Rightarrow> int \<Rightarrow> (matrix \<times> mem) res" where
  "AllocateIntMatrix mem n m = bindR (allocate mem n) (\<lambda>mem. allocate_rows mem (nat n) m)"

definition GetBestTotalCost :: "matrix \<Rightarrow> KnapsackData \<Rightarrow> int \<Rightarrow> int \<Rightarrow> int res" where
  "GetBestTotalCost costTable data step load =
     bindR (arr_geti (weights data) (step - 1)) (\<lambda>w.
     bindR (arr_geti (prices data) (step - 1)) (\<lambda>p.
     bindR (mat_get costTable (step - 1) load) (\<lambda>leaveItem.
     bindR (ckd (load - w)) (\<lambda>rest.
     if rest \<ge> 0 then
       bindR (mat_get costTable (step - 1) rest) (\<lambda>v.
       bindR (ckd (v + p)) (\<lambda>takeItem.
       Inr (Max_int leaveItem takeItem)))
     else Inr leaveItem))))"

function load_loop :: "KnapsackData \<Rightarrow> int \<Rightarrow> int \<Rightarrow> matrix \<Rightarrow> matrix res" where
  "load_loop data step load costTable =
     (if load \<le> capacity data then
        bindR (GetBestTotalCost costTable data step load) (\<lambda>v.
        bindR (mat_set costTable step load v) (\<lambda>costTable'.
        load_loop data step (load + 1) costTable'))
      else Inr costTable)"
  by pat_completeness auto
termination
  by (relation "measure (\<lambda>(data, step, load, T). nat (capacity data + 1 - load))") auto

function step_loop :: "KnapsackData \<Rightarrow> int \<Rightarrow> matrix \<Rightarrow> matrix res" where
  "step_loop data step costTable =
     (if step \<le> itemsCount data then
        bindR (load_loop data step 0 costTable) (\<lambda>costTable'.
        step_loop data (step + 1) costTable')
      else Inr costTable)"
  by pat_completeness auto
termination
  by (relation "measure (\<lambda>(data, step, T). nat (itemsCount data + 1 - step))") auto

declare load_loop.simps [simp del] step_loop.simps [simp del]

text \<open>The two loops of \<open>CollectIncludedItems\<close>: the first goes back through the table, the second lists the
  marked items in the array of \<open>cnt\<close> cells.\<close>

function mark_loop :: "matrix \<Rightarrow> KnapsackData \<Rightarrow> int \<Rightarrow> int \<Rightarrow> bool list \<Rightarrow> int \<Rightarrow> (bool list \<times> int) res" where
  "mark_loop costTable data step load included cnt =
     (if step > 0 then
        bindR (mat_get costTable step load) (\<lambda>a.
        bindR (mat_get costTable (step - 1) load) (\<lambda>b.
        if a = b then
          bindR (arr_seti included (step - 1) False) (\<lambda>included'.
          mark_loop costTable data (step - 1) load included' cnt)
        else
          bindR (arr_seti included (step - 1) True) (\<lambda>included'.
          bindR (arr_geti (weights data) (step - 1)) (\<lambda>w.
          bindR (ckd (load - w)) (\<lambda>load'.
          mark_loop costTable data (step - 1) load' included' (cnt + 1))))))
      else Inr (included, cnt))"
  by pat_completeness auto
termination
  by (relation "measure (\<lambda>(T, data, step, load, included, cnt). nat step)") auto

declare mark_loop.simps [simp del]

function list_loop :: "KnapsackData \<Rightarrow> bool list \<Rightarrow> int \<Rightarrow> int \<Rightarrow> int list \<Rightarrow> int list res" where
  "list_loop data included cnt i items =
     (if i < itemsCount data then
        bindR (arr_geti included i) (\<lambda>inc.
        if inc then
          (if int (length items) < cnt then list_loop data included cnt (i + 1) (items @ [i])
           else Inl Undefined)
        else list_loop data included cnt (i + 1) items)
      else Inr items)"
  by pat_completeness auto
termination
  by (relation "measure (\<lambda>(data, included, cnt, i, items). nat (itemsCount data - i))") auto

declare list_loop.simps [simp del]

definition CollectIncludedItems :: "mem \<Rightarrow> matrix \<Rightarrow> KnapsackData \<Rightarrow> KnapsackAnswer \<Rightarrow> KnapsackAnswer res" where
  "CollectIncludedItems mem costTable data ans =
     bindR (allocate mem (itemsCount data)) (\<lambda>mem.
     bindR (mark_loop costTable data (itemsCount data) (capacity data)
              (replicate (nat (itemsCount data)) False) (includedItemsCount ans)) (\<lambda>(included, cnt).
     bindR (allocate mem cnt) (\<lambda>mem.
     bindR (list_loop data included cnt 0 []) (\<lambda>items.
     Inr (ans\<lparr>includedItems := items, includedItemsCount := cnt\<rparr>)))))"

definition KnapsackProblem :: "mem \<Rightarrow> int list \<Rightarrow> int list \<Rightarrow> int \<Rightarrow> int \<Rightarrow> KnapsackAnswer res" where
  "KnapsackProblem mem ws ps n cap =
     bindR (ckd (n + 1)) (\<lambda>rows.
     bindR (ckd (cap + 1)) (\<lambda>cols.
     bindR (AllocateIntMatrix mem rows cols) (\<lambda>(costTable, mem).
     let data = \<lparr>itemsCount = n, capacity = cap, weights = ws, prices = ps\<rparr> in
     bindR (step_loop data 1 costTable) (\<lambda>costTable'.
     bindR (allocate mem 1) (\<lambda>mem.
     bindR (mat_get costTable' n cap) (\<lambda>best.
     CollectIncludedItems mem costTable' data
       \<lparr>bestTotalCost = best, includedItems = [], includedItemsCount = 0\<rparr>))))))"

fun read_items :: "nat \<Rightarrow> string \<Rightarrow> (int list \<times> int list) res" where
  "read_items 0 s = Inr ([], [])"
| "read_items (Suc n) s =
     (case scanf_i s of
        Item w s1 \<Rightarrow>
          (case scanf_i s1 of
             Item p s2 \<Rightarrow> bindR (read_items n s2) (\<lambda>(ws, ps). Inr (w # ws, p # ps))
           | _ \<Rightarrow> ExitWithError INPUT_ERROR)
      | _ \<Rightarrow> ExitWithError INPUT_ERROR)"

fun print_items :: "int list \<Rightarrow> int list \<Rightarrow> int list \<Rightarrow> string res" where
  "print_items ws ps [] = Inr []"
| "print_items ws ps (item # items) =
     bindR (arr_geti ws item) (\<lambda>w.
     bindR (arr_geti ps item) (\<lambda>p.
     bindR (print_items ws ps items) (\<lambda>out.
     Inr (show_int w @ '' '' @ show_int p @ ''\<newline>'' @ out))))"

definition main :: "mem \<Rightarrow> string \<Rightarrow> string res" where
  "main mem stdin =
     (case scanf_i stdin of
        Item n s1 \<Rightarrow>
          (case scanf_i s1 of
             Item cap s2 \<Rightarrow>
               bindR (allocate mem n) (\<lambda>mem.
               bindR (allocate mem n) (\<lambda>mem.
               bindR (read_items (nat n) s2) (\<lambda>(ws, ps).
               bindR (KnapsackProblem mem ws ps n cap) (\<lambda>ans.
               bindR (print_items ws ps (includedItems ans)) (\<lambda>out.
               Inr (show_int (bestTotalCost ans) @ ''\<newline>'' @ out))))))
           | _ \<Rightarrow> ExitWithError INPUT_ERROR)
      | _ \<Rightarrow> ExitWithError INPUT_ERROR)"

section \<open>The optimum\<close>

text \<open>The best total price with the first \<open>i\<close> items and the capacity \<open>c\<close>.\<close>

fun best :: "int list \<Rightarrow> int list \<Rightarrow> nat \<Rightarrow> int \<Rightarrow> int" where
  "best ws ps 0 c = 0"
| "best ws ps (Suc i) c =
     (if ws ! i \<le> c then max (best ws ps i c) (best ws ps i (c - ws ! i) + ps ! i) else best ws ps i c)"

abbreviation total :: "int list \<Rightarrow> nat set \<Rightarrow> int" where
  "total xs S \<equiv> (\<Sum>i \<in> S. xs ! i)"

lemma subset_Suc_cases:
  assumes "S \<subseteq> {..<Suc i}"
  obtains "S \<subseteq> {..<i}" | S' where "S' \<subseteq> {..<i}" and "S = insert i S'" and "i \<notin> S'"
  using assms by (cases "i \<in> S") (auto simp: less_Suc_eq subset_iff lessThan_Suc intro: that(2) [of "S - {i}"])

lemma total_insert: "S \<subseteq> {..<i} \<Longrightarrow> i \<notin> S \<Longrightarrow> total xs (insert i S) = xs ! i + total xs S"
  by (meson finite_lessThan finite_subset sum.insert)

lemma best_upper:
  "S \<subseteq> {..<i} \<Longrightarrow> total ws S \<le> c \<Longrightarrow> (\<And>j. j < i \<Longrightarrow> 0 \<le> ws ! j) \<Longrightarrow> total ps S \<le> best ws ps i c"
proof (induction i arbitrary: S c)
  case (Suc i)
  from Suc.prems(1) show ?case
  proof (cases rule: subset_Suc_cases)
    case 1
    then have "total ps S \<le> best ws ps i c" using Suc by simp
    then show ?thesis by auto
  next
    case (2 S')
    have t: "total ws S = ws ! i + total ws S'" "total ps S = ps ! i + total ps S'"
      using 2 total_insert by auto
    moreover have "0 \<le> total ws S'" using 2 Suc.prems(3) by (intro sum_nonneg) auto
    moreover have "total ps S' \<le> best ws ps i (c - ws ! i)"
      using Suc.IH [OF 2(1)] Suc.prems(2,3) t by simp
    ultimately show ?thesis using Suc.prems(2) by simp
  qed
qed simp

lemma best_bounds:
  "i \<le> length ps \<Longrightarrow> 0 \<le> best ws ps i c \<and> best ws ps i c \<le> (\<Sum>j<i. \<bar>ps ! j\<bar>)"
proof (induction i arbitrary: c)
  case (Suc i)
  then have "0 \<le> best ws ps i c" "best ws ps i c \<le> (\<Sum>j<i. \<bar>ps ! j\<bar>)"
    "best ws ps i (c - ws ! i) \<le> (\<Sum>j<i. \<bar>ps ! j\<bar>)" by auto
  then show ?case by (auto simp: max_def)
qed simp

section \<open>The table\<close>

text \<open>Inputs on which no \<open>int\<close> overflows, and the data record for them.\<close>

definition knapsack_input :: "int list \<Rightarrow> int list \<Rightarrow> nat \<Rightarrow> nat \<Rightarrow> bool" where
  "knapsack_input ws ps n c \<longleftrightarrow> length ws = n \<and> length ps = n \<and> int n + 1 < 2 ^ 31 \<and> int c + 1 < 2 ^ 31 \<and>
     (\<forall>w \<in> set ws. 0 \<le> w \<and> w < 2 ^ 31) \<and> (\<Sum>p \<leftarrow> ps. \<bar>p\<bar>) < 2 ^ 31"

abbreviation kdata :: "int list \<Rightarrow> int list \<Rightarrow> nat \<Rightarrow> nat \<Rightarrow> KnapsackData" where
  "kdata ws ps n c \<equiv> \<lparr>itemsCount = int n, capacity = int c, weights = ws, prices = ps\<rparr>"

text \<open>The table is right up to row \<open>s\<close>, column \<open>l\<close>.\<close>

definition filled :: "int list \<Rightarrow> int list \<Rightarrow> nat \<Rightarrow> nat \<Rightarrow> nat \<Rightarrow> nat \<Rightarrow> matrix \<Rightarrow> bool" where
  "filled ws ps n c s l T \<longleftrightarrow> length T = Suc n \<and> (\<forall>i \<le> n. length (T ! i) = Suc c) \<and>
     (\<forall>i j. i \<le> n \<longrightarrow> j \<le> c \<longrightarrow> i < s \<or> i = s \<and> j < l \<longrightarrow> T ! i ! j = best ws ps i (int j))"

lemma mat_get_in:
  "i < length T \<Longrightarrow> j < length (T ! i) \<Longrightarrow> mat_get T (int i) (int j) = Inr (T ! i ! j)"
  by (simp add: mat_get_def)

lemma mat_set_in:
  "i < length T \<Longrightarrow> j < length (T ! i) \<Longrightarrow> mat_set T (int i) (int j) v = Inr (T[i := (T ! i)[j := v]])"
  by (simp add: mat_set_def)

lemma filled_value:
  "filled ws ps n c s l T \<Longrightarrow> i \<le> n \<Longrightarrow> j \<le> c \<Longrightarrow> i < s \<or> i = s \<and> j < l \<Longrightarrow> T ! i ! j = best ws ps i (int j)"
  unfolding filled_def by blast

lemma filled_length: "filled ws ps n c s l T \<Longrightarrow> length T = Suc n \<and> (\<forall>i \<le> n. length (T ! i) = Suc c)"
  unfolding filled_def by blast

lemma filledI:
  "length T = Suc n \<Longrightarrow> (\<And>i. i \<le> n \<Longrightarrow> length (T ! i) = Suc c) \<Longrightarrow>
   (\<And>i j. i \<le> n \<Longrightarrow> j \<le> c \<Longrightarrow> i < s \<or> i = s \<and> j < l \<Longrightarrow> T ! i ! j = best ws ps i (int j)) \<Longrightarrow>
   filled ws ps n c s l T"
  unfolding filled_def by blast

lemma filled_get:
  "filled ws ps n c s l T \<Longrightarrow> i \<le> n \<Longrightarrow> j \<le> c \<Longrightarrow> i < s \<or> i = s \<and> j < l \<Longrightarrow>
   mat_get T (int i) (int j) = Inr (best ws ps i (int j))"
  using filled_value [of ws ps n c s l T i j] filled_length [of ws ps n c s l T]
  by (simp only: mat_get_in less_Suc_eq_le)

lemma prices_sum: "(\<Sum>p \<leftarrow> ps. \<bar>p\<bar>) = (\<Sum>j < length ps. \<bar>ps ! j\<bar>)"
  by (simp add: sum_list_sum_nth atLeast0LessThan)

lemma take_fits:
  assumes "knapsack_input ws ps n c" and "s < n"
  shows "in_int32 (best ws ps s l + ps ! s)"
proof -
  have "0 \<le> best ws ps s l" "best ws ps s l \<le> (\<Sum>j<s. \<bar>ps ! j\<bar>)"
    using best_bounds [of s ps ws l] assms by (auto simp: knapsack_input_def)
  moreover have "(\<Sum>j < Suc s. \<bar>ps ! j\<bar>) \<le> (\<Sum>j < length ps. \<bar>ps ! j\<bar>)"
    using assms by (intro sum_mono2) (auto simp: knapsack_input_def)
  ultimately show ?thesis using assms(1) by (auto simp: in_int32_def knapsack_input_def prices_sum)
qed

lemma load_fits:
  assumes "knapsack_input ws ps n c" and "s < n" and "l \<le> c"
  shows "in_int32 (int l - ws ! s)" and "0 \<le> ws ! s"
  using assms by (auto simp: knapsack_input_def in_int32_def dest!: bspec [of _ _ "ws ! s"])

lemma GetBestTotalCost_ok:
  assumes "knapsack_input ws ps n c" and "filled ws ps n c (Suc s) l T" and "s < n" and "l \<le> c"
  shows "GetBestTotalCost T (kdata ws ps n c) (int (Suc s)) (int l) = Inr (best ws ps (Suc s) (int l))"
proof -
  have len: "s < length ws" "s < length ps" using assms(1,3) by (auto simp: knapsack_input_def)
  have leave: "mat_get T (int s) (int l) = Inr (best ws ps s (int l))"
    using filled_get [OF assms(2), of s l] assms by simp
  show ?thesis
  proof (cases "ws ! s \<le> int l")
    case True
    let ?r = "nat (int l - ws ! s)"
    have r: "int ?r = int l - ws ! s" "?r \<le> c"
      using True load_fits [OF assms(1,3,4)] assms(4) by auto
    then have "mat_get T (int s) (int l - ws ! s) = Inr (best ws ps s (int l - ws ! s))"
      using filled_get [OF assms(2), of s ?r] assms(3) by simp
    then show ?thesis
      using True len leave load_fits [OF assms(1,3,4)] take_fits [OF assms(1,3)]
      by (simp add: GetBestTotalCost_def Max_int_def max_def)
  next
    case False
    then show ?thesis
      using len leave load_fits [OF assms(1,3,4)] by (simp add: GetBestTotalCost_def)
  qed
qed

lemma filled_set:
  assumes "filled ws ps n c s l T" and "s \<le> n" and "l \<le> c"
  shows "filled ws ps n c s (Suc l) (T[s := (T ! s)[l := best ws ps s (int l)]])"
proof (rule filledI)
  note len = filled_length [OF assms(1)]
  show "length (T[s := (T ! s)[l := best ws ps s (int l)]]) = Suc n" using len by simp
  show "length (T[s := (T ! s)[l := best ws ps s (int l)]] ! i) = Suc c" if "i \<le> n" for i
    using len that assms(2) by (cases "i = s") simp_all
  show "T[s := (T ! s)[l := best ws ps s (int l)]] ! i ! j = best ws ps i (int j)"
    if "i \<le> n" "j \<le> c" "i < s \<or> i = s \<and> j < Suc l" for i j
  proof (cases "i = s \<and> j = l")
    case True
    then show ?thesis using len assms(2,3) by simp
  next
    case False
    then have "T ! i ! j = best ws ps i (int j)" using that by (intro filled_value [OF assms(1)]) auto
    with False that len assms(2) show ?thesis by (cases "i = s") auto
  qed
qed

lemma load_loop_ok:
  assumes "knapsack_input ws ps n c" and "filled ws ps n c (Suc s) l T" and "s < n" and "l \<le> Suc c"
  shows "\<exists>T'. load_loop (kdata ws ps n c) (int (Suc s)) (int l) T = Inr T' \<and> filled ws ps n c (Suc s) (Suc c) T'"
  using assms(2,4)
proof (induction "Suc c - l" arbitrary: l T)
  case 0
  then show ?case by (auto simp: load_loop.simps)
next
  case (Suc d)
  then have l: "l \<le> c" by simp
  let ?T = "T[Suc s := (T ! Suc s)[l := best ws ps (Suc s) (int l)]]"
  have "filled ws ps n c (Suc s) (Suc l) ?T" using filled_set [OF Suc.prems(1)] assms(3) l by simp
  then obtain T' where "load_loop (kdata ws ps n c) (int (Suc s)) (int (Suc l)) ?T = Inr T'"
      "filled ws ps n c (Suc s) (Suc c) T'"
  proof -
    have "d = Suc c - Suc l" using Suc.hyps(2) l by simp
    with that Suc.hyps(1) [of "Suc l" ?T] l \<open>filled ws ps n c (Suc s) (Suc l) ?T\<close> show ?thesis by auto
  qed
  moreover have "mat_set T (int (Suc s)) (int l) v = Inr (T[Suc s := (T ! Suc s)[l := v]])" for v
    using Suc.prems(1) assms(3) l by (intro mat_set_in) (auto simp: filled_def)
  ultimately show ?case
    using l GetBestTotalCost_ok [OF assms(1) Suc.prems(1) assms(3) l]
    by (subst load_loop.simps) (simp add: add.commute del: best.simps)
qed

lemma filled_next: "filled ws ps n c s (Suc c) T \<Longrightarrow> filled ws ps n c (Suc s) 0 T"
  using filled_length filled_value by (intro filledI) (auto simp: less_Suc_eq_le order.order_iff_strict)

lemma step_loop_ok:
  assumes "knapsack_input ws ps n c" and "filled ws ps n c s (Suc c) T" and "s \<le> n"
  shows "\<exists>T'. step_loop (kdata ws ps n c) (int s + 1) T = Inr T' \<and> filled ws ps n c n (Suc c) T'"
  using assms(2,3)
proof (induction "n - s" arbitrary: s T)
  case 0
  then show ?case by (auto simp: step_loop.simps)
next
  case (Suc d)
  then have s: "s < n" by simp
  obtain T1 where T1: "load_loop (kdata ws ps n c) (int (Suc s)) (int 0) T = Inr T1" "filled ws ps n c (Suc s) (Suc c) T1"
    using load_loop_ok [OF assms(1) filled_next [OF Suc.prems(1)] s] by blast
  obtain T' where "step_loop (kdata ws ps n c) (int (Suc s) + 1) T1 = Inr T'" "filled ws ps n c n (Suc c) T'"
  proof -
    have "d = n - Suc s" using Suc.hyps(2) by simp
    with that Suc.hyps(1) [of "Suc s" T1] T1(2) s show ?thesis by auto
  qed
  with T1(1) s show ?case by (subst step_loop.simps) (simp add: add.commute)
qed

section \<open>Collecting the items\<close>

lemma mark_loop_ok:
  assumes "knapsack_input ws ps n c" and "filled ws ps n c n (Suc c) T"
    and "s \<le> n" and "l \<le> c" and "length inc = n"
  shows "\<exists>inc' S. mark_loop T (kdata ws ps n c) (int s) (int l) inc cnt = Inr (inc', cnt + int (card S)) \<and>
    length inc' = n \<and> S \<subseteq> {..<s} \<and> (\<forall>j < n. inc' ! j \<longleftrightarrow> (if j < s then j \<in> S else inc ! j)) \<and>
    total ws S \<le> int l \<and> total ps S = best ws ps s (int l)"
  using assms(3-5)
proof (induction s arbitrary: l inc cnt)
  case 0
  then show ?case by (simp add: mark_loop.simps)
next
  case (Suc s)
  have s: "s < n" using Suc.prems by simp
  have T: "mat_get T (int (Suc s)) (int l) = Inr (best ws ps (Suc s) (int l))"
    "mat_get T (int s) (int l) = Inr (best ws ps s (int l))"
    using Suc.prems by (intro filled_get [OF assms(2)]; linarith)+
  show ?case
  proof (cases "best ws ps (Suc s) (int l) = best ws ps s (int l)")
    case True
    obtain inc' S where i: "mark_loop T (kdata ws ps n c) (int s) (int l) (inc[s := False]) cnt = Inr (inc', cnt + int (card S))"
        "length inc' = n" "S \<subseteq> {..<s}" "\<forall>j < n. inc' ! j \<longleftrightarrow> (if j < s then j \<in> S else inc[s := False] ! j)"
        "total ws S \<le> int l" "total ps S = best ws ps s (int l)"
      using Suc.IH [of l "inc[s := False]" cnt] Suc.prems by auto
    have "mark_loop T (kdata ws ps n c) (int (Suc s)) (int l) inc cnt = Inr (inc', cnt + int (card S))"
      using T True i(1) s Suc.prems by (subst mark_loop.simps) (simp del: best.simps)
    moreover have "\<forall>j < n. inc' ! j \<longleftrightarrow> (if j < Suc s then j \<in> S else inc ! j)"
      using i(3,4) Suc.prems s by (auto simp: less_Suc_eq)
    moreover have "S \<subseteq> {..<Suc s}" using i(3) by auto
    ultimately show ?thesis using i True by (auto simp del: best.simps)
  next
    case False
    then have w: "ws ! s \<le> int l" and b: "best ws ps (Suc s) (int l) = best ws ps s (int l - ws ! s) + ps ! s"
      by (auto split: if_splits)
    let ?r = "nat (int l - ws ! s)"
    have r: "int ?r = int l - ws ! s" "?r \<le> c"
      using w load_fits [OF assms(1) s Suc.prems(2)] Suc.prems(2) by auto
    obtain inc' S where i: "mark_loop T (kdata ws ps n c) (int s) (int ?r) (inc[s := True]) (cnt + 1) =
          Inr (inc', cnt + 1 + int (card S))"
        "length inc' = n" "S \<subseteq> {..<s}" "\<forall>j < n. inc' ! j \<longleftrightarrow> (if j < s then j \<in> S else inc[s := True] ! j)"
        "total ws S \<le> int ?r" "total ps S = best ws ps s (int ?r)"
      using Suc.IH [of ?r "inc[s := True]" "cnt + 1"] Suc.prems r by auto
    have fin: "finite S" "s \<notin> S" using i(3) finite_subset by auto
    have "mark_loop T (kdata ws ps n c) (int (Suc s)) (int l) inc cnt = Inr (inc', cnt + int (card (insert s S)))"
      using T False i(1) s Suc.prems fin r(1) load_fits [OF assms(1) s Suc.prems(2)] assms(1)
      by (subst mark_loop.simps) (simp add: knapsack_input_def del: best.simps)
    moreover have "\<forall>j < n. inc' ! j \<longleftrightarrow> (if j < Suc s then j \<in> insert s S else inc ! j)"
      using i(3,4) Suc.prems s by (auto simp: less_Suc_eq)
    moreover have "insert s S \<subseteq> {..<Suc s}" using i(3) by auto
    moreover have "total ws (insert s S) \<le> int l" "total ps (insert s S) = best ws ps (Suc s) (int l)"
      using i(5,6) r(1) fin b by simp_all
    ultimately show ?thesis using i(2) by blast
  qed
qed

lemma list_loop_ok:
  assumes "length inc = n" and "i \<le> n" and "int (length items + length (filter (\<lambda>j. inc ! j) [i..<n])) \<le> cnt"
  shows "list_loop (kdata ws ps n c) inc cnt (int i) items = Inr (items @ map int (filter (\<lambda>j. inc ! j) [i..<n]))"
  using assms(2,3)
proof (induction "n - i" arbitrary: i items)
  case 0
  then show ?case by (simp add: list_loop.simps)
next
  case (Suc d)
  then have i: "i < n" "[i..<n] = i # [Suc i..<n]" by (auto simp: upt_conv_Cons)
  show ?case
  proof (cases "inc ! i")
    case True
    then have "list_loop (kdata ws ps n c) inc cnt (int (Suc i)) (items @ [int i]) =
        Inr ((items @ [int i]) @ map int (filter (\<lambda>j. inc ! j) [Suc i..<n]))"
      using Suc i by (intro Suc.hyps(1)) auto
    with True i Suc.prems assms(1) show ?thesis by (subst list_loop.simps) (simp add: add.commute)
  next
    case False
    then have "list_loop (kdata ws ps n c) inc cnt (int (Suc i)) items =
        Inr (items @ map int (filter (\<lambda>j. inc ! j) [Suc i..<n]))"
      using Suc i by (intro Suc.hyps(1)) auto
    with False i assms(1) show ?thesis by (subst list_loop.simps) (simp add: add.commute)
  qed
qed

lemma filter_upt_set:
  assumes "S \<subseteq> {..<n}" and "\<forall>j < n. P j \<longleftrightarrow> j \<in> S"
  shows "filter P [0..<n] = sorted_list_of_set S"
proof -
  have "set (filter P [0..<n]) = S" using assms by auto
  moreover have "sorted (filter P [0..<n])" by (rule sorted_wrt_filter) simp
  moreover have "distinct (filter P [0..<n])" by simp
  ultimately show ?thesis by (metis sorted_list_of_set.idem_if_sorted_distinct)
qed

section \<open>Allocations\<close>

lemma alloc_head: "alloc mem = (False \<notin> set (take 1 mem), drop 1 mem)"
  by (cases mem) (auto simp: alloc_def)

lemma allocate_eq:
  "0 \<le> n \<Longrightarrow> allocate mem n = (if False \<in> set (take 1 mem) then ExitWithError ALLOCATION_ERROR else Inr (drop 1 mem))"
  by (simp add: allocate_def alloc_head)

lemma fails_add: "False \<in> set (take (k + l) mem) \<longleftrightarrow> False \<in> set (take k mem) \<or> False \<in> set (take l (drop k mem))"
  by (simp add: take_add)

lemma allocate_rows_eq:
  "0 \<le> m \<Longrightarrow> allocate_rows mem n m =
     (if False \<in> set (take n mem) then ExitWithError ALLOCATION_ERROR
      else Inr (replicate n (replicate (nat m) 0), drop n mem))"
proof (induction n arbitrary: mem)
  case (Suc n)
  then show ?case using fails_add [of 1 n mem] by (simp add: allocate_eq PrintAndExitWithError_def)
qed simp

lemma AllocateIntMatrix_eq:
  "0 \<le> m \<Longrightarrow> AllocateIntMatrix mem (int n) m =
     (if False \<in> set (take (1 + n) mem) then ExitWithError ALLOCATION_ERROR
      else Inr (replicate n (replicate (nat m) 0), drop (1 + n) mem))"
  unfolding fails_add by (simp add: AllocateIntMatrix_def allocate_eq allocate_rows_eq PrintAndExitWithError_def)

section \<open>Optimality\<close>

text \<open>C9: for non-negative weights and prices that do not overflow, the answer lists, in ascending order, items
  that fit into the knapsack and whose prices add up to the reported cost, and no other set of items that fits
  costs more.  If one of the \<open>n + 5\<close> allocations fails, the program ends with the message for that.\<close>

theorem KnapsackProblem_optimal:
  assumes "knapsack_input ws ps n c"
  shows "if False \<in> set (take (n + 5) mem) then KnapsackProblem mem ws ps (int n) (int c) = ExitWithError ALLOCATION_ERROR
    else \<exists>ans S. KnapsackProblem mem ws ps (int n) (int c) = Inr ans \<and>
      includedItems ans = map int (sorted_list_of_set S) \<and> includedItemsCount ans = int (card S) \<and>
      S \<subseteq> {..<n} \<and> total ws S \<le> int c \<and> total ps S = bestTotalCost ans \<and>
      (\<forall>S' \<subseteq> {..<n}. total ws S' \<le> int c \<longrightarrow> total ps S' \<le> bestTotalCost ans)"
proof -
  let ?T0 = "replicate (Suc n) (replicate (Suc c) 0) :: matrix"
  have "filled ws ps n c 0 (Suc c) ?T0" by (auto simp: filled_def simp del: replicate_Suc)
  from step_loop_ok [OF assms this] obtain T where T: "step_loop (kdata ws ps n c) 1 ?T0 = Inr T" "filled ws ps n c n (Suc c) T"
    by auto
  obtain inc S where m: "mark_loop T (kdata ws ps n c) (int n) (int c) (replicate n False) 0 = Inr (inc, int (card S))"
      "length inc = n" "S \<subseteq> {..<n}" "\<forall>j < n. inc ! j \<longleftrightarrow> j \<in> S" "total ws S \<le> int c" "total ps S = best ws ps n (int c)"
    using mark_loop_ok [OF assms T(2), of n c "replicate n False" 0] by auto
  have f: "filter (\<lambda>j. inc ! j) [0..<n] = sorted_list_of_set S" using m(3,4) by (rule filter_upt_set)
  have l: "list_loop (kdata ws ps n c) inc (int (card S)) 0 [] = Inr (map int (sorted_list_of_set S))"
    using list_loop_ok [OF m(2), of 0 "[]"] f by simp
  have g: "mat_get T (int n) (int c) = Inr (best ws ps n (int c))" using filled_get [OF T(2)] by simp
  have b: "ckd (int n + 1) = Inr (int (Suc n))" "ckd (int c + 1) = Inr (int (Suc c))"
    using assms by (simp_all add: knapsack_input_def in_int32_def)
  have "n + 5 = 1 + Suc n + 1 + 1 + 1" by simp
  then have "KnapsackProblem mem ws ps (int n) (int c) =
      (if False \<in> set (take (n + 5) mem) then ExitWithError ALLOCATION_ERROR
       else Inr \<lparr>bestTotalCost = best ws ps n (int c), includedItems = map int (sorted_list_of_set S), includedItemsCount = int (card S)\<rparr>)"
    unfolding \<open>n + 5 = _\<close> fails_add [of "1 + Suc n + 1 + 1"] fails_add [of "1 + Suc n + 1"] fails_add [of "1 + Suc n"]
    using T(1) m(1) l g b
    by (simp add: KnapsackProblem_def CollectIncludedItems_def AllocateIntMatrix_eq allocate_eq PrintAndExitWithError_def
        del: of_nat_Suc replicate_Suc)
  moreover have "\<forall>S' \<subseteq> {..<n}. total ws S' \<le> int c \<longrightarrow> total ps S' \<le> best ws ps n (int c)"
    using best_upper assms by (auto simp: knapsack_input_def)
  ultimately show ?thesis using m(3,5,6) by auto
qed

theorem KnapsackProblem_optimal_witness:
  "(\<exists>ans S. KnapsackProblem [] [3, 4, 5] [4, 5, 7] (int 3) (int 7) = Inr ans \<and>
    includedItems ans = map int (sorted_list_of_set S) \<and> includedItemsCount ans = int (card S) \<and>
    S \<subseteq> {..<3} \<and> total [3, 4, 5] S \<le> int 7 \<and> total [4, 5, 7] S = bestTotalCost ans \<and>
    (\<forall>S' \<subseteq> {..<3}. total [3, 4, 5] S' \<le> int 7 \<longrightarrow> total [4, 5, 7] S' \<le> bestTotalCost ans)) \<and>
   KnapsackProblem [True, True, False] [3, 4, 5] [4, 5, 7] (int 3) (int 7) = ExitWithError ALLOCATION_ERROR"
proof -
  have i: "knapsack_input [3, 4, 5] [4, 5, 7] 3 7" by (simp add: knapsack_input_def)
  show ?thesis using KnapsackProblem_optimal [OF i, of "[]"] KnapsackProblem_optimal [OF i, of "[True, True, False]"] by simp
qed

end
