(* ===== verification/Permutations.thy ===== *)
theory Permutations
  imports C_Stdio "HOL-Library.List_Lexorder"
begin

text \<open>
  \<open>C-Labs/Permutations_generator/src/main.c\<close>: the next permutation in lexicographic order.  The sequence
  is the list of the character codes; pointers into it are indices.
\<close>

section \<open>Definitions\<close>

definition badInput :: "string \<Rightarrow> 'a res" where
  "badInput printed = Inl (Exit 0 (printed @ ''bad input\<newline>''))"

text \<open>The inner loop compares with all earlier positions.\<close>

fun earlier_equal :: "string \<Rightarrow> nat \<Rightarrow> nat \<Rightarrow> bool" where
  "earlier_equal str p1 0 = False"
| "earlier_equal str p1 (Suc k) = (str ! k = str ! p1 \<or> earlier_equal str p1 k)"

definition hasRepeatedSymbols :: "string \<Rightarrow> bool" where
  "hasRepeatedSymbols str = list_ex (\<lambda>p1. earlier_equal str p1 p1) [0..<length str]"

definition validateSequence :: "string \<Rightarrow> unit res" where
  "validateSequence seq =
     (if list_ex (\<lambda>c. chr_code c < 48 \<or> chr_code c > 57) seq then badInput []
      else if hasRepeatedSymbols seq then badInput []
      else Inr ())"

definition swap :: "int list \<Rightarrow> nat \<Rightarrow> nat \<Rightarrow> int list res" where
  "swap s a b =
     bindR (arr_get s a) (\<lambda>tmp.
     bindR (arr_get s b) (\<lambda>vb.
     bindR (arr_set s a vb) (\<lambda>s'. arr_set s' b tmp)))"

function reverse :: "int list \<Rightarrow> nat \<Rightarrow> nat \<Rightarrow> int list res" where
  "reverse s start fin =
     (if start < fin then bindR (swap s start fin) (\<lambda>s'. reverse s' (start + 1) (fin - 1))
      else Inr s)"
  by pat_completeness auto
termination
  by (relation "measure (\<lambda>(s, start, fin). fin - start)") auto

text \<open>The search for an ascending pair from the end: \<open>None\<close> when the start is passed.\<close>

fun find_pair :: "int list \<Rightarrow> nat \<Rightarrow> nat option res" where
  "find_pair s p =
     bindR (arr_get s p) (\<lambda>a.
     bindR (arr_get s (p + 1)) (\<lambda>b.
     if a \<ge> b then (if p = 0 then Inr None else find_pair s (p - 1)) else Inr (Some p)))"

fun find_lo :: "int list \<Rightarrow> nat \<Rightarrow> nat \<Rightarrow> nat res" where
  "find_lo s p lo =
     bindR (arr_get s lo) (\<lambda>a.
     bindR (arr_get s p) (\<lambda>b.
     if a \<le> b then (if lo = 0 then Inl Undefined else find_lo s p (lo - 1)) else Inr lo))"

declare reverse.simps [simp del] find_pair.simps [simp del] find_lo.simps [simp del]

definition makeNextPermutation :: "int list \<Rightarrow> (int \<times> int list) res" where
  "makeNextPermutation sequence =
     (let sz = length sequence in
      if sz = 0 then Inl Undefined
      else if sz = 1 then Inr (-1, sequence)
      else
        bindR (find_pair sequence (sz - 2)) (\<lambda>r.
        case r of
          None \<Rightarrow> Inr (-1, sequence)
        | Some p \<Rightarrow>
            bindR (find_lo sequence p (sz - 1)) (\<lambda>lo.
            bindR (swap sequence p lo) (\<lambda>s1.
            bindR (reverse s1 (p + 1) (sz - 1)) (\<lambda>s2.
            Inr (1, s2))))))"

definition codes_string :: "int list \<Rightarrow> string" where
  "codes_string s = map (\<lambda>c. char_of (nat c)) s"

text \<open>The loop that prints at most \<open>n\<close> further permutations.\<close>

fun print_loop :: "int list \<Rightarrow> nat \<Rightarrow> string res" where
  "print_loop sequence 0 = Inr []"
| "print_loop sequence (Suc n) =
     bindR (makeNextPermutation sequence) (\<lambda>(r, sequence').
     if r = -1 then Inr []
     else bindR (print_loop sequence' n) (\<lambda>out. Inr (codes_string sequence' @ ''\<newline>'' @ out)))"

text \<open>The sequence ends at the first NUL character of the line read.\<close>

definition main :: "string \<Rightarrow> string res" where
  "main stdin =
     (case scanf_line 50 stdin of
        Item line s1 \<Rightarrow>
          (case scanf_i s1 of
             Item permutationsAmount s2 \<Rightarrow>
               let sequence = takeWhile (\<lambda>c. c \<noteq> CHR 0x00) line in
               bindR (validateSequence sequence) (\<lambda>_.
               print_loop (map (\<lambda>c. int (chr_code c)) sequence) (nat permutationsAmount))
           | _ \<Rightarrow> badInput [])
      | _ \<Rightarrow> badInput [])"

section \<open>Repeated symbols\<close>

lemma earlier_equal_iff: "earlier_equal str p1 k \<longleftrightarrow> (\<exists>j < k. str ! j = str ! p1)"
  by (induction k) (auto simp: less_Suc_eq)

lemma repeated_iff: "hasRepeatedSymbols str \<longleftrightarrow> \<not> distinct str"
proof
  assume "hasRepeatedSymbols str"
  then show "\<not> distinct str"
    by (force simp: hasRepeatedSymbols_def list_ex_iff earlier_equal_iff distinct_conv_nth)
next
  assume "\<not> distinct str"
  then obtain i j where "i < j" "j < length str" "str ! i = str ! j"
    by (metis distinct_conv_nth nat_neq_iff)
  then show "hasRepeatedSymbols str"
    by (force simp: hasRepeatedSymbols_def list_ex_iff earlier_equal_iff)
qed

text \<open>C11: a sequence is accepted exactly if it consists of different digits; any other one ends the
  program with the message for bad input.\<close>

theorem validateSequence_iff:
  "validateSequence seq = (if list_all isdigit seq \<and> distinct seq then Inr () else Inl (Exit 0 ''bad input\<newline>''))"
proof -
  have "list_ex (\<lambda>c. chr_code c < 48 \<or> chr_code c > 57) seq \<longleftrightarrow> \<not> list_all isdigit seq"
    by (auto simp: list_ex_iff list_all_iff isdigit_def not_le)
  then show ?thesis by (simp add: validateSequence_def repeated_iff badInput_def)
qed

section \<open>The lexicographic order on the rearrangements of a list\<close>

lemma head_in_mset: "mset (z # zs) = mset xs \<Longrightarrow> z \<in> set xs"
  by (metis list.set_intros(1) mset_eq_setD)

lemma sorted_least:
  assumes "sorted xs" and "mset zs = mset xs"
  shows "xs \<le> (zs :: 'a :: linorder list)"
  using assms
proof (induction xs arbitrary: zs)
  case (Cons x xs)
  then obtain z zs' where zs: "zs = z # zs'" by (cases zs) auto
  have "z \<in> set (x # xs)" using head_in_mset [of z zs' "x # xs"] Cons.prems(2) zs by simp
  then have "x \<le> z" using Cons.prems(1) by auto
  then show ?case
  proof (cases "x = z")
    case True
    with Cons zs show ?thesis by simp
  qed (auto simp: zs)
qed simp

lemma descending_greatest:
  assumes "sorted (rev xs)" and "mset zs = mset xs"
  shows "(zs :: 'a :: linorder list) \<le> xs"
  using assms
proof (induction xs arbitrary: zs)
  case (Cons x xs)
  then obtain z zs' where zs: "zs = z # zs'" by (cases zs) auto
  have "z \<in> set (x # xs)" using head_in_mset [of z zs' "x # xs"] Cons.prems(2) zs by simp
  then have "z \<le> x" using Cons.prems(1) by (auto simp: sorted_append)
  then show ?case
  proof (cases "x = z")
    case True
    with Cons zs show ?thesis by (simp add: sorted_append)
  qed (auto simp: zs)
qed simp

text \<open>The successor: after the prefix the pivot \<open>x\<close> is replaced by the next greater element of the
  descending tail, and the rest is put in ascending order.\<close>

lemma successor_least:
  fixes x :: "'a :: linorder"
  assumes "sorted (rev (d1 @ y # d2))" and "x < y" and "\<forall>z \<in> set d2. z \<le> x"
    and "mset zs = mset (as @ x # d1 @ y # d2)" and "as @ x # d1 @ y # d2 < zs"
  shows "as @ y # rev d2 @ x # rev d1 \<le> zs"
  using assms(4,5)
proof (induction "as" arbitrary: zs)
  case Nil
  then obtain z zs' where zs: "zs = z # zs'" by (cases zs) auto
  have "z \<noteq> x"
  proof
    assume z: "z = x"
    then have "mset zs' = mset (d1 @ y # d2)" using Nil zs by simp
    with descending_greatest [OF assms(1)] Nil.prems(2) z zs show False by (simp add: leD)
  qed
  then have "x < z" using Nil.prems(2) zs by auto
  have "z \<in> set (x # d1 @ y # d2)" using head_in_mset [of z zs' "x # d1 @ y # d2"] Nil.prems(1) zs by simp
  then have "y \<le> z" using \<open>x < z\<close> assms(1,3) by (force simp: sorted_append)
  show ?case
  proof (cases "y = z")
    case True
    have "sorted (rev d2 @ x # rev d1)" using assms(1-3) by (fastforce simp: sorted_append)
    then have "rev d2 @ x # rev d1 \<le> zs'" using Nil.prems(1) zs True by (intro sorted_least) auto
    then show ?thesis using zs True by simp
  next
    case False
    then show ?thesis using zs \<open>y \<le> z\<close> by simp
  qed
next
  case (Cons a "as")
  then obtain z zs' where zs: "zs = z # zs'" by (cases zs) auto
  with Cons show ?case by (cases "a = z") auto
qed

section \<open>The loops\<close>

lemma swap_chars_in [simp]:
  "a < length s \<Longrightarrow> b < length s \<Longrightarrow> swap s a b = Inr (swap_list a b s)"
  by (simp add: swap_def swap_list_def)

lemma reverse_ok: "reverse (xs @ m @ ys) (length xs) (length xs + length m - 1) = Inr (xs @ rev m @ ys)"
proof (induction "length m" arbitrary: xs m ys rule: less_induct)
  case less
  show ?case
  proof (cases "length m \<le> 1")
    case True
    then have "rev m = m" by (cases m) auto
    with True show ?thesis by (subst reverse.simps) auto
  next
    case False
    then obtain a m' b where m: "m = a # m' @ [b]"
      by (metis One_nat_def Suc_le_mono le_SucI length_Cons list.size(3) neq_Nil_conv rev_exhaust zero_le append_Nil)
    have "reverse ((xs @ [b]) @ m' @ (a # ys)) (length (xs @ [b])) (length (xs @ [b]) + length m' - 1) =
        Inr ((xs @ [b]) @ rev m' @ (a # ys))"
      by (rule less.hyps) (simp add: m)
    then show ?thesis
      using swap_list_middle [of xs m' a b ys] by (subst reverse.simps) (simp add: m)
  qed
qed

lemma find_pair_step:
  "Suc p < length s \<Longrightarrow> find_pair s p =
     (if s ! p \<ge> s ! Suc p then if p = 0 then Inr None else find_pair s (p - 1) else Inr (Some p))"
  by (subst find_pair.simps) simp

lemma descending_step:
  assumes "Suc p < length s" and "sorted (rev (drop (Suc p) s))" and "s ! Suc p \<le> s ! p"
  shows "sorted (rev (drop p s))"
proof -
  have "drop p s = s ! p # drop (Suc p) s" "drop (Suc p) s = s ! Suc p # drop (Suc (Suc p)) s"
    using assms(1) by (simp_all add: Cons_nth_drop_Suc)
  with assms(2,3) show ?thesis by (auto simp: sorted_append)
qed

lemma find_pair_ok:
  assumes "Suc p < length s" and "sorted (rev (drop (Suc p) s))"
  shows "(find_pair s p = Inr None \<and> sorted (rev s)) \<or>
    (\<exists>q. find_pair s p = Inr (Some q) \<and> Suc q < length s \<and> s ! q < s ! Suc q \<and> sorted (rev (drop (Suc q) s)))"
  using assms
proof (induction p)
  case 0
  with descending_step [of 0 s] show ?case by (simp add: find_pair_step)
next
  case (Suc p)
  with descending_step [of "Suc p" s] show ?case by (simp add: find_pair_step [of "Suc p"])
qed

lemma find_lo_ok:
  assumes "p < k" and "k \<le> lo" and "lo < length s" and "s ! p < s ! k"
  shows "\<exists>j. find_lo s p lo = Inr j \<and> p < j \<and> j \<le> lo \<and> s ! p < s ! j \<and> (\<forall>i. j < i \<longrightarrow> i \<le> lo \<longrightarrow> s ! i \<le> s ! p)"
  using assms(2,3)
proof (induction lo)
  case 0
  with assms(1) show ?case by simp
next
  case (Suc lo)
  have p: "p < length s" using Suc.prems assms(1) by simp
  show ?case
  proof (cases "s ! Suc lo \<le> s ! p")
    case True
    then have "k \<le> lo" using Suc.prems(1) assms(4) le_Suc_eq by fastforce
    then obtain j where "find_lo s p lo = Inr j" "p < j" "j \<le> lo" "s ! p < s ! j"
        "\<forall>i. j < i \<longrightarrow> i \<le> lo \<longrightarrow> s ! i \<le> s ! p"
      using Suc by auto
    moreover have "find_lo s p (Suc lo) = find_lo s p lo"
      using True Suc.prems p by (subst find_lo.simps) simp
    ultimately show ?thesis using True by (auto simp: le_Suc_eq)
  next
    case False
    then show ?thesis using Suc.prems p assms(1) by (subst (1) find_lo.simps) auto
  qed
qed

section \<open>The next permutation\<close>

lemma next_found:
  assumes "Suc p < length s" and "s ! p < s ! Suc p" and "sorted (rev (drop (Suc p) s))"
    and "find_pair s (length s - 2) = Inr (Some p)"
  obtains "as" x d1 y d2 where "s = as @ x # d1 @ y # d2" and "sorted (rev (d1 @ y # d2))" and "x < y"
    and "\<forall>z \<in> set d2. z \<le> x" and "makeNextPermutation s = Inr (1, as @ y # rev d2 @ x # rev d1)"
proof -
  let ?n = "length s"
  have n: "Suc p \<le> ?n - 1" "?n - 1 < ?n" using assms(1) by auto
  obtain j where j0: "find_lo s p (?n - 1) = Inr j" "p < j" "j \<le> ?n - 1" "s ! p < s ! j"
      "\<forall>i. j < i \<longrightarrow> i \<le> ?n - 1 \<longrightarrow> s ! i \<le> s ! p"
    using find_lo_ok [OF lessI n assms(2)] by blast
  have j: "find_lo s p (?n - 1) = Inr j" "p < j" "j < ?n" "s ! p < s ! j"
      "\<And>i. j < i \<Longrightarrow> i < ?n \<Longrightarrow> s ! i \<le> s ! p"
    using j0 n(2) by auto
  let ?as = "take p s" and ?x = "s ! p" and ?d1 = "take (j - Suc p) (drop (Suc p) s)" and ?y = "s ! j" and ?d2 = "drop (Suc j) s"
  have d: "drop (Suc p) s = ?d1 @ ?y # ?d2"
  proof -
    have "drop (j - Suc p) (drop (Suc p) s) = ?y # ?d2" using j(2,3) by (simp add: Cons_nth_drop_Suc)
    then show ?thesis by (metis append_take_drop_id)
  qed
  have s: "s = ?as @ ?x # ?d1 @ ?y # ?d2" using assms(1) d by (metis Suc_lessD id_take_nth_drop)
  have l: "length ?as = p" "length ?d1 = j - Suc p" using assms(1) j(2,3) by auto
  have sw: "swap s p j = Inr (?as @ ?y # ?d1 @ ?x # ?d2)"
  proof -
    have "swap_list p j s = ?as @ ?y # ?d1 @ ?x # ?d2"
      using swap_list_middle [of ?as ?d1 ?x ?y ?d2] l j(2) s by simp
    then show ?thesis using j(3) assms(1) by simp
  qed
  have rv: "reverse (?as @ ?y # ?d1 @ ?x # ?d2) (p + 1) (?n - 1) = Inr (?as @ ?y # rev ?d2 @ ?x # rev ?d1)"
  proof -
    have "?n = length (?as @ ?x # ?d1 @ ?y # ?d2)" using s by metis
    then have "?n - 1 = length (?as @ [?y]) + length (?d1 @ ?x # ?d2) - 1" by simp
    then show ?thesis using reverse_ok [of "?as @ [?y]" "?d1 @ ?x # ?d2" "[]"] l by simp
  qed
  have "makeNextPermutation s = Inr (1, ?as @ ?y # rev ?d2 @ ?x # rev ?d1)"
    using assms(1,4) j(1) sw rv by (auto simp: makeNextPermutation_def Let_def)
  moreover have "\<forall>z \<in> set ?d2. z \<le> ?x" using j(5) by (auto simp: in_set_conv_nth)
  ultimately show thesis using that s assms(3) d j(4) by metis
qed

text \<open>C10: \<open>makeNextPermutation\<close> gives the next rearrangement in lexicographic order: a greater one such that
  none lies between, or -1 and the unchanged sequence when there is no greater one.\<close>

theorem makeNextPermutation_next:
  assumes "s \<noteq> []"
  shows "(makeNextPermutation s = Inr (-1, s) \<and> (\<forall>zs. mset zs = mset s \<longrightarrow> zs \<le> s)) \<or>
    (\<exists>t. makeNextPermutation s = Inr (1, t) \<and> mset t = mset s \<and> s < t \<and>
       (\<forall>zs. mset zs = mset s \<and> s < zs \<longrightarrow> t \<le> zs))"
proof (cases "length s = 1")
  case True
  then obtain a where "s = [a]" by (cases s) auto
  then show ?thesis by (simp add: makeNextPermutation_def)
next
  case False
  then have n: "Suc (length s - 2) < length s" "0 < length s" using assms by (cases s; auto)+
  then have "Suc (Suc (length s - 2)) = length s" by simp
  then have "length (drop (Suc (length s - 2)) s) = 1" by simp
  then have "sorted (rev (drop (Suc (length s - 2)) s))" by (cases "drop (Suc (length s - 2)) s") auto
  from find_pair_ok [OF n(1) this] show ?thesis
  proof (elim disjE exE conjE)
    assume "find_pair s (length s - 2) = Inr None" and "sorted (rev s)"
    then show ?thesis
      using descending_greatest n False by (auto simp: makeNextPermutation_def Let_def)
  next
    fix q assume "find_pair s (length s - 2) = Inr (Some q)" "Suc q < length s" "s ! q < s ! Suc q"
      "sorted (rev (drop (Suc q) s))"
    then obtain "as" x d1 y d2 where f: "s = as @ x # d1 @ y # d2" "sorted (rev (d1 @ y # d2))" "x < y"
        "\<forall>z \<in> set d2. z \<le> x" "makeNextPermutation s = Inr (1, as @ y # rev d2 @ x # rev d1)"
      using next_found by metis
    have "s < as @ y # rev d2 @ x # rev d1" using f(1,3) by (simp add: list_less_def lexord_def) blast
    moreover have "\<forall>zs. mset zs = mset s \<and> s < zs \<longrightarrow> as @ y # rev d2 @ x # rev d1 \<le> zs"
      using successor_least [OF f(2-4)] f(1) by blast
    ultimately show ?thesis using f(1,5) by auto
  qed
qed

theorem makeNextPermutation_next_witness:
  "(makeNextPermutation [1, 3, 2] = Inr (-1, [1, 3, 2]) \<and> (\<forall>zs. mset zs = mset [1, 3, 2 :: int] \<longrightarrow> zs \<le> [1, 3, 2])) \<or>
    (\<exists>t. makeNextPermutation [1, 3, 2] = Inr (1, t) \<and> mset t = mset [1, 3, 2] \<and> [1, 3, 2] < t \<and>
       (\<forall>zs. mset zs = mset [1, 3, 2] \<and> [1, 3, 2] < zs \<longrightarrow> t \<le> zs))"
  by (rule makeNextPermutation_next) simp

end
