(* ===== verification/Number_Converter.thy ===== *)
theory Number_Converter
  imports C_Stdio
begin

text \<open>
  \<open>C-Labs/Numerical_system_converter/src/main.c\<close>: conversion of a number with a fractional part between bases.
  The output buffer is the list of its 60 characters, a pointer into it an index, and
  \<open>int64_t\<close> arithmetic is checked.  The program is proved to stay inside the buffer and to print
  the integer part exactly and the fraction truncated to at most 12 digits.
\<close>

section \<open>Definitions\<close>

record Number =
  intPart :: int
  numerator :: int
  denominator :: int

definition BadInput :: "'a res" where
  "BadInput = Inl (Exit 0 ''bad input'')"

definition ValidateBase :: "int \<Rightarrow> unit res" where
  "ValidateBase n = (if n < 2 \<or> n > 16 then BadInput else Inr ())"

definition ValidateDigit :: "int \<Rightarrow> int \<Rightarrow> unit res" where
  "ValidateDigit digit base = (if digit \<ge> base then BadInput else Inr ())"

text \<open>A C string in a buffer ends before the first NUL; reading past the buffer is undefined.\<close>

definition cstring :: "string \<Rightarrow> string" where
  "cstring buf = takeWhile (\<lambda>c. c \<noteq> CHR 0x00) buf"

definition strlen :: "string \<Rightarrow> nat res" where
  "strlen buf = (if CHR 0x00 \<in> set buf then Inr (length (cstring buf)) else Inl Undefined)"

function reverse_loop :: "string \<Rightarrow> nat \<Rightarrow> nat \<Rightarrow> string res" where
  "reverse_loop str len i =
     (if i < len div 2 then
        bindR (arr_get str i) (\<lambda>temp.
        bindR (arr_get str (len - i - 1)) (\<lambda>c.
        bindR (arr_set str i c) (\<lambda>str1.
        bindR (arr_set str1 (len - i - 1) temp) (\<lambda>str2.
        reverse_loop str2 len (i + 1)))))
      else Inr str)"
  by pat_completeness auto
termination
  by (relation "measure (\<lambda>(str, len, i). len div 2 - i)") auto

declare reverse_loop.simps [simp del]

definition ReverseString :: "string \<Rightarrow> string res" where
  "ReverseString str = bindR (strlen str) (\<lambda>len. reverse_loop str len 0)"

definition CharToDigit :: "char \<Rightarrow> int res" where
  "CharToDigit chr =
     (if isdigit chr then Inr (int (chr_code chr) - 48)
      else if isalpha chr then Inr (10 + int (chr_code (tolower chr)) - 97)
      else BadInput)"

definition DigitToChar :: "int \<Rightarrow> char res" where
  "DigitToChar digit =
     (if 0 \<le> digit \<and> digit \<le> 9 then Inr (char_of (nat (48 + digit)))
      else if digit \<ge> 10 then Inr (char_of (nat (97 + digit - 10)))
      else BadInput)"

definition ckd64 :: "int \<Rightarrow> int res" where
  "ckd64 v = (if - (2 ^ 63) \<le> v \<and> v < 2 ^ 63 then Inr v else Inl Undefined)"

text \<open>The two loops of \<open>ParseString\<close>; the first stops at a point or at the end.\<close>

fun parse_int :: "string \<Rightarrow> int \<Rightarrow> int \<Rightarrow> (int \<times> string) res" where
  "parse_int [] acc base = Inr (acc, [])"
| "parse_int (c # s) acc base =
     (if c = CHR ''.'' then Inr (acc, c # s)
      else
        bindR (CharToDigit c) (\<lambda>digit.
        bindR (ValidateDigit digit base) (\<lambda>_.
        bindR (ckd64 (acc * base)) (\<lambda>m.
        bindR (ckd64 (m + digit)) (\<lambda>acc'.
        parse_int s acc' base)))))"

fun parse_frac :: "string \<Rightarrow> int \<Rightarrow> int \<Rightarrow> int \<Rightarrow> (int \<times> int) res" where
  "parse_frac [] num den base = Inr (num, den)"
| "parse_frac (c # s) num den base =
     bindR (CharToDigit c) (\<lambda>digit.
     bindR (ValidateDigit digit base) (\<lambda>_.
     bindR (ckd64 (num * base)) (\<lambda>m.
     bindR (ckd64 (m + digit)) (\<lambda>num'.
     bindR (ckd64 (den * base)) (\<lambda>den'.
     parse_frac s num' den' base)))))"

definition ParseString :: "string \<Rightarrow> int \<Rightarrow> Number res" where
  "ParseString str originalBase =
     (if str \<noteq> [] \<and> hd str = CHR ''.'' then BadInput
      else
        bindR (parse_int str 0 originalBase) (\<lambda>(ip, rest).
        case rest of
          [] \<Rightarrow> Inr \<lparr>intPart = ip, numerator = 0, denominator = 1\<rparr>
        | _ # frac \<Rightarrow>
            if frac = [] then BadInput
            else bindR (parse_frac frac 0 1 originalBase) (\<lambda>(num, den).
                 Inr \<lparr>intPart = ip, numerator = num, denominator = den\<rparr>)))"

text \<open>The two loops of \<open>Convert\<close>.  The first is a \<open>do\<close> loop; \<open>ptr\<close> is where the next character goes.\<close>

function int_loop :: "int \<Rightarrow> int \<Rightarrow> string \<Rightarrow> nat \<Rightarrow> (string \<times> nat) res" where
  "int_loop ip targetBase output ptr =
     bindR (DigitToChar (c_mod ip targetBase)) (\<lambda>c.
     bindR (arr_set output ptr c) (\<lambda>output'.
     if c_div ip targetBase > 0 then int_loop (c_div ip targetBase) targetBase output' (ptr + 1)
     else Inr (output', ptr + 1)))"
  by pat_completeness auto
termination
  by (relation "measure (\<lambda>(ip, b, output, ptr). length output - ptr)") (auto simp: arr_set_Inr_iff)

function frac_loop :: "int \<Rightarrow> int \<Rightarrow> int \<Rightarrow> string \<Rightarrow> nat \<Rightarrow> nat \<Rightarrow> string res" where
  "frac_loop num den targetBase output ptr fractionalDigits =
     (if num > 0 \<and> fractionalDigits < 12 then
        bindR (ckd64 (num * targetBase)) (\<lambda>num1.
        bindR (DigitToChar (c_div num1 den)) (\<lambda>c.
        bindR (arr_set output (ptr + 1) c) (\<lambda>output'.
        frac_loop (c_mod num1 den) den targetBase output' (ptr + 1) (fractionalDigits + 1))))
      else Inr output)"
  by pat_completeness auto
termination
  by (relation "measure (\<lambda>(num, den, b, output, ptr, k). 12 - k)") auto

declare int_loop.simps [simp del] frac_loop.simps [simp del]

definition Convert :: "Number \<Rightarrow> int \<Rightarrow> string \<Rightarrow> string res" where
  "Convert num targetBase output =
     bindR (int_loop (intPart num) targetBase output 0) (\<lambda>(output1, ptr).
     bindR (ReverseString output1) (\<lambda>output2.
     if numerator num > 0 then
       bindR (arr_set output2 ptr CHR ''.'') (\<lambda>output3.
       frac_loop (numerator num) (denominator num) targetBase output3 ptr 0)
     else Inr output2))"

definition main :: "string \<Rightarrow> string res" where
  "main stdin =
     (case scanf_i stdin of
        Item originalBase s1 \<Rightarrow>
          (case scanf_i s1 of
             Item targetBase s2 \<Rightarrow>
               bindR (ValidateBase originalBase) (\<lambda>_.
               bindR (ValidateBase targetBase) (\<lambda>_.
               case scanf_word 13 s2 of
                 Item inp s3 \<Rightarrow>
                   bindR (ParseString (cstring inp) originalBase) (\<lambda>num.
                   bindR (Convert num targetBase (replicate 60 CHR 0x00)) (\<lambda>output.
                   Inr (cstring output @ ''\<newline>'')))
               | _ \<Rightarrow> BadInput))
           | _ \<Rightarrow> BadInput)
      | _ \<Rightarrow> BadInput)"

section \<open>Digits\<close>

definition dchar :: "nat \<Rightarrow> char" where
  "dchar d = (if d < 10 then char_of (48 + d) else char_of (87 + d))"

lemma DigitToChar_nat: "d < 16 \<Longrightarrow> DigitToChar (int d) = Inr (dchar d)"
  by (auto simp: DigitToChar_def dchar_def nat_add_distrib)

lemma digit_of_dchar [simp]: "d < 16 \<Longrightarrow> digit_of (dchar d) = d"
  by (simp add: digit_of_def dchar_def isdigit_def isupper_def islower_def chr_code_def)

lemma dchar_neq [simp]: "d < 16 \<Longrightarrow> dchar d \<noteq> CHR 0x00" "d < 16 \<Longrightarrow> dchar d \<noteq> CHR ''.''"
  using digit_of_dchar [of d] by (auto simp: digit_of_def isdigit_def isupper_def islower_def chr_code_def)

lemma CharToDigit_digit: "digit_of c < 36 \<Longrightarrow> CharToDigit c = Inr (int (digit_of c))"
  by (auto simp: CharToDigit_def digit_of_def isdigit_def isalpha_def isupper_def islower_def tolower_def
      chr_code_def split: if_splits)

lemma digits_value_Cons:
  "digits_value b (c # s) = digit_of c * b ^ length s + digits_value b s"
proof -
  have "foldl (\<lambda>a c. a * b + digit_of c) x s = x * b ^ length s + foldl (\<lambda>a c. a * b + digit_of c) 0 s" for x
  proof (induction s rule: rev_induct)
    case (snoc c s)
    then show ?case by (simp add: algebra_simps)
  qed simp
  from this [of "digit_of c"] show ?thesis by (simp add: digits_value_def)
qed

lemma digits_value_less:
  "(\<And>c. c \<in> set s \<Longrightarrow> digit_of c < b) \<Longrightarrow> digits_value b s < b ^ length s"
proof (induction s)
  case (Cons c s)
  then have "digit_of c + 1 \<le> b" "digits_value b s < b ^ length s" by fastforce+
  then have "digit_of c * b ^ length s + digits_value b s < (digit_of c + 1) * b ^ length s" by simp
  also have "\<dots> \<le> b * b ^ length s" using \<open>digit_of c + 1 \<le> b\<close> by (rule mult_right_mono) simp
  finally show ?case by (simp add: digits_value_Cons)
qed (simp add: digits_value_def)

section \<open>Parsing\<close>

lemma ckd64_nat: "n < 2 ^ 63 \<Longrightarrow> ckd64 (int n) = Inr (int n)"
  by (simp add: ckd64_def)

lemma digit_of_point [simp]: "digit_of CHR ''.'' = 36"
  by (simp add: digit_of_def isdigit_def isupper_def islower_def chr_code_def)

lemma digit_step:
  assumes "digit_of c < b" and "b \<le> 16" and "a * b + digit_of c < 2 ^ 63"
  shows "bindR (CharToDigit c) (\<lambda>d. bindR (ValidateDigit d (int b)) (\<lambda>_.
      bindR (ckd64 (int a * int b)) (\<lambda>m. bindR (ckd64 (m + d)) f))) = f (int (a * b + digit_of c))"
proof -
  have "ckd64 (int (a * b)) = Inr (int (a * b))" "ckd64 (int (a * b + digit_of c)) = Inr (int (a * b + digit_of c))"
    using assms(3) by (intro ckd64_nat; linarith)+
  then show ?thesis using assms(1,2) by (simp add: CharToDigit_digit ValidateDigit_def)
qed

lemma step_below:
  assumes "a * b ^ Suc k + d * b ^ k + v < (n :: nat)" and "0 < b"
  shows "a * b + d < n"
proof -
  have "a * b + d \<le> (a * b + d) * b ^ k" using assms(2) by simp
  also have "\<dots> = a * b ^ Suc k + d * b ^ k" by (simp add: algebra_simps)
  finally show ?thesis using assms(1) by simp
qed

lemma parse_int_ok:
  assumes "\<forall>c \<in> set s. digit_of c < b" and "0 < b" and "b \<le> 16" and "rest = [] \<or> hd rest = CHR ''.''"
    and "a * b ^ length s + digits_value b s < 2 ^ 63"
  shows "parse_int (s @ rest) (int a) (int b) = Inr (int (a * b ^ length s + digits_value b s), rest)"
  using assms(1,5)
proof (induction s arbitrary: a)
  case Nil
  with assms(4) show ?case by (cases rest) (auto simp: digits_value_def)
next
  case (Cons c s)
  let ?d = "digit_of c"
  have v: "a * b ^ length (c # s) + digits_value b (c # s) = (a * b + ?d) * b ^ length s + digits_value b s"
    by (simp add: digits_value_Cons algebra_simps)
  have "a * b + ?d < 2 ^ 63"
    using Cons.prems(2) by (intro step_below [OF _ assms(2), of a "length s" ?d "digits_value b s"]) (simp add: digits_value_Cons algebra_simps)
  moreover have "c \<noteq> CHR ''.''" using Cons.prems(1) assms(3) by auto
  ultimately have "parse_int ((c # s) @ rest) (int a) (int b) = parse_int (s @ rest) (int (a * b + ?d)) (int b)"
    using digit_step [of c b a "\<lambda>acc'. parse_int (s @ rest) acc' (int b)"] Cons.prems(1) assms(3) by simp
  also have "\<dots> = Inr (int ((a * b + ?d) * b ^ length s + digits_value b s), rest)"
    using Cons.prems v by (intro Cons.IH) auto
  finally show ?case using v by simp
qed

lemma parse_frac_ok:
  assumes "\<forall>c \<in> set s. digit_of c < b" and "0 < b" and "b \<le> 16"
    and "a * b ^ length s + digits_value b s < 2 ^ 63" and "d * b ^ length s < 2 ^ 63"
  shows "parse_frac s (int a) (int d) (int b) = Inr (int (a * b ^ length s + digits_value b s), int (d * b ^ length s))"
  using assms(1,4,5)
proof (induction s arbitrary: a d)
  case Nil
  then show ?case by (simp add: digits_value_def)
next
  case (Cons c s)
  let ?d = "digit_of c"
  have v: "a * b ^ length (c # s) + digits_value b (c # s) = (a * b + ?d) * b ^ length s + digits_value b s"
    by (simp add: digits_value_Cons algebra_simps)
  have "a * b + ?d < 2 ^ 63"
    using Cons.prems(2) by (intro step_below [OF _ assms(2), of a "length s" ?d "digits_value b s"]) (simp add: digits_value_Cons algebra_simps)
  moreover have "d * b < 2 ^ 63"
    using Cons.prems(3) step_below [OF _ assms(2), of d "length s" 0 0 "2 ^ 63"] by simp
  then have "ckd64 (int d * int b) = Inr (int (d * b))" using ckd64_nat [of "d * b"] by simp
  ultimately have "parse_frac (c # s) (int a) (int d) (int b) = parse_frac s (int (a * b + ?d)) (int (d * b)) (int b)"
    using digit_step [of c b a "\<lambda>num'. bindR (ckd64 (int d * int b)) (\<lambda>den'. parse_frac s num' den' (int b))"]
      Cons.prems(1) assms(3) by simp
  also have "\<dots> = Inr (int ((a * b + ?d) * b ^ length s + digits_value b s), int (d * b * b ^ length s))"
    using Cons.prems v by (intro Cons.IH) (auto simp: algebra_simps)
  finally show ?case using v by (simp add: algebra_simps)
qed

section \<open>The integer part\<close>

text \<open>The digits of a number, the least significant first.\<close>

fun rev_digits :: "nat \<Rightarrow> nat \<Rightarrow> nat list" where
  "rev_digits b n = (if b < 2 \<or> n < b then [n] else n mod b # rev_digits b (n div b))"

declare rev_digits.simps [simp del]

lemma rev_digits_less: "2 \<le> b \<Longrightarrow> d \<in> set (rev_digits b n) \<Longrightarrow> d < b"
proof (induction b n rule: rev_digits.induct)
  case (1 b n)
  then show ?case by (auto simp: rev_digits.simps [of b n] split: if_splits)
qed

lemma length_rev_digits: "2 \<le> b \<Longrightarrow> n < b ^ k \<Longrightarrow> 0 < k \<Longrightarrow> length (rev_digits b n) \<le> k"
proof (induction k arbitrary: n)
  case (Suc k)
  show ?case
  proof (cases "n < b")
    case True
    then show ?thesis by (subst rev_digits.simps) simp
  next
    case False
    then have "0 < k" using Suc.prems by (cases k) auto
    moreover have "n div b < b ^ k" using Suc.prems by (simp add: div_less_iff_less_mult mult.commute)
    ultimately show ?thesis using Suc False by (subst rev_digits.simps) simp
  qed
qed simp

lemma digits_value_rev_digits:
  assumes "2 \<le> b" and "b \<le> 16"
  shows "digits_value b (map dchar (rev (rev_digits b n))) = n"
  using assms
proof (induction b n rule: rev_digits.induct)
  case (1 b n)
  show ?case
  proof (cases "n < b")
    case True
    with 1 show ?thesis by (subst rev_digits.simps) (simp add: digits_value_def)
  next
    case False
    have "n mod b < b" using 1 by simp
    then have "n mod b < 16" using 1 by linarith
    with False 1 show ?thesis by (subst rev_digits.simps) (simp add: digits_value_append)
  qed
qed

lemma int_loop_ok:
  assumes "2 \<le> b" and "b \<le> 16" and "ptr + length (rev_digits b n) \<le> length buf"
  shows "int_loop (int n) (int b) buf ptr =
    Inr (take ptr buf @ map dchar (rev_digits b n) @ drop (ptr + length (rev_digits b n)) buf,
         ptr + length (rev_digits b n))"
  using assms
proof (induction b n arbitrary: buf ptr rule: rev_digits.induct)
  case (1 b n)
  have "n mod b < b" using "1.prems" by simp
  then have "n mod b < 16" using "1.prems" by linarith
  then have dc: "DigitToChar (c_mod (int n) (int b)) = Inr (dchar (n mod b))" "c_div (int n) (int b) = int (n div b)"
    using "1.prems" DigitToChar_nat [of "n mod b"] by (simp_all add: zmod_int zdiv_int)
  have ptr: "ptr < length buf" using "1.prems"(3) by (subst (asm) rev_digits.simps) (simp split: if_splits)
  have upd: "take (Suc ptr) (buf[ptr := c]) = take ptr buf @ [c]" for c
    using ptr by (simp add: take_Suc_conv_app_nth)
  show ?case
  proof (cases "n < b")
    case True
    then show ?thesis
      using dc ptr by (subst int_loop.simps) (simp add: rev_digits.simps [of b n] upd_conv_take_nth_drop)
  next
    case False
    then have r: "rev_digits b n = n mod b # rev_digits b (n div b)" using "1.prems" by (subst rev_digits.simps) simp
    have "0 < n div b" using False "1.prems" by (simp add: div_greater_zero_iff)
    let ?o = "buf[ptr := dchar (n mod b)]"
    have "int_loop (int (n div b)) (int b) ?o (Suc ptr) =
        Inr (take (Suc ptr) ?o @ map dchar (rev_digits b (n div b)) @ drop (Suc ptr + length (rev_digits b (n div b))) ?o,
          Suc ptr + length (rev_digits b (n div b)))"
      using "1.IH" [of "Suc ptr" ?o] False "1.prems" r by simp
    with dc ptr \<open>0 < n div b\<close> show ?thesis
      by (subst int_loop.simps) (simp add: r upd)
  qed
qed

lemma reverse_loop_ok:
  "reverse_loop (xs @ m @ ys) (2 * length xs + length m) (length xs) = Inr (xs @ rev m @ ys)"
proof (induction "length m" arbitrary: xs m ys rule: less_induct)
  case less
  show ?case
  proof (cases "length m \<le> 1")
    case True
    then have "rev m = m" by (cases m) auto
    with True show ?thesis by (subst reverse_loop.simps) auto
  next
    case False
    then obtain a m1 where "m = a # m1" "m1 \<noteq> []" by (cases m) auto
    then obtain m' b where m: "m = a # m' @ [b]" by (metis rev_exhaust)
    let ?s = "xs @ a # m' @ b # ys" and ?i = "length xs" and ?len = "2 * length xs + length m"
    have i: "?i < ?len div 2" "?len - ?i - 1 = Suc (length xs + length m')" by (simp_all add: m)
    have "reverse_loop ?s ?len ?i = reverse_loop (swap_list ?i (Suc (length xs + length m')) ?s) ?len (?i + 1)"
      using i by (subst reverse_loop.simps) (simp add: swap_list_def)
    also have "\<dots> = reverse_loop ((xs @ [b]) @ m' @ (a # ys)) (2 * length (xs @ [b]) + length m') (length (xs @ [b]))"
      unfolding swap_list_middle by (simp add: m)
    also have "\<dots> = Inr ((xs @ [b]) @ rev m' @ (a # ys))"
      by (rule less.hyps) (simp add: m)
    finally show ?thesis by (simp add: m)
  qed
qed

lemma cstring_prefix:
  "CHR 0x00 \<notin> set s \<Longrightarrow> cstring (s @ replicate (Suc k) CHR 0x00) = s"
  by (induction s) (auto simp: cstring_def)

lemma ReverseString_ok:
  assumes "CHR 0x00 \<notin> set s" and "0 < k"
  shows "ReverseString (s @ replicate k CHR 0x00) = Inr (rev s @ replicate k CHR 0x00)"
proof -
  have "strlen (s @ replicate k CHR 0x00) = Inr (length s)"
    using assms cstring_prefix [of s "k - 1"] by (simp add: strlen_def)
  then show ?thesis using reverse_loop_ok [of "[]" s] by (simp add: ReverseString_def)
qed

section \<open>The fractional part\<close>

fun frac_digits :: "nat \<Rightarrow> nat \<Rightarrow> nat \<Rightarrow> nat \<Rightarrow> nat list" where
  "frac_digits b den 0 num = []"
| "frac_digits b den (Suc k) num =
     (if num = 0 then [] else num * b div den # frac_digits b den k (num * b mod den))"

lemma length_frac_digits: "length (frac_digits b den k num) \<le> k"
  by (induction k arbitrary: num) auto

lemma frac_digit_less: "num < den \<Longrightarrow> 0 < b \<Longrightarrow> num * b div den < (b :: nat)"
  by (simp add: div_less_iff_less_mult mult.commute)

lemma frac_digits_less: "num < den \<Longrightarrow> 0 < b \<Longrightarrow> d \<in> set (frac_digits b den k num) \<Longrightarrow> d < b"
proof (induction k arbitrary: num)
  case (Suc k)
  then have "num * b mod den < den" by simp
  with Suc.IH [of "num * b mod den"] Suc.prems show ?case by (auto simp: frac_digit_less split: if_splits)
qed simp

text \<open>The digits are the fraction, truncated; exactly so when there are fewer than the limit.\<close>

lemma frac_digits_value:
  assumes "num < den" and "0 < b" and "b \<le> 16"
  shows "\<exists>r < den. num * b ^ length (frac_digits b den k num) =
      digits_value b (map dchar (frac_digits b den k num)) * den + r \<and>
    (length (frac_digits b den k num) < k \<longrightarrow> r = 0)"
  using assms(1)
proof (induction k arbitrary: num)
  case (Suc k)
  show ?case
  proof (cases "num = 0")
    case False
    let ?q = "num * b div den" and ?m = "num * b mod den"
    let ?fs = "frac_digits b den k ?m"
    have "?q < b" using frac_digit_less [OF Suc.prems assms(2)] .
    then have q: "digit_of (dchar ?q) = ?q" using assms(3) by simp
    obtain r where r: "r < den" "?m * b ^ length ?fs = digits_value b (map dchar ?fs) * den + r"
        "length ?fs < k \<longrightarrow> r = 0"
      using Suc.IH [of ?m] Suc.prems by auto
    have "num * b * b ^ length ?fs = (?q * den + ?m) * b ^ length ?fs" by simp
    also have "\<dots> = (?q * b ^ length ?fs + digits_value b (map dchar ?fs)) * den + r"
      unfolding distrib_right r(2) by (simp only: ac_simps)
    finally have "num * b ^ length (?q # ?fs) = digits_value b (map dchar (?q # ?fs)) * den + r"
      using q by (simp add: digits_value_Cons mult.assoc)
    with r(1,3) False show ?thesis by auto
  qed (use Suc.prems in \<open>auto simp: digits_value_def\<close>)
qed (auto simp: digits_value_def)

lemma frac_loop_ok:
  assumes "num < den" and "2 \<le> b" and "b \<le> 16" and "den < 2 ^ 59" and "j \<le> 12"
    and "Suc ptr + length (frac_digits b den (12 - j) num) \<le> length buf"
  shows "frac_loop (int num) (int den) (int b) buf ptr j =
    Inr (take (Suc ptr) buf @ map dchar (frac_digits b den (12 - j) num) @
         drop (Suc ptr + length (frac_digits b den (12 - j) num)) buf)"
  using assms(1,5,6)
proof (induction "12 - j" arbitrary: num buf ptr j)
  case 0
  then show ?case by (simp add: frac_loop.simps)
next
  case (Suc k)
  then have j: "j < 12" "12 - j = Suc k" "12 - Suc j = k" by auto
  show ?case
  proof (cases "num = 0")
    case True
    then show ?thesis using j by (subst frac_loop.simps) simp
  next
    case False
    let ?q = "num * b div den" and ?m = "num * b mod den"
    let ?o = "buf[Suc ptr := dchar ?q]"
    have "num * b < 2 ^ 63"
    proof -
      have "num * b \<le> den * 16" using Suc.prems(1) assms(3) by (intro mult_mono) auto
      then show ?thesis using assms(4) by simp
    qed
    then have c: "ckd64 (int num * int b) = Inr (int (num * b))" using ckd64_nat [of "num * b"] by simp
    have "?q < 16" using frac_digit_less [OF Suc.prems(1), of b] assms(2,3) by linarith
    then have d: "DigitToChar (c_div (int (num * b)) (int den)) = Inr (dchar ?q)"
        "c_mod (int (num * b)) (int den) = int ?m"
      using DigitToChar_nat [of ?q] Suc.prems(1) by (simp_all add: zdiv_int zmod_int del: of_nat_mult)
    have fd: "frac_digits b den (12 - j) num = ?q # frac_digits b den k ?m" using False j by simp
    have len: "Suc ptr < length buf" using Suc.prems(3) fd by simp
    have "frac_loop (int ?m) (int den) (int b) ?o (Suc ptr) (Suc j) =
        Inr (take (Suc (Suc ptr)) ?o @ map dchar (frac_digits b den (12 - Suc j) ?m) @
          drop (Suc (Suc ptr) + length (frac_digits b den (12 - Suc j) ?m)) ?o)"
      using Suc.prems j fd by (intro Suc.hyps(1)) auto
    moreover have "take (Suc (Suc ptr)) ?o = take (Suc ptr) buf @ [dchar ?q]"
      using len by (simp add: take_Suc_conv_app_nth)
    ultimately show ?thesis
      using False j c d len fd by (subst frac_loop.simps) simp
  qed
qed

section \<open>The program\<close>

text \<open>A number as it is typed: \<open>w\<close> before the point and \<open>f\<close> after it, no point if \<open>f\<close> is empty.\<close>

definition typed_number :: "nat \<Rightarrow> string \<Rightarrow> string \<Rightarrow> bool" where
  "typed_number b w f \<longleftrightarrow> w \<noteq> [] \<and> (\<forall>c \<in> set (w @ f). digit_of c < b) \<and>
     (if f = [] then length w \<le> 13 else length w + 1 + length f \<le> 13)"

definition with_point :: "string \<Rightarrow> string \<Rightarrow> string" where
  "with_point w f = (if f = [] then w else w @ ''.'' @ f)"

lemma power_below:
  assumes "b \<le> 16" and "n \<le> k" and "0 < b"
  shows "(b :: nat) ^ n \<le> 2 ^ (4 * k)"
proof -
  have "b ^ n \<le> 16 ^ k"
    using assms by (meson power_increasing power_mono le_trans zero_le one_le_numeral)
  also have "(16 :: nat) ^ k = 2 ^ (4 * k)" by (simp add: power_mult)
  finally show ?thesis .
qed

lemma ParseString_ok:
  assumes "typed_number b w f" and "2 \<le> b" and "b \<le> 16"
  shows "ParseString (with_point w f) (int b) =
    Inr \<lparr>intPart = int (digits_value b w), numerator = int (digits_value b f), denominator = int (b ^ length f)\<rparr>"
proof -
  have len: "length w \<le> 13" "length f \<le> 13" using assms(1) by (auto simp: typed_number_def split: if_splits)
  have d: "\<forall>c \<in> set w. digit_of c < b" "\<forall>c \<in> set f. digit_of c < b" "w \<noteq> []"
    using assms(1) by (auto simp: typed_number_def)
  have "digits_value b w < 2 ^ 52" "digits_value b f < 2 ^ 52" "b ^ length f \<le> 2 ^ 52"
    using digits_value_less [of w b] digits_value_less [of f b] d
      power_below [OF assms(3) len(1)] power_below [OF assms(3) len(2)] assms(2) by fastforce+
  then have lim: "digits_value b w < 2 ^ 63" "digits_value b f < 2 ^ 63" "b ^ length f < 2 ^ 63" by simp_all
  have pi: "parse_int (w @ rest) 0 (int b) = Inr (int (digits_value b w), rest)" if "rest = [] \<or> hd rest = CHR ''.''" for rest
    using parse_int_ok [OF d(1) _ assms(3) that, of 0] lim(1) assms(2) by simp
  have pf: "parse_frac f 0 1 (int b) = Inr (int (digits_value b f), int (b ^ length f))"
    using parse_frac_ok [OF d(2) _ assms(3), of 0 1] lim assms(2) by simp
  have hd: "hd w \<noteq> CHR ''.''" using d(1,3) assms(3) by (cases w) auto
  show ?thesis
  proof (cases "f = []")
    case True
    then show ?thesis using pi [of "[]"] hd by (simp add: ParseString_def with_point_def digits_value_def)
  next
    case False
    then show ?thesis using pi [of "CHR ''.'' # f"] pf hd d(3) by (simp add: ParseString_def with_point_def)
  qed
qed

lemma dchars_not_NUL: "\<forall>d \<in> set ds. d < 16 \<Longrightarrow> CHR 0x00 \<notin> set (map dchar ds)"
  by (metis dchar_neq(1) imageE set_map)

lemma Convert_ok:
  assumes "2 \<le> t" and "t \<le> 16" and "num < den" and "den < 2 ^ 59"
    and "length (rev_digits t n) + 1 + (if num = 0 then 0 else 13) \<le> 60"
  shows "\<exists>out. Convert \<lparr>intPart = int n, numerator = int num, denominator = int den\<rparr> (int t) (replicate 60 CHR 0x00) = Inr out \<and>
    cstring out = with_point (map dchar (rev (rev_digits t n))) (map dchar (frac_digits t den 12 num))"
proof -
  let ?ds = "rev_digits t n" and ?fs = "frac_digits t den 12 num"
  let ?len = "length ?ds"
  let ?ip = "map dchar (rev ?ds)" and ?fp = "map dchar ?fs"
  have small: "\<forall>d \<in> set ?ds. d < 16" "\<forall>d \<in> set ?fs. d < 16"
  proof -
    have "d < t" if "d \<in> set ?ds \<or> d \<in> set ?fs" for d
      using that rev_digits_less [OF assms(1), of d n] frac_digits_less [OF assms(3), of t d 12] assms(1) by auto
    then show "\<forall>d \<in> set ?ds. d < 16" "\<forall>d \<in> set ?fs. d < 16" using assms(2) by (auto dest: less_le_trans)
  qed
  then have nul: "CHR 0x00 \<notin> set (map dchar ?ds)" "CHR 0x00 \<notin> set ?ip" "CHR 0x00 \<notin> set ?fp"
    using dchars_not_NUL [of ?ds] dchars_not_NUL [of "rev ?ds"] dchars_not_NUL [of ?fs] by simp_all
  have "int_loop (int n) (int t) (replicate 60 CHR 0x00) 0 = Inr (map dchar ?ds @ replicate (60 - ?len) CHR 0x00, ?len)"
    using int_loop_ok [OF assms(1,2), of 0 n "replicate 60 CHR 0x00"] assms(5) by simp
  moreover have "ReverseString (map dchar ?ds @ replicate (60 - ?len) CHR 0x00) = Inr (?ip @ replicate (60 - ?len) CHR 0x00)"
    using ReverseString_ok [OF nul(1), of "60 - ?len"] assms(5) by (simp add: rev_map)
  ultimately have c: "Convert \<lparr>intPart = int n, numerator = int num, denominator = int den\<rparr> (int t) (replicate 60 CHR 0x00) =
      (if 0 < num then
         bindR (arr_set (?ip @ replicate (60 - ?len) CHR 0x00) ?len CHR ''.'') (\<lambda>out.
         frac_loop (int num) (int den) (int t) out ?len 0)
       else Inr (?ip @ replicate (60 - ?len) CHR 0x00))"
    by (simp add: Convert_def)
  show ?thesis
  proof (cases "num = 0")
    case True
    obtain k where "60 - ?len = Suc k" using assms(5) True by (cases "60 - ?len") auto
    then have "cstring (?ip @ replicate (60 - ?len) CHR 0x00) = ?ip" using cstring_prefix [OF nul(2)] by simp
    moreover have "?fs = []" using True by (simp add: numeral_eq_Suc)
    ultimately show ?thesis using c True by (simp add: with_point_def)
  next
    case False
    let ?buf = "?ip @ CHR ''.'' # replicate (59 - ?len) CHR 0x00"
    have lf: "length ?fs \<le> 12" "?fs \<noteq> []" using length_frac_digits [of t den 12 num] False by (simp_all add: numeral_eq_Suc)
    have l60: "60 - ?len = Suc (59 - ?len)" using assms(5) False by simp
    have "arr_set (?ip @ replicate (60 - ?len) CHR 0x00) ?len CHR ''.'' = Inr ?buf"
      unfolding l60 by (simp add: list_update_append)
    moreover have "frac_loop (int num) (int den) (int t) ?buf ?len 0 =
        Inr (?ip @ ''.'' @ ?fp @ replicate (59 - ?len - length ?fs) CHR 0x00)"
      using frac_loop_ok [OF assms(3,1,2,4), of 0 ?len ?buf] assms(5) False lf(1) by simp
    moreover obtain k where "59 - ?len - length ?fs = Suc k" using assms(5) False lf(1) by (cases "59 - ?len - length ?fs") auto
    then have "cstring (?ip @ ''.'' @ ?fp @ replicate (59 - ?len - length ?fs) CHR 0x00) = ?ip @ ''.'' @ ?fp"
      using cstring_prefix [of "?ip @ ''.'' @ ?fp" k] nul by simp
    ultimately show ?thesis using c False lf(2) by (simp add: with_point_def)
  qed
qed

lemma not_space_of_digit: "digit_of c < 16 \<Longrightarrow> \<not> isspace c"
  by (auto simp: digit_of_def isspace_def isdigit_def isupper_def islower_def split: if_splits)

lemma scan_typed:
  assumes "typed_number b w f" and "b \<le> 16"
  shows "scanf_word 13 (CHR '' '' # with_point w f) = Item (with_point w f) []" and "cstring (with_point w f) = with_point w f"
proof -
  have sp: "isspace CHR '' ''" "\<not> isspace CHR ''.''" by (simp_all add: isspace_def chr_code_def)
  have ns: "\<forall>c \<in> set (with_point w f). \<not> isspace c"
  proof -
    have "\<forall>c \<in> set (w @ f). digit_of c < 16" using assms by (force simp: typed_number_def)
    then show ?thesis using sp(2) by (auto simp: with_point_def not_space_of_digit)
  qed
  have len: "with_point w f \<noteq> []" "length (with_point w f) \<le> 13"
    using assms(1) by (auto simp: with_point_def typed_number_def)
  then have "dropWhile isspace (CHR '' '' # with_point w f) = with_point w f"
    using ns sp(1) by (cases "with_point w f") auto
  then show "scanf_word 13 (CHR '' '' # with_point w f) = Item (with_point w f) []"
    using ns len by (simp add: scanf_word_def takeWhile_eq_all_conv [THEN iffD2])
  have "digit_of CHR 0x00 = 36" by (simp add: digit_of_def isdigit_def isupper_def islower_def chr_code_def)
  then have "CHR 0x00 \<notin> set (w @ f)" using assms by (force simp: typed_number_def)
  then have "\<forall>c \<in> set (with_point w f). c \<noteq> CHR 0x00" by (auto simp: with_point_def)
  then show "cstring (with_point w f) = with_point w f"
    unfolding cstring_def by (simp add: takeWhile_eq_all_conv)
qed

text \<open>C12: for a number typed in base \<open>b\<close> the program writes, inside its buffer of 60 characters, a number in base
  \<open>t\<close> with the same integer part and a fraction of at most 12 digits, which is the given fraction truncated
  and equal to it when it has fewer than 12 digits.\<close>

theorem converter_main_correct:
  assumes "typed_number b w f" and "2 \<le> b" and "b \<le> 16" and "2 \<le> t" and "t \<le> 16"
  shows "\<exists>w' f' r. main (show_int (int b) @ '' '' @ show_int (int t) @ '' '' @ with_point w f) = Inr (with_point w' f' @ ''\<newline>'') \<and>
    digits_value t w' = digits_value b w \<and> length f' \<le> 12 \<and>
    digits_value b f * t ^ length f' = digits_value t f' * b ^ length f + r \<and> r < b ^ length f \<and>
    (length f' < 12 \<longrightarrow> r = 0)"
proof -
  let ?n = "digits_value b w" and ?num = "digits_value b f" and ?den = "b ^ length f"
  let ?w = "map dchar (rev (rev_digits t ?n))" and ?f = "map dchar (frac_digits t ?den 12 ?num)"
  have d: "\<forall>c \<in> set w. digit_of c < b" "\<forall>c \<in> set f. digit_of c < b" using assms(1) by (auto simp: typed_number_def)
  have num: "?num < ?den" using digits_value_less d(2) by blast
  have len: "length w \<le> 13" "length f \<le> 13" "f \<noteq> [] \<Longrightarrow> length w \<le> 11"
    using assms(1) by (cases f; auto simp: typed_number_def)+
  have "?den \<le> 2 ^ 52" using power_below [OF assms(3) len(2)] assms(2) by simp
  then have den: "?den < 2 ^ 59" by simp
  have n: "?n < b ^ length w" using digits_value_less d(1) by blast
  have digits: "length (rev_digits t ?n) \<le> 4 * k" if "length w \<le> k" "0 < k" for k
  proof (rule length_rev_digits [OF assms(4)])
    have "?n < 2 ^ (4 * k)" using n power_below [OF assms(3) that(1)] assms(2) by simp
    also have "(2 :: nat) ^ (4 * k) \<le> t ^ (4 * k)" using assms(4) by (rule power_mono) simp
    finally show "?n < t ^ (4 * k)" .
  qed (use that in simp)
  have fit: "length (rev_digits t ?n) + 1 + (if ?num = 0 then 0 else 13) \<le> 60"
  proof (cases "f = []")
    case True
    then show ?thesis using digits [OF len(1)] by (simp add: digits_value_def)
  next
    case False
    then show ?thesis using digits [OF len(3)] by simp
  qed
  obtain out where out: "Convert \<lparr>intPart = int ?n, numerator = int ?num, denominator = int ?den\<rparr> (int t) (replicate 60 CHR 0x00) = Inr out"
      "cstring out = with_point ?w ?f"
    using Convert_ok [OF assms(4,5) num den fit] by blast
  have "in_int32 (int b)" "in_int32 (int t)" using assms(3,5) by (simp_all add: in_int32_def)
  then have "main (show_int (int b) @ '' '' @ show_int (int t) @ '' '' @ with_point w f) = Inr (with_point ?w ?f @ ''\<newline>'')"
    using out scan_typed [OF assms(1,3)] ParseString_ok [OF assms(1-3)] assms(2-5)
    by (simp add: main_def ValidateBase_def)
  moreover have "digits_value t ?w = ?n" using digits_value_rev_digits [OF assms(4,5)] .
  moreover have "length ?f \<le> 12" using length_frac_digits [of t ?den 12 ?num] by simp
  moreover obtain r where "r < ?den" "?num * t ^ length ?f = digits_value t ?f * ?den + r" "length ?f < 12 \<longrightarrow> r = 0"
    using frac_digits_value [OF num, of t 12] assms(4,5) by auto
  ultimately show ?thesis by blast
qed

theorem converter_main_correct_witness:
  "\<exists>w' f' r. main (show_int (int 10) @ '' '' @ show_int (int 2) @ '' '' @ with_point ''12'' ''75'') = Inr (with_point w' f' @ ''\<newline>'') \<and>
    digits_value 2 w' = digits_value 10 ''12'' \<and> length f' \<le> 12 \<and>
    digits_value 10 ''75'' * 2 ^ length f' = digits_value 2 f' * 10 ^ length ''75'' + r \<and> r < 10 ^ length ''75'' \<and>
    (length f' < 12 \<longrightarrow> r = 0)"
  by (rule converter_main_correct) (simp_all add: typed_number_def digit_of_def isdigit_def chr_code_def)

end
