(* ===== verification/Block_Stack.thy ===== *)
theory Block_Stack
  imports C_Prelude
begin

text \<open>
  \<open>C-Labs/Calculator/src/stack.c\<close> (the same file as \<open>Red-black_tree/src/stack.c\<close>): a stack in a chain of blocks of
  32 cells.  A block is reached only through the stack, so the chain is a value; a cell that was never
  written is \<open>None\<close>, and reading it is undefined behaviour.  The locale \<open>lifo_stack\<close> is what the
  programs rely on.
\<close>

section \<open>Definitions\<close>

definition BLOCK_SIZE :: nat where
  "BLOCK_SIZE = 32"

datatype 'a StackBlock = StackBlock (prevBlock: "'a StackBlock option") (data: "'a option list")

record 'a StackInstance =
  curBlock :: "'a StackBlock"
  curIndex :: nat

definition MakeStack :: "'a StackInstance" where
  "MakeStack = \<lparr>curBlock = StackBlock None (replicate BLOCK_SIZE None), curIndex = 0\<rparr>"

text \<open>The loop of \<open>DestroyStack\<close> frees the blocks one by one; the result is their number.\<close>

fun destroy_blocks :: "'a StackBlock \<Rightarrow> nat" where
  "destroy_blocks (StackBlock p d) = (case p of None \<Rightarrow> 1 | Some b \<Rightarrow> Suc (destroy_blocks b))"

definition DestroyStack :: "'a StackInstance \<Rightarrow> nat" where
  "DestroyStack stack = destroy_blocks (curBlock stack)"

definition IsEmpty :: "'a StackInstance \<Rightarrow> bool" where
  "IsEmpty stack \<longleftrightarrow> curIndex stack = 0 \<and> prevBlock (curBlock stack) = None"

definition Push :: "'a StackInstance \<Rightarrow> 'a \<Rightarrow> 'a StackInstance res" where
  "Push stack value =
     (let stack1 = (if curIndex stack = BLOCK_SIZE then
                      \<lparr>curBlock = StackBlock (Some (curBlock stack)) (replicate BLOCK_SIZE None), curIndex = 0\<rparr>
                    else stack);
          block = curBlock stack1
      in bindR (arr_set (data block) (curIndex stack1) (Some value)) (\<lambda>d.
         Inr \<lparr>curBlock = StackBlock (prevBlock block) d, curIndex = curIndex stack1 + 1\<rparr>))"

definition read_cell :: "'a StackBlock \<Rightarrow> nat \<Rightarrow> 'a res" where
  "read_cell block i =
     bindR (arr_get (data block) i) (\<lambda>c. case c of None \<Rightarrow> Inl Undefined | Some v \<Rightarrow> Inr v)"

definition Pop :: "'a StackInstance \<Rightarrow> ('a \<times> 'a StackInstance) res" where
  "Pop stack =
     assertR (curIndex stack \<noteq> 0)
     (let block = curBlock stack; i = curIndex stack - 1 in
      bindR (read_cell block i) (\<lambda>value.
      case (if i = 0 then prevBlock block else None) of
        Some b \<Rightarrow> Inr (value, \<lparr>curBlock = b, curIndex = BLOCK_SIZE\<rparr>)
      | None \<Rightarrow> Inr (value, stack\<lparr>curIndex := i\<rparr>)))"

definition GetTop :: "'a StackInstance \<Rightarrow> 'a res" where
  "GetTop stack = assertR (curIndex stack \<noteq> 0) (read_cell (curBlock stack) (curIndex stack - 1))"

section \<open>The contents\<close>

text \<open>\<open>chain b n xs\<close>: the first \<open>n\<close> cells of the block \<open>b\<close> and the full blocks before it hold \<open>xs\<close>, the top first.\<close>

fun chain :: "'a StackBlock \<Rightarrow> nat \<Rightarrow> 'a list \<Rightarrow> bool" where
  "chain (StackBlock p d) n xs \<longleftrightarrow> length d = BLOCK_SIZE \<and> n \<le> BLOCK_SIZE \<and> n \<le> length xs \<and>
     take n d = map Some (rev (take n xs)) \<and>
     (case p of None \<Rightarrow> length xs = n | Some b \<Rightarrow> chain b BLOCK_SIZE (drop n xs))"

definition stack_rep :: "'a StackInstance \<Rightarrow> 'a list \<Rightarrow> bool" where
  "stack_rep s xs \<longleftrightarrow> chain (curBlock s) (curIndex s) xs \<and> (curIndex s = 0 \<longrightarrow> prevBlock (curBlock s) = None)"

lemma chain_length: "chain b n xs \<Longrightarrow> n \<le> length xs \<and> n \<le> BLOCK_SIZE"
  by (cases b) simp

lemma MakeStack_rep: "stack_rep MakeStack []"
  by (simp add: stack_rep_def MakeStack_def BLOCK_SIZE_def)

lemma Stack_IsEmpty_rep: "stack_rep s xs \<Longrightarrow> IsEmpty s \<longleftrightarrow> xs = []"
  by (cases "curBlock s") (auto simp: stack_rep_def IsEmpty_def dest: chain_length)

lemma Stack_Push_rep:
  assumes "stack_rep s xs"
  shows "\<exists>s'. Push s v = Inr s' \<and> stack_rep s' (v # xs)"
proof (cases "curIndex s = BLOCK_SIZE")
  case True
  have "take (Suc 0) ((replicate BLOCK_SIZE None)[0 := Some v]) = [Some v]"
    by (simp add: BLOCK_SIZE_def numeral_eq_Suc)
  with True assms show ?thesis
    by (simp add: Push_def Let_def stack_rep_def) (simp add: BLOCK_SIZE_def)
next
  case False
  obtain p d where b: "curBlock s = StackBlock p d" by (cases "curBlock s")
  let ?n = "curIndex s"
  have n: "?n < length d" "length d = BLOCK_SIZE" using False assms b by (auto simp: stack_rep_def)
  have "take (Suc ?n) (d[?n := Some v]) = map Some (rev (take (Suc ?n) (v # xs)))"
    using assms b n by (auto simp: stack_rep_def take_Suc_conv_app_nth)
  with False n assms b show ?thesis by (auto simp: Push_def Let_def stack_rep_def split: option.splits)
qed

lemma read_top:
  assumes "chain (StackBlock p d) (Suc n) (x # xs)"
  shows "read_cell (StackBlock p d) n = Inr x \<and> take n d = map Some (rev (take n xs))"
proof -
  have n: "n < length d" "take (Suc n) d = map Some (rev (take n xs)) @ [Some x]" using assms by auto
  then have "take n d @ [d ! n] = map Some (rev (take n xs)) @ [Some x]" by (simp add: take_Suc_conv_app_nth)
  with n(1) show ?thesis by (simp add: read_cell_def)
qed

lemma nonempty_index:
  assumes "stack_rep s (x # xs)"
  obtains n p d where "curIndex s = Suc n" and "curBlock s = StackBlock p d" and "chain (StackBlock p d) (Suc n) (x # xs)"
  using assms by (cases "curIndex s"; cases "curBlock s") (auto simp: stack_rep_def)

lemma Stack_Pop_rep:
  assumes "stack_rep s (x # xs)"
  shows "\<exists>s'. Pop s = Inr (x, s') \<and> stack_rep s' xs"
proof -
  obtain n p d where s: "curIndex s = Suc n" "curBlock s = StackBlock p d" "chain (StackBlock p d) (Suc n) (x # xs)"
    using nonempty_index [OF assms] .
  note r = read_top [OF s(3)]
  show ?thesis
  proof (cases "n = 0 \<and> p \<noteq> None")
    case True
    then obtain b where "p = Some b" by auto
    with True s r show ?thesis by (auto simp: Pop_def Let_def stack_rep_def BLOCK_SIZE_def)
  next
    case False
    with s r show ?thesis by (auto simp: Pop_def Let_def stack_rep_def split: option.splits)
  qed
qed

lemma GetTop_rep:
  assumes "stack_rep s (x # xs)"
  shows "GetTop s = Inr x"
proof -
  obtain n p d where s: "curIndex s = Suc n" "curBlock s = StackBlock p d" "chain (StackBlock p d) (Suc n) (x # xs)"
    using nonempty_index [OF assms] .
  with read_top [OF s(3)] show ?thesis by (simp add: GetTop_def)
qed

text \<open>How much there is left to pop.\<close>

definition stack_size :: "'a StackInstance \<Rightarrow> nat" where
  "stack_size s = 33 * destroy_blocks (curBlock s) + curIndex s"

lemma Pop_size_less: "Pop s = Inr (x, s') \<Longrightarrow> stack_size s' < stack_size s"
  by (cases "curBlock s") (auto simp: Pop_def Let_def stack_size_def BLOCK_SIZE_def split: option.splits if_splits)

section \<open>The interface\<close>

locale lifo_stack =
  fixes make :: 's and push :: "'s \<Rightarrow> 'a \<Rightarrow> 's res" and pop :: "'s \<Rightarrow> ('a \<times> 's) res"
    and top :: "'s \<Rightarrow> 'a res" and empty :: "'s \<Rightarrow> bool" and rep :: "'s \<Rightarrow> 'a list \<Rightarrow> bool"
  assumes make_rep: "rep make []"
    and push_rep: "rep s xs \<Longrightarrow> \<exists>s'. push s v = Inr s' \<and> rep s' (v # xs)"
    and pop_rep: "rep s (x # xs) \<Longrightarrow> \<exists>s'. pop s = Inr (x, s') \<and> rep s' xs"
    and top_rep: "rep s (x # xs) \<Longrightarrow> top s = Inr x"
    and empty_rep: "rep s xs \<Longrightarrow> empty s \<longleftrightarrow> xs = []"
begin

fun push_list :: "'s \<Rightarrow> 'a list \<Rightarrow> 's res" where
  "push_list s [] = Inr s"
| "push_list s (v # vs) = bindR (push s v) (\<lambda>s'. push_list s' vs)"

fun pop_list :: "'s \<Rightarrow> nat \<Rightarrow> ('a list \<times> 's) res" where
  "pop_list s 0 = Inr ([], s)"
| "pop_list s (Suc n) = bindR (pop s) (\<lambda>(x, s'). bindR (pop_list s' n) (\<lambda>(xs, s''). Inr (x # xs, s'')))"

lemma push_list_rep: "rep s xs \<Longrightarrow> \<exists>s'. push_list s vs = Inr s' \<and> rep s' (rev vs @ xs)"
proof (induction vs arbitrary: s xs)
  case (Cons v vs)
  then obtain s1 where "push s v = Inr s1" "rep s1 (v # xs)" using push_rep by blast
  with Cons.IH [of s1 "v # xs"] show ?case by auto
qed simp

lemma pop_list_rep: "rep s (xs @ ys) \<Longrightarrow> \<exists>s'. pop_list s (length xs) = Inr (xs, s') \<and> rep s' ys"
proof (induction xs arbitrary: s)
  case (Cons x xs)
  then obtain s1 where "pop s = Inr (x, s1)" "rep s1 (xs @ ys)" using pop_rep [of s x "xs @ ys"] by auto
  with Cons.IH [of s1] show ?case by auto
qed simp

lemma push_pop_reverses:
  "rep s ys \<Longrightarrow> \<exists>s1 s2. push_list s xs = Inr s1 \<and> pop_list s1 (length xs) = Inr (rev xs, s2) \<and> rep s2 ys"
  using push_list_rep [of s ys xs] pop_list_rep [of _ "rev xs" ys] by (metis length_rev)

end

interpretation bstack: lifo_stack MakeStack Push Pop GetTop IsEmpty stack_rep
  by unfold_locales (rule MakeStack_rep, erule Stack_Push_rep, erule Stack_Pop_rep, erule GetTop_rep, erule Stack_IsEmpty_rep)

end
