(* ===== verification/Calculator.thy ===== *)
theory Calculator
  imports Block_Stack C_Stdio
begin

text \<open>
  \<open>C-Labs/Calculator/src/main.c\<close>: the two stack evaluation of arithmetic expressions.  Both stacks hold
  \<open>int\<close>s, the operators as character codes, as in the source.  \<open>ExitWithMessage\<close> ends the program with
  status 0.  The evaluator agrees with the usual meaning of an expression as long as no
  product or quotient stands between two additive operators; there it goes wrong, because
  \<open>ApplyTopOperator\<close> applies only one pending operator.
\<close>

section \<open>Definitions\<close>

datatype ElementType = Operand | Operator

definition ExitWithMessage :: "string \<Rightarrow> 'a res" where
  "ExitWithMessage msg = Inl (Exit 0 (msg @ ''\<newline>''))"

abbreviation SYNTAX_ERROR :: string where
  "SYNTAX_ERROR \<equiv> ''syntax error''"

definition CharToDigit :: "char \<Rightarrow> int res" where
  "CharToDigit ch = assertR (isdigit ch) (Inr (int (chr_code ch) - 48))"

text \<open>\<open>strchr\<close> as a test: whether a code that is not 0 is the code of a character of the string.\<close>

definition strchr :: "string \<Rightarrow> int \<Rightarrow> bool" where
  "strchr s c = list_ex (\<lambda>x. int (chr_code x) = c) s"

type_synonym int_stack = "int StackInstance"

definition PopOperand :: "int_stack \<Rightarrow> (int \<times> int_stack) res" where
  "PopOperand s = (if IsEmpty s then ExitWithMessage SYNTAX_ERROR else Pop s)"

definition ApplyOperator :: "int_stack \<Rightarrow> int \<Rightarrow> int_stack res" where
  "ApplyOperator operandsStack operator =
     assertR (strchr ''*/+-'' operator)
     (bindR (PopOperand operandsStack) (\<lambda>(o2, s1).
      bindR (PopOperand s1) (\<lambda>(o1, s2).
      if operator = int (chr_code CHR ''+'') then bindR (ckd (o1 + o2)) (Push s2)
      else if operator = int (chr_code CHR ''-'') then bindR (ckd (o1 - o2)) (Push s2)
      else if operator = int (chr_code CHR ''*'') then bindR (ckd (o1 * o2)) (Push s2)
      else if o2 = 0 then ExitWithMessage ''division by zero''
      else bindR (ckd (c_div o1 o2)) (Push s2))))"

definition ApplyTopOperator :: "int_stack \<Rightarrow> int_stack \<Rightarrow> string \<Rightarrow> (int_stack \<times> int_stack) res" where
  "ApplyTopOperator operandsStack operatorsStack typesToApply =
     (if \<not> IsEmpty operatorsStack then
        bindR (GetTop operatorsStack) (\<lambda>t.
        if strchr typesToApply t then
          bindR (Pop operatorsStack) (\<lambda>(op, os).
          bindR (ApplyOperator operandsStack op) (\<lambda>vs. Inr (vs, os)))
        else Inr (operandsStack, operatorsStack))
      else Inr (operandsStack, operatorsStack))"

text \<open>The digits of a number; at least one digit is there when the loop is entered.\<close>

fun number_loop :: "string \<Rightarrow> int \<Rightarrow> (int \<times> string) res" where
  "number_loop [] value = Inr (value, [])"
| "number_loop (c # ptr) value =
     (if isdigit c then
        bindR (CharToDigit c) (\<lambda>d.
        bindR (ckd (value * 10)) (\<lambda>m.
        bindR (ckd (m + d)) (\<lambda>value'.
        number_loop ptr value')))
      else Inr (value, c # ptr))"

text \<open>\<open>None\<close> at the end of the expression; else the value, its type and the rest of the expression.\<close>

definition getNext :: "string \<Rightarrow> (int \<times> ElementType \<times> string) option res" where
  "getNext ptr =
     (case ptr of
        [] \<Rightarrow> Inr None
      | c # rest \<Rightarrow>
          if c = CHR ''('' \<and> rest \<noteq> [] \<and> hd rest = CHR '')'' then ExitWithMessage SYNTAX_ERROR
          else if isdigit c then
            bindR (number_loop ptr 0) (\<lambda>(v, s). Inr (Some (v, Operand, s)))
          else if strchr ''+-*/()'' (int (chr_code c)) then
            Inr (Some (int (chr_code c), Operator, rest))
          else ExitWithMessage SYNTAX_ERROR)"

function ApplyBrackets :: "int_stack \<Rightarrow> int_stack \<Rightarrow> (int_stack \<times> int_stack) res" where
  "ApplyBrackets operands operators =
     (if \<not> IsEmpty operators then
        bindR (Pop operators) (\<lambda>(op, os).
        if op = int (chr_code CHR ''('') then Inr (operands, os)
        else bindR (ApplyOperator operands op) (\<lambda>vs. ApplyBrackets vs os))
      else ExitWithMessage SYNTAX_ERROR)"
  by pat_completeness auto
termination
  by (relation "measure (\<lambda>(vs, os). stack_size os)") (auto dest: Pop_size_less)

declare ApplyBrackets.simps [simp del]

definition handle_operator :: "int_stack \<Rightarrow> int_stack \<Rightarrow> int \<Rightarrow> (int_stack \<times> int_stack) res" where
  "handle_operator operandsStack operatorsStack value =
     (if strchr ''*/'' value then
        bindR (ApplyTopOperator operandsStack operatorsStack ''*/'') (\<lambda>(vs, os).
        bindR (Push os value) (\<lambda>os'. Inr (vs, os')))
      else if strchr ''+-'' value then
        bindR (ApplyTopOperator operandsStack operatorsStack ''+-*/'') (\<lambda>(vs, os).
        bindR (Push os value) (\<lambda>os'. Inr (vs, os')))
      else if value = int (chr_code CHR ''('') then
        bindR (Push operatorsStack value) (\<lambda>os'. Inr (operandsStack, os'))
      else if value = int (chr_code CHR '')'') then ApplyBrackets operandsStack operatorsStack
      else Inr (operandsStack, operatorsStack))"

lemma number_loop_length: "number_loop s v = Inr (w, s') \<Longrightarrow> length s' \<le> length s"
proof (induction s arbitrary: v)
  case (Cons c s)
  then show ?case by (auto split: if_splits intro: le_SucI)
qed simp

lemma getNext_length: "getNext s = Inr (Some (v, t, s')) \<Longrightarrow> length s' < length s"
proof (cases s)
  case (Cons c r)
  assume g: "getNext s = Inr (Some (v, t, s'))"
  show ?thesis
  proof (cases "isdigit c")
    case True
    have n: "\<And>w m. number_loop (c # r) 0 = Inr (w, m) \<Longrightarrow> length m \<le> length r"
      using True number_loop_length by (auto simp: CharToDigit_def)
    show ?thesis using g Cons True n by (auto simp: getNext_def ExitWithMessage_def split: if_splits)
  next
    case False
    then show ?thesis using g Cons by (auto simp: getNext_def ExitWithMessage_def split: if_splits)
  qed
qed (auto simp: getNext_def)

function element_loop :: "string \<Rightarrow> int_stack \<Rightarrow> int_stack \<Rightarrow> (int_stack \<times> int_stack) res" where
  "element_loop expr operandsStack operatorsStack =
     bindR (getNext expr) (\<lambda>r.
     case r of
       None \<Rightarrow> Inr (operandsStack, operatorsStack)
     | Some (value, Operand, expr') \<Rightarrow>
         bindR (Push operandsStack value) (\<lambda>vs. element_loop expr' vs operatorsStack)
     | Some (value, Operator, expr') \<Rightarrow>
         bindR (handle_operator operandsStack operatorsStack value) (\<lambda>(vs, os). element_loop expr' vs os))"
  by pat_completeness auto
termination
  by (relation "measure (\<lambda>(expr, vs, os). length expr)") (auto dest: getNext_length)

declare element_loop.simps [simp del]

function remaining_loop :: "int_stack \<Rightarrow> int_stack \<Rightarrow> int_stack res" where
  "remaining_loop operandsStack operatorsStack =
     (if \<not> IsEmpty operatorsStack then
        bindR (Pop operatorsStack) (\<lambda>(op, os).
        if \<not> strchr ''+-/*'' op then ExitWithMessage SYNTAX_ERROR
        else bindR (ApplyOperator operandsStack op) (\<lambda>vs. remaining_loop vs os))
      else Inr operandsStack)"
  by pat_completeness auto
termination
  by (relation "measure (\<lambda>(vs, os). stack_size os)") (auto dest: Pop_size_less)

declare remaining_loop.simps [simp del]

definition CalculateExpression :: "string \<Rightarrow> int res" where
  "CalculateExpression expr =
     bindR (element_loop expr MakeStack MakeStack) (\<lambda>(vs, os).
     bindR (remaining_loop vs os) (\<lambda>vs'.
     if IsEmpty vs' then ExitWithMessage SYNTAX_ERROR
     else bindR (Pop vs') (\<lambda>(result, _). Inr result)))"

text \<open>Only the return value 0 of \<open>scanf\<close> is rejected: at the end of the input the buffer is read uninitialised.\<close>

definition main :: "string \<Rightarrow> string res" where
  "main stdin =
     (case scanf_line 1000 stdin of
        Mismatch _ \<Rightarrow> ExitWithMessage SYNTAX_ERROR
      | InputEnd \<Rightarrow> Inl Undefined
      | Item inp _ \<Rightarrow>
          bindR (CalculateExpression (takeWhile (\<lambda>c. c \<noteq> CHR 0x00) inp)) (\<lambda>v. Inr (show_int v @ ''\<newline>'')))"

section \<open>Expressions and their meaning\<close>

datatype binop = Add | Sub | Mul | Div

datatype expr = Num nat | Bin binop expr expr

fun op_char :: "binop \<Rightarrow> char" where
  "op_char Add = CHR ''+''"
| "op_char Sub = CHR ''-''"
| "op_char Mul = CHR ''*''"
| "op_char Div = CHR ''/''"

abbreviation op_code :: "binop \<Rightarrow> int" where
  "op_code op \<equiv> int (chr_code (op_char op))"

fun apply_op :: "binop \<Rightarrow> int \<Rightarrow> int \<Rightarrow> int res" where
  "apply_op Add a b = ckd (a + b)"
| "apply_op Sub a b = ckd (a - b)"
| "apply_op Mul a b = ckd (a * b)"
| "apply_op Div a b = (if b = 0 then ExitWithMessage ''division by zero'' else ckd (c_div a b))"

text \<open>The meaning of an expression in C: arithmetic on \<open>int\<close>, undefined on overflow.\<close>

fun eval :: "expr \<Rightarrow> int res" where
  "eval (Num n) = ckd (int n)"
| "eval (Bin op l r) = bindR (eval l) (\<lambda>a. bindR (eval r) (\<lambda>b. apply_op op a b))"

fun additive :: "binop \<Rightarrow> bool" where
  "additive op \<longleftrightarrow> op = Add \<or> op = Sub"

fun is_sum :: "expr \<Rightarrow> bool" where
  "is_sum (Num n) = False"
| "is_sum (Bin op l r) = additive op"

fun is_product :: "expr \<Rightarrow> bool" where
  "is_product (Num n) = False"
| "is_product (Bin op l r) = (\<not> additive op)"

definition bracket :: "bool \<Rightarrow> string \<Rightarrow> string" where
  "bracket b s = (if b then ''('' @ s @ '')'' else s)"

text \<open>The text of an expression, with brackets where left associativity and precedence need them.\<close>

fun show_expr :: "expr \<Rightarrow> string" where
  "show_expr (Num n) = show_nat n"
| "show_expr (Bin op l r) =
     bracket (\<not> additive op \<and> is_sum l) (show_expr l) @ [op_char op] @
     bracket (is_sum r \<or> \<not> additive op \<and> is_product r) (show_expr r)"

text \<open>After a sum whose last summand is a product, no further summand follows.\<close>

fun ends_in_product :: "expr \<Rightarrow> bool" where
  "ends_in_product (Num n) = False"
| "ends_in_product (Bin op l r) = (additive op \<and> is_product r)"

fun supported :: "expr \<Rightarrow> bool" where
  "supported (Num n) = True"
| "supported (Bin op l r) = (supported l \<and> supported r \<and> \<not> (additive op \<and> ends_in_product l))"

section \<open>Single steps\<close>

lemma code_eq_iff: "chr_code c = chr_code d \<longleftrightarrow> c = d"
  by (simp add: chr_code_def)

lemma strchr_code: "strchr s (int (chr_code c)) \<longleftrightarrow> c \<in> set s"
  by (auto simp: strchr_def list_ex_iff code_eq_iff)

lemma op_char_cases: "op_char op \<in> {CHR ''+'', CHR ''-'', CHR ''*'', CHR ''/''}"
  by (cases op) auto

lemma PopOperand_rep:
  assumes "stack_rep s (x # xs)"
  shows "\<exists>s'. PopOperand s = Inr (x, s') \<and> stack_rep s' xs"
  using bstack.pop_rep [OF assms] bstack.empty_rep [OF assms] by (simp add: PopOperand_def)

lemma ApplyOperator_rep:
  assumes "stack_rep s (b # a # vs)" and "apply_op op a b = Inr v"
  shows "\<exists>s'. ApplyOperator s (op_code op) = Inr s' \<and> stack_rep s' (v # vs)"
proof -
  obtain s1 where s1: "PopOperand s = Inr (b, s1)" "stack_rep s1 (a # vs)" using PopOperand_rep [OF assms(1)] by blast
  obtain s2 where s2: "PopOperand s1 = Inr (a, s2)" "stack_rep s2 vs" using PopOperand_rep [OF s1(2)] by blast
  obtain s' where s': "Push s2 v = Inr s'" "stack_rep s' (v # vs)" using bstack.push_rep [OF s2(2)] by blast
  show ?thesis
    using s1(1) s2(1) s' assms(2)
    by (cases op) (auto simp: ApplyOperator_def strchr_code code_eq_iff ExitWithMessage_def split: if_splits)
qed

text \<open>Applying a list of pending operators to the values.\<close>

fun reduce :: "int list \<Rightarrow> binop list \<Rightarrow> int list res" where
  "reduce vs [] = Inr vs"
| "reduce (b # a # vs) (op # ops) = bindR (apply_op op a b) (\<lambda>v. reduce (v # vs) ops)"
| "reduce vs (op # ops) = Inl Undefined"

lemma reduce_append: "reduce vs (ops @ ops') = bindR (reduce vs ops) (\<lambda>vs'. reduce vs' ops')"
  by (induction vs ops rule: reduce.induct) (auto simp: bindR_assoc intro: bindR_cong)

lemma reduce_step:
  assumes "reduce vs (op # ops) = Inr ws"
  obtains b a vs' v where "vs = b # a # vs'" and "apply_op op a b = Inr v" and "reduce (v # vs') ops = Inr ws"
  using assms by (cases "(vs, op # ops)" rule: reduce.cases) auto

lemma ApplyBrackets_rep:
  assumes "stack_rep s vs" and "stack_rep q (map op_code ops @ int (chr_code CHR ''('') # os)" and "reduce vs ops = Inr ws"
  shows "\<exists>s' q'. ApplyBrackets s q = Inr (s', q') \<and> stack_rep s' ws \<and> stack_rep q' os"
  using assms
proof (induction ops arbitrary: s q vs)
  case Nil
  then obtain q' where "Pop q = Inr (int (chr_code CHR ''(''), q')" "stack_rep q' os"
    using bstack.pop_rep [of q "int (chr_code CHR ''('')" os] by auto
  with Nil bstack.empty_rep [OF Nil.prems(2)] show ?case by (subst ApplyBrackets.simps) simp
next
  case (Cons op ops)
  obtain b a vs' v where r: "vs = b # a # vs'" "apply_op op a b = Inr v" "reduce (v # vs') ops = Inr ws"
    using reduce_step [OF Cons.prems(3)] .
  obtain s1 where s1: "ApplyOperator s (op_code op) = Inr s1" "stack_rep s1 (v # vs')"
    using ApplyOperator_rep Cons.prems(1) r(1,2) by blast
  obtain q1 where q1: "Pop q = Inr (op_code op, q1)" "stack_rep q1 (map op_code ops @ int (chr_code CHR ''('') # os)"
    using bstack.pop_rep [of q "op_code op"] Cons.prems(2) by auto
  have "op_char op \<noteq> CHR ''(''" using op_char_cases [of op] by auto
  with s1 q1 Cons.IH [OF s1(2) q1(2) r(3)] bstack.empty_rep [OF Cons.prems(2)] show ?case
    by (subst ApplyBrackets.simps) (simp add: code_eq_iff)
qed

lemma remaining_loop_rep:
  assumes "stack_rep s vs" and "stack_rep q (map op_code ops)" and "reduce vs ops = Inr ws"
  shows "\<exists>s'. remaining_loop s q = Inr s' \<and> stack_rep s' ws"
  using assms
proof (induction ops arbitrary: s q vs)
  case Nil
  then show ?case using bstack.empty_rep [of q "[]"] by (subst remaining_loop.simps) simp
next
  case (Cons op ops)
  obtain b a vs' v where r: "vs = b # a # vs'" "apply_op op a b = Inr v" "reduce (v # vs') ops = Inr ws"
    using reduce_step [OF Cons.prems(3)] .
  obtain s1 where s1: "ApplyOperator s (op_code op) = Inr s1" "stack_rep s1 (v # vs')"
    using ApplyOperator_rep Cons.prems(1) r(1,2) by blast
  obtain q1 where q1: "Pop q = Inr (op_code op, q1)" "stack_rep q1 (map op_code ops)"
    using bstack.pop_rep [of q "op_code op"] Cons.prems(2) by auto
  have "op_char op \<in> set ''+-/*''" using op_char_cases [of op] by auto
  with s1 q1 Cons.IH [OF s1(2) q1(2) r(3)] bstack.empty_rep [OF Cons.prems(2)] show ?case
    by (subst remaining_loop.simps) (simp add: strchr_code)
qed

section \<open>Reading an expression\<close>

definition val :: "expr \<Rightarrow> int" where
  "val e = (case eval e of Inr v \<Rightarrow> v | Inl _ \<Rightarrow> 0)"

text \<open>What reading an expression leaves pending: the values and the operators, the top first.\<close>

fun pending :: "expr \<Rightarrow> int list \<times> binop list" where
  "pending (Num n) = ([int n], [])"
| "pending (Bin op l r) =
     (if additive op then
        (if is_sum r then ([val r, val l], [op]) else (fst (pending r) @ [val l], snd (pending r) @ [op]))
      else ([val r, val l], [op]))"

lemma eval_Bin:
  assumes "eval (Bin op l r) = Inr v"
  shows "eval l = Inr (val l)" and "eval r = Inr (val r)" and "apply_op op (val l) (val r) = Inr v"
  using assms by (auto simp: val_def)

lemma reduce_pending:
  "eval e = Inr v \<Longrightarrow> reduce (fst (pending e) @ vs) (snd (pending e)) = Inr (v # vs)"
proof (induction e arbitrary: v vs)
  case (Num n)
  then show ?case by (auto simp: ckd_Inr_iff)
next
  case (Bin op l r)
  note e = eval_Bin [OF Bin.prems]
  show ?case
  proof (cases "additive op \<and> \<not> is_sum r")
    case True
    then show ?thesis using Bin.IH(2) [OF e(2), of "val l # vs"] e(3) by (simp add: reduce_append)
  next
    case False
    then show ?thesis using e(3) by auto
  qed
qed

text \<open>What the operator stack may show when an expression is begun.\<close>

definition free_of :: "string \<Rightarrow> int list \<Rightarrow> bool" where
  "free_of types os \<longleftrightarrow> (case os of [] \<Rightarrow> True | t # _ \<Rightarrow> \<not> strchr types t)"

lemma ApplyTopOperator_none:
  assumes "stack_rep q os" and "free_of types os"
  shows "ApplyTopOperator s q types = Inr (s, q)"
  using assms bstack.empty_rep [OF assms(1)] bstack.top_rep [of q]
  by (cases os) (auto simp: ApplyTopOperator_def free_of_def)

lemma ApplyTopOperator_one:
  assumes "stack_rep s (b # a # vs)" and "stack_rep q (op_code op # os)" and "op_char op \<in> set types"
    and "apply_op op a b = Inr v"
  shows "\<exists>s' q'. ApplyTopOperator s q types = Inr (s', q') \<and> stack_rep s' (v # vs) \<and> stack_rep q' os"
proof -
  obtain q' where "Pop q = Inr (op_code op, q')" "stack_rep q' os" using bstack.pop_rep [OF assms(2)] by blast
  then show ?thesis
    using ApplyOperator_rep [OF assms(1,4)] bstack.empty_rep [OF assms(2)] bstack.top_rep [OF assms(2)] assms(3)
    by (auto simp: ApplyTopOperator_def strchr_code)
qed

text \<open>Before the operator that follows an expression, one application settles everything that is pending.\<close>

lemma settle:
  assumes "eval e = Inr v" and "supported e" and "stack_rep s (fst (pending e) @ vs)"
    and "stack_rep q (map op_code (snd (pending e)) @ os)" and "free_of types os"
    and "if types = ''*/'' then \<not> is_sum e else types = ''+-*/'' \<and> \<not> ends_in_product e"
  shows "\<exists>s' q'. ApplyTopOperator s q types = Inr (s', q') \<and> stack_rep s' (v # vs) \<and> stack_rep q' os"
proof (cases e)
  case (Num n)
  then show ?thesis using assms ApplyTopOperator_none [of q os types s] by (auto simp: ckd_Inr_iff)
next
  case (Bin op l r)
  note ev = eval_Bin [OF assms(1) [unfolded Bin]]
  have p: "pending e = ([val r, val l], [op])"
  proof (cases "additive op \<and> \<not> is_sum r")
    case True
    then obtain n where "r = Num n" using assms(6) Bin by (cases r) (auto split: if_splits)
    with True ev(2) Bin show ?thesis by (auto simp: val_def ckd_Inr_iff)
  next
    case False
    with Bin show ?thesis by auto
  qed
  have "op_char op \<in> set types"
    using assms(6) Bin op_char_cases [of op] by (cases op) (auto split: if_splits)
  then show ?thesis using ApplyTopOperator_one [of s "val r" "val l" vs q op os types v] assms(3,4) p ev(3) by simp
qed

lemma number_loop_ok:
  assumes "\<forall>c \<in> set ds. isdigit c" and "rest = [] \<or> \<not> isdigit (hd rest)"
    and "int (foldl (\<lambda>a c. a * 10 + digit_of c) n ds) < 2 ^ 31"
  shows "number_loop (ds @ rest) (int n) = Inr (int (foldl (\<lambda>a c. a * 10 + digit_of c) n ds), rest)"
  using assms(1,3)
proof (induction ds arbitrary: n)
  case Nil
  with assms(2) show ?case by (cases rest) auto
next
  case (Cons c ds)
  let ?f = "\<lambda>a c. a * 10 + digit_of c"
  have mono: "m \<le> foldl ?f m xs" for m xs
  proof (induction xs arbitrary: m)
    case (Cons x xs)
    from Cons [of "?f m x"] show ?case by simp
  qed simp
  have "int (?f n c) < 2 ^ 31" using mono [of "?f n c" ds] Cons.prems(2) by simp
  moreover have "CharToDigit c = Inr (int (digit_of c))"
    using Cons.prems(1) by (auto simp: CharToDigit_def digit_of_def isdigit_def)
  ultimately show ?case
    using Cons.IH [of "?f n c"] Cons.prems by (auto simp: in_int32_def)
qed

lemma getNext_number:
  assumes "ckd (int n) = Inr v" and "rest = [] \<or> \<not> isdigit (hd rest)"
  shows "getNext (show_nat n @ rest) = Inr (Some (v, Operand, rest))"
proof -
  have v: "v = int n" "int n < 2 ^ 31" using assms(1) by (auto simp: ckd_Inr_iff in_int32_def)
  have d: "\<forall>c \<in> set (show_nat n). isdigit c" using show_nat_digits digit_of_less_10_iff by blast
  have "number_loop (show_nat n @ rest) 0 = Inr (int n, rest)"
    using number_loop_ok [OF d assms(2), of 0] v(2) digits_value_show_nat [of n] by (simp add: digits_value_def)
  moreover obtain c s where "show_nat n = c # s" using show_nat_Cons [of n] by auto
  ultimately show ?thesis using d v(1) by (auto simp: getNext_def isdigit_def chr_code_def)
qed

lemma getNext_symbol:
  assumes "c \<in> set ''+-*/()''" and "c = CHR ''('' \<Longrightarrow> rest \<noteq> [] \<Longrightarrow> hd rest \<noteq> CHR '')''"
  shows "getNext (c # rest) = Inr (Some (int (chr_code c), Operator, rest))"
proof -
  have "\<not> isdigit c" using assms(1) by (auto simp: isdigit_def chr_code_def)
  with assms show ?thesis by (auto simp: getNext_def strchr_code)
qed

lemma free_of_mono: "set a \<subseteq> set b \<Longrightarrow> free_of b os \<Longrightarrow> free_of a os"
  by (auto simp: free_of_def strchr_def list_ex_iff split: list.splits)

lemma show_expr_hd: "show_expr e \<noteq> [] \<and> (isdigit (hd (show_expr e)) \<or> hd (show_expr e) = CHR ''('')"
proof (induction e)
  case (Num n)
  obtain c s where "show_nat n = c # s" "digit_of c < 10" using show_nat_Cons [of n] by blast
  then show ?case by (simp add: digit_of_less_10_iff)
qed (auto simp: bracket_def)

text \<open>Reading an expression, for any stacks below and any text behind.\<close>

definition reads :: "expr \<Rightarrow> string \<Rightarrow> int list \<Rightarrow> binop list \<Rightarrow> (int list \<Rightarrow> bool) \<Rightarrow> bool" where
  "reads e text ws ops P \<longleftrightarrow> (\<forall>s q vs os rest. stack_rep s vs \<longrightarrow> stack_rep q os \<longrightarrow> P os \<longrightarrow>
     rest = [] \<or> \<not> isdigit (hd rest) \<longrightarrow>
     (\<exists>s' q'. element_loop (text @ rest) s q = element_loop rest s' q' \<and> stack_rep s' (ws @ vs) \<and>
        stack_rep q' (map op_code ops @ os)))"

lemma readsD:
  assumes "reads e text ws ops P" and "stack_rep s vs" and "stack_rep q os" and "P os" and "rest = [] \<or> \<not> isdigit (hd rest)"
  obtains s' q' where "element_loop (text @ rest) s q = element_loop rest s' q'" and "stack_rep s' (ws @ vs)"
    and "stack_rep q' (map op_code ops @ os)"
  using assms unfolding reads_def by blast

lemma reads_bracket:
  assumes "reads e (show_expr e) (fst (pending e)) (snd (pending e)) (free_of (if is_sum e then ''+-*/'' else ''*/''))"
    and "eval e = Inr v"
  shows "reads e (''('' @ show_expr e @ '')'') [v] [] (\<lambda>_. True)"
  unfolding reads_def
proof (intro allI impI)
  fix s q :: int_stack and vs os :: "int list" and rest :: string
  assume s: "stack_rep s vs" and q: "stack_rep q os"
  let ?open = "int (chr_code CHR ''('')"
  obtain q1 where q1: "Push q ?open = Inr q1" "stack_rep q1 (?open # os)" using bstack.push_rep [OF q] by blast
  have g1: "getNext (CHR ''('' # show_expr e @ '')'' @ rest) = Inr (Some (?open, Operator, show_expr e @ '')'' @ rest))"
    using show_expr_hd [of e] by (intro getNext_symbol) (auto simp: isdigit_def chr_code_def)
  have st1: "element_loop (CHR ''('' # show_expr e @ '')'' @ rest) s q = element_loop (show_expr e @ '')'' @ rest) s q1"
    by (subst element_loop.simps) (simp add: g1 [simplified] handle_operator_def strchr_code q1(1))
  have f: "free_of types (?open # os)" if "types = ''+-*/'' \<or> types = ''*/''" for types
    using that by (auto simp: free_of_def strchr_code)
  obtain s2 q2 where st2: "element_loop (show_expr e @ '')'' @ rest) s q1 = element_loop ('')'' @ rest) s2 q2"
      "stack_rep s2 (fst (pending e) @ vs)" "stack_rep q2 (map op_code (snd (pending e)) @ ?open # os)"
  proof (rule readsD [OF assms(1) s q1(2), of "'')'' @ rest"])
    show "free_of (if is_sum e then ''+-*/'' else ''*/'') (?open # os)" by (simp add: f)
    show "'')'' @ rest = [] \<or> \<not> isdigit (hd ('')'' @ rest))" by (simp add: isdigit_def chr_code_def)
  qed (use that in blast)
  obtain s3 q3 where b: "ApplyBrackets s2 q2 = Inr (s3, q3)" "stack_rep s3 (v # vs)" "stack_rep q3 os"
    using ApplyBrackets_rep [OF st2(2,3) reduce_pending [OF assms(2)]] by blast
  have g3: "getNext (CHR '')'' # rest) = Inr (Some (int (chr_code CHR '')''), Operator, rest))"
    by (rule getNext_symbol) auto
  have "element_loop ('')'' @ rest) s2 q2 = element_loop rest s3 q3"
    using g3 by (subst element_loop.simps) (simp add: handle_operator_def strchr_code code_eq_iff b(1))
  with st1 st2(1) b show "\<exists>s' q'. element_loop ((''('' @ show_expr e @ '')'') @ rest) s q = element_loop rest s' q' \<and>
      stack_rep s' ([v] @ vs) \<and> stack_rep q' (map op_code [] @ os)"
    by auto
qed

lemma reads_number:
  assumes "eval (Num n) = Inr v"
  shows "reads (Num n) (show_nat n) [v] [] (\<lambda>_. True)"
  unfolding reads_def
proof (intro allI impI)
  fix s q :: int_stack and vs os :: "int list" and rest :: string
  assume s: "stack_rep s vs" and q: "stack_rep q os" and rest: "rest = [] \<or> \<not> isdigit (hd rest)"
  obtain s' where s': "Push s v = Inr s'" "stack_rep s' (v # vs)" using bstack.push_rep [OF s] by blast
  have "getNext (show_nat n @ rest) = Inr (Some (v, Operand, rest))" using assms rest by (intro getNext_number) auto
  then have "element_loop (show_nat n @ rest) s q = element_loop rest s' q"
    using s'(1) by (subst element_loop.simps) simp
  with s' q show "\<exists>s' q'. element_loop (show_nat n @ rest) s q = element_loop rest s' q' \<and>
      stack_rep s' ([v] @ vs) \<and> stack_rep q' (map op_code [] @ os)" by auto
qed

text \<open>The operator after the left operand: what was pending is settled and the operator pushed.\<close>

lemma operator_step:
  assumes "ApplyTopOperator s q (if additive op then ''+-*/'' else ''*/'') = Inr (s1, q1)" and "stack_rep q1 os"
  shows "\<exists>q2. element_loop (op_char op # rest) s q = element_loop rest s1 q2 \<and> stack_rep q2 (op_code op # os)"
proof -
  obtain q2 where q2: "Push q1 (op_code op) = Inr q2" "stack_rep q2 (op_code op # os)" using bstack.push_rep [OF assms(2)] by blast
  have "getNext (op_char op # rest) = Inr (Some (op_code op, Operator, rest))"
    using op_char_cases [of op] by (intro getNext_symbol) auto
  moreover have "handle_operator s q (op_code op) = Inr (s1, q2)"
    using assms(1) q2(1) by (cases op) (simp_all add: handle_operator_def strchr_code)
  ultimately show ?thesis using q2(2) by (subst element_loop.simps) auto
qed

text \<open>The left operand together with the operator.\<close>

lemma left_step:
  assumes "reads l (show_expr l) (fst (pending l)) (snd (pending l)) (free_of (if is_sum l then ''+-*/'' else ''*/''))"
    and "eval l = Inr v" and "supported l" and "\<not> (additive op \<and> ends_in_product l)"
    and "stack_rep s vs" and "stack_rep q os" and "free_of (if additive op then ''+-*/'' else ''*/'') os"
  shows "\<exists>s' q'. element_loop (bracket (\<not> additive op \<and> is_sum l) (show_expr l) @ op_char op # rest) s q = element_loop rest s' q' \<and>
    stack_rep s' (v # vs) \<and> stack_rep q' (op_code op # os)"
proof -
  let ?types = "if additive op then ''+-*/'' else ''*/''"
  have nd: "op_char op # rest = [] \<or> \<not> isdigit (hd (op_char op # rest))"
    by (cases op) (simp_all add: isdigit_def chr_code_def)
  obtain s1 q1 where st1: "element_loop (bracket (\<not> additive op \<and> is_sum l) (show_expr l) @ op_char op # rest) s q =
      element_loop (op_char op # rest) s1 q1"
      and top: "\<exists>s2 q2. ApplyTopOperator s1 q1 ?types = Inr (s2, q2) \<and> stack_rep s2 (v # vs) \<and> stack_rep q2 os"
  proof (cases "\<not> additive op \<and> is_sum l")
    case True
    obtain s1 q1 where r: "element_loop ((''('' @ show_expr l @ '')'') @ op_char op # rest) s q = element_loop (op_char op # rest) s1 q1"
        "stack_rep s1 ([v] @ vs)" "stack_rep q1 (map op_code [] @ os)"
      using readsD [OF reads_bracket [OF assms(1,2)] assms(5,6) TrueI nd] .
    show thesis
    proof (rule that)
      show "element_loop (bracket (\<not> additive op \<and> is_sum l) (show_expr l) @ op_char op # rest) s q = element_loop (op_char op # rest) s1 q1"
        using True r(1) by (simp add: bracket_def)
      show "\<exists>s2 q2. ApplyTopOperator s1 q1 ?types = Inr (s2, q2) \<and> stack_rep s2 (v # vs) \<and> stack_rep q2 os"
        using ApplyTopOperator_none [of q1 os ?types s1] r(2,3) assms(7) by auto
    qed
  next
    case False
    have "free_of (if is_sum l then ''+-*/'' else ''*/'') os"
      using False assms(7) free_of_mono [of "''*/''" "''+-*/''" os] by (auto split: if_splits)
    then obtain s1 q1 where r: "element_loop (show_expr l @ op_char op # rest) s q = element_loop (op_char op # rest) s1 q1"
        "stack_rep s1 (fst (pending l) @ vs)" "stack_rep q1 (map op_code (snd (pending l)) @ os)"
      using readsD [OF assms(1,5,6) _ nd] by blast
    show thesis
    proof (rule that)
      show "element_loop (bracket (\<not> additive op \<and> is_sum l) (show_expr l) @ op_char op # rest) s q = element_loop (op_char op # rest) s1 q1"
        using False r(1) by (auto simp: bracket_def)
      show "\<exists>s2 q2. ApplyTopOperator s1 q1 ?types = Inr (s2, q2) \<and> stack_rep s2 (v # vs) \<and> stack_rep q2 os"
        by (rule settle [OF assms(2,3) r(2,3) assms(7)]) (use False assms(4) in auto)
    qed
  qed
  then obtain s2 q2 where a: "ApplyTopOperator s1 q1 ?types = Inr (s2, q2)" "stack_rep s2 (v # vs)" "stack_rep q2 os" by blast
  from operator_step [OF a(1,3)] st1 a(2) show ?thesis by metis
qed

lemma reads_weaken: "reads e t ws ops P \<Longrightarrow> (\<And>os. Q os \<Longrightarrow> P os) \<Longrightarrow> reads e t ws ops Q"
  unfolding reads_def by blast

lemma reads_expr:
  "eval e = Inr v \<Longrightarrow> supported e \<Longrightarrow>
   reads e (show_expr e) (fst (pending e)) (snd (pending e)) (free_of (if is_sum e then ''+-*/'' else ''*/''))"
proof (induction e arbitrary: v)
  case (Num n)
  then have "v = int n" by (auto simp: ckd_Inr_iff)
  with reads_weaken [OF reads_number [OF Num(1)]] show ?case by simp
next
  case (Bin op l r)
  note ev = eval_Bin [OF Bin.prems(1)]
  have sup: "supported l" "supported r" "\<not> (additive op \<and> ends_in_product l)" using Bin.prems(2) by auto
  let ?b = "is_sum r \<or> \<not> additive op \<and> is_product r"
  have right: "reads r (bracket ?b (show_expr r)) (if ?b \<or> \<not> additive op then [val r] else fst (pending r))
      (if ?b \<or> \<not> additive op then [] else snd (pending r)) (\<lambda>os. additive op \<longrightarrow> free_of ''*/'' os)"
  proof (cases ?b)
    case True
    with reads_weaken [OF reads_bracket [OF Bin.IH(2) [OF ev(2) sup(2)] ev(2)]] show ?thesis by (simp add: bracket_def)
  next
    case False
    show ?thesis
    proof (cases "additive op")
      case add: True
      with False reads_weaken [OF Bin.IH(2) [OF ev(2) sup(2)]] show ?thesis by (simp add: bracket_def)
    next
      case mul: False
      with False obtain n where n: "r = Num n" by (cases r) auto
      with mul reads_weaken [OF reads_number [OF ev(2) [unfolded n]]] show ?thesis by (simp add: bracket_def)
    qed
  qed
  show ?case unfolding reads_def
  proof (intro allI impI)
    fix s q :: int_stack and vs os :: "int list" and rest :: string
    assume s: "stack_rep s vs" and q: "stack_rep q os" and rest: "rest = [] \<or> \<not> isdigit (hd rest)"
      and f: "free_of (if is_sum (Bin op l r) then ''+-*/'' else ''*/'') os"
    obtain s1 q1 where st1: "element_loop (bracket (\<not> additive op \<and> is_sum l) (show_expr l) @ op_char op # bracket ?b (show_expr r) @ rest) s q =
        element_loop (bracket ?b (show_expr r) @ rest) s1 q1" "stack_rep s1 (val l # vs)" "stack_rep q1 (op_code op # os)"
      using left_step [OF Bin.IH(1) [OF ev(1) sup(1)] ev(1) sup(1,3) s q, of "bracket ?b (show_expr r) @ rest"] f
      by (auto simp del: additive.simps)
    have "additive op \<longrightarrow> free_of ''*/'' (op_code op # os)" by (cases op) (simp_all add: free_of_def strchr_code)
    then obtain s2 q2 where "element_loop (bracket ?b (show_expr r) @ rest) s1 q1 = element_loop rest s2 q2"
        "stack_rep s2 ((if ?b \<or> \<not> additive op then [val r] else fst (pending r)) @ val l # vs)"
        "stack_rep q2 (map op_code (if ?b \<or> \<not> additive op then [] else snd (pending r)) @ op_code op # os)"
      using readsD [OF right st1(2,3) _ rest] by blast
    with st1(1) show "\<exists>s' q'. element_loop (show_expr (Bin op l r) @ rest) s q = element_loop rest s' q' \<and>
        stack_rep s' (fst (pending (Bin op l r)) @ vs) \<and> stack_rep q' (map op_code (snd (pending (Bin op l r))) @ os)"
      by (intro exI [of _ s2] exI [of _ q2]) (cases "is_sum r"; cases "additive op"; simp del: additive.simps)
  qed
qed

text \<open>C13: an expression in which no product or quotient stands between two additive operators is evaluated to
  its value, whenever that value is defined: no overflow and no division by zero.\<close>

theorem CalculateExpression_correct:
  assumes "eval e = Inr v" and "supported e"
  shows "CalculateExpression (show_expr e) = Inr v"
proof -
  have "free_of (if is_sum e then ''+-*/'' else ''*/'') []" by (simp add: free_of_def)
  then obtain s q where r: "element_loop (show_expr e @ []) MakeStack MakeStack = element_loop [] s q"
      "stack_rep s (fst (pending e) @ [])" "stack_rep q (map op_code (snd (pending e)) @ [])"
    using readsD [OF reads_expr [OF assms] MakeStack_rep MakeStack_rep, of "[]"] by blast
  have "element_loop [] s q = Inr (s, q)" by (subst element_loop.simps) (simp add: getNext_def)
  moreover obtain s' where s': "remaining_loop s q = Inr s'" "stack_rep s' [v]"
    using remaining_loop_rep [of s "fst (pending e)" q "snd (pending e)"] reduce_pending [OF assms(1), of "[]"] r by auto
  moreover obtain s'' where "Pop s' = Inr (v, s'')" using bstack.pop_rep [OF s'(2)] by blast
  ultimately show ?thesis
    using r(1) bstack.empty_rep [OF s'(2)] by (simp add: CalculateExpression_def)
qed

theorem CalculateExpression_correct_witness:
  "CalculateExpression (show_expr (Bin Sub (Bin Sub (Num 10) (Num 2)) (Bin Mul (Bin Add (Num 1) (Num 2)) (Num 4)))) = Inr (- 4)"
  by (rule CalculateExpression_correct) (simp_all add: ckd_def in_int32_def)

text \<open>With a product between two subtractions the result is not the value: the first subtraction is
  left pending and takes the difference that follows it.\<close>

lemma chain_after_product_wrong:
  "CalculateExpression ''10-2*3-1'' = Inr 5" "eval (Bin Sub (Bin Sub (Num 10) (Bin Mul (Num 2) (Num 3))) (Num 1)) = Inr 3"
  by code_simp+

end
