(* ===== verification/Ordered_Tree.thy ===== *)
theory Ordered_Tree
  imports C_Prelude
begin

text \<open>
  The interface of the search trees of the repository (AVL, red-black and B-trees): inserting a value into a
  tree inserts it into the ascending sequence of its values.  Equal values are kept.
\<close>

lemma insort_append_left:
  "sorted (xs @ a # ys) \<Longrightarrow> v \<le> a \<Longrightarrow> insort v (xs @ a # ys) = insort v xs @ a # ys"
  by (induction xs) auto

lemma insort_append_right:
  "sorted (xs @ a # ys) \<Longrightarrow> a < v \<Longrightarrow> insort v (xs @ a # ys) = xs @ a # insort v ys"
  by (induction xs) auto

lemma insort_append_right_le:
  "\<forall>x \<in> set xs. x < v \<Longrightarrow> insort v (xs @ ys) = xs @ insort v ys"
  by (induction xs) (auto simp: not_le)

lemma insort_prefix:
  "\<forall>y \<in> set ys. v \<le> y \<Longrightarrow> insort v (xs @ ys) = insort v xs @ ys"
  by (induction xs) (auto simp: insort_is_Cons)

lemma sorted_parts:
  assumes "sorted (xs @ a # ys)"
  shows "sorted xs" and "sorted ys"
  using assms by (auto simp: sorted_append)

locale ordered_tree =
  fixes empty :: 't and insert :: "'t \<Rightarrow> int \<Rightarrow> 't res" and inorder :: "'t \<Rightarrow> int list"
    and invar :: "'t \<Rightarrow> bool" and limit :: nat
  assumes empty_ok: "invar empty" "inorder empty = []"
    and insert_ok: "invar t \<Longrightarrow> length (inorder t) < limit \<Longrightarrow>
      \<exists>t'. insert t v = Inr t' \<and> invar t' \<and> inorder t' = insort v (inorder t)"
begin

fun insert_list :: "'t \<Rightarrow> int list \<Rightarrow> 't res" where
  "insert_list t [] = Inr t"
| "insert_list t (v # vs) = bindR (insert t v) (\<lambda>t'. insert_list t' vs)"

lemma insert_list_ok:
  assumes "invar t" and "length (inorder t) + length vs \<le> limit"
  shows "\<exists>t'. insert_list t vs = Inr t' \<and> invar t' \<and> inorder t' = fold insort vs (inorder t)"
  using assms
proof (induction vs arbitrary: t)
  case (Cons v vs)
  then obtain t1 where t1: "insert t v = Inr t1" "invar t1" "inorder t1 = insort v (inorder t)"
    using insert_ok [of t v] by auto
  with Cons.IH [of t1] Cons.prems show ?case by auto
qed simp

lemma insert_all_sorts:
  assumes "length vs \<le> limit"
  shows "\<exists>t. insert_list empty vs = Inr t \<and> invar t \<and> inorder t = sort vs"
proof -
  obtain t where t: "insert_list empty vs = Inr t" "invar t" "inorder t = fold insort vs []"
    using insert_list_ok [of empty vs] empty_ok assms by auto
  have s: "sorted (fold insort xs ys) \<and> mset (fold insort xs ys) = mset xs + mset ys" if "sorted ys" for xs ys :: "int list"
    using that by (induction xs arbitrary: ys) (auto simp: sorted_insort)
  have "fold insort vs [] = sort vs" using s [of "[]" vs] properties_for_sort [of "fold insort vs []" vs] by simp
  with t show ?thesis by simp
qed

end

end
