(* ===== verification/Avl_Insertion.thy ===== *)
theory Avl_Insertion
  imports Ordered_Tree C_Stdio
begin

text \<open>
  \<open>C-Labs/AVL_tree_insertion/src/main.c\<close>: insertion into an AVL tree with the depth of each node stored in an
  \<open>int8_t\<close>.  A node is linked into one parent, so trees are values and \<open>NullNode\<close> is NULL; the array the nodes
  come from is the node argument that is present or not.
\<close>

section \<open>Definitions\<close>

datatype AVLNode = NullNode | AVLNode (depth: int) (avl_value: int) (leftChild: AVLNode) (rightChild: AVLNode)

definition ExitWithMessage :: "string \<Rightarrow> 'a res" where
  "ExitWithMessage msg = Inl (Exit 0 (msg @ ''\<newline>''))"

definition to_int8 :: "int \<Rightarrow> int" where
  "to_int8 v = (v + 128) mod 256 - 128"

definition MAX2 :: "int \<Rightarrow> int \<Rightarrow> int" where
  "MAX2 a b = (if a < b then b else a)"

definition BST_TO_LEFT :: "int \<Rightarrow> int \<Rightarrow> bool" where
  "BST_TO_LEFT val nodeVal \<longleftrightarrow> val \<le> nodeVal"

definition MakeNode :: "int \<Rightarrow> AVLNode" where
  "MakeNode v = AVLNode 1 v NullNode NullNode"

fun getDepth :: "AVLNode \<Rightarrow> int" where
  "getDepth NullNode = 0"
| "getDepth (AVLNode d v l r) = d"

fun updateDepth :: "AVLNode \<Rightarrow> AVLNode res" where
  "updateDepth NullNode = Inl AssertFail"
| "updateDepth (AVLNode d v l r) = Inr (AVLNode (to_int8 (1 + MAX2 (getDepth l) (getDepth r))) v l r)"

fun getBalanceFactor :: "AVLNode \<Rightarrow> int res" where
  "getBalanceFactor NullNode = Inl AssertFail"
| "getBalanceFactor (AVLNode d v l r) = Inr (getDepth r - getDepth l)"

fun RotateLeft :: "AVLNode \<Rightarrow> AVLNode res" where
  "RotateLeft (AVLNode d v l (AVLNode d' v' l' r')) =
     bindR (updateDepth (AVLNode d v l l')) (\<lambda>nodeA. updateDepth (AVLNode d' v' nodeA r'))"
| "RotateLeft _ = Inl Undefined"

fun RotateRight :: "AVLNode \<Rightarrow> AVLNode res" where
  "RotateRight (AVLNode d v (AVLNode d' v' l' r') r) =
     bindR (updateDepth (AVLNode d v r' r)) (\<lambda>nodeA. updateDepth (AVLNode d' v' l' nodeA))"
| "RotateRight _ = Inl Undefined"

fun RotateLeftRight :: "AVLNode \<Rightarrow> AVLNode res" where
  "RotateLeftRight NullNode = Inl Undefined"
| "RotateLeftRight (AVLNode d v l r) = bindR (RotateLeft l) (\<lambda>l'. RotateRight (AVLNode d v l' r))"

fun RotateRightLeft :: "AVLNode \<Rightarrow> AVLNode res" where
  "RotateRightLeft NullNode = Inl Undefined"
| "RotateRightLeft (AVLNode d v l r) = bindR (RotateRight r) (\<lambda>r'. RotateLeft (AVLNode d v l r'))"

text \<open>The part of \<open>Insert\<close> after the recursive call.\<close>

definition rebalance :: "int \<Rightarrow> AVLNode \<Rightarrow> AVLNode res" where
  "rebalance value node =
     bindR (updateDepth node) (\<lambda>node1.
     bindR (getBalanceFactor node1) (\<lambda>balanceFactor.
     if balanceFactor < -1 then
       (case leftChild node1 of
          NullNode \<Rightarrow> Inl Undefined
        | AVLNode d v l r \<Rightarrow> if BST_TO_LEFT value v then RotateRight node1 else RotateLeftRight node1)
     else if balanceFactor > 1 then
       (case rightChild node1 of
          NullNode \<Rightarrow> Inl Undefined
        | AVLNode d v l r \<Rightarrow> if BST_TO_LEFT value v then RotateRightLeft node1 else RotateLeft node1)
     else Inr node1))"

fun Insert :: "AVLNode \<Rightarrow> int \<Rightarrow> AVLNode res" where
  "Insert NullNode value = Inr (MakeNode value)"
| "Insert (AVLNode d v l r) value =
     (if BST_TO_LEFT value v then bindR (Insert l value) (\<lambda>l'. rebalance value (AVLNode d v l' r))
      else bindR (Insert r value) (\<lambda>r'. rebalance value (AVLNode d v l r')))"

text \<open>A return value of \<open>scanf\<close> other than 0, \<open>EOF\<close> included, counts as success: then an uninitialised
  variable is used.\<close>

fun insert_loop :: "AVLNode \<Rightarrow> nat \<Rightarrow> string \<Rightarrow> AVLNode res" where
  "insert_loop root 0 s = Inr root"
| "insert_loop root (Suc n) s =
     (case scanf_i s of
        Mismatch _ \<Rightarrow> ExitWithMessage ''No input''
      | InputEnd \<Rightarrow> Inl Undefined
      | Item val s' \<Rightarrow> bindR (Insert root val) (\<lambda>root'. insert_loop root' n s'))"

definition main :: "string \<Rightarrow> string res" where
  "main stdin =
     (case scanf_i stdin of
        Mismatch _ \<Rightarrow> ExitWithMessage ''No input''
      | InputEnd \<Rightarrow> Inl Undefined
      | Item nodesCount s \<Rightarrow>
          bindR (insert_loop NullNode (nat nodesCount) s) (\<lambda>root. Inr (show_int (getDepth root) @ ''\<newline>'')))"

section \<open>Order\<close>

fun inorder :: "AVLNode \<Rightarrow> int list" where
  "inorder NullNode = []"
| "inorder (AVLNode d v l r) = inorder l @ v # inorder r"

lemma updateDepth_inorder: "updateDepth t = Inr t' \<Longrightarrow> inorder t' = inorder t"
  by (cases t) auto

lemma RotateLeft_inorder: "RotateLeft t = Inr t' \<Longrightarrow> inorder t' = inorder t"
  by (cases t rule: RotateLeft.cases) auto

lemma RotateRight_inorder: "RotateRight t = Inr t' \<Longrightarrow> inorder t' = inorder t"
  by (cases t rule: RotateRight.cases) auto

lemma RotateLeftRight_inorder: "RotateLeftRight t = Inr t' \<Longrightarrow> inorder t' = inorder t"
  by (cases t) (auto dest!: RotateLeft_inorder RotateRight_inorder)

lemma RotateRightLeft_inorder: "RotateRightLeft t = Inr t' \<Longrightarrow> inorder t' = inorder t"
  by (cases t) (auto dest!: RotateLeft_inorder RotateRight_inorder)

lemmas rotations_inorder = updateDepth_inorder RotateLeft_inorder RotateRight_inorder
  RotateLeftRight_inorder RotateRightLeft_inorder

lemma rebalance_inorder: "rebalance v t = Inr t' \<Longrightarrow> inorder t' = inorder t"
  unfolding rebalance_def by (auto split: if_splits AVLNode.splits dest!: rotations_inorder)

lemma Insert_inorder:
  "Insert t v = Inr t' \<Longrightarrow> sorted (inorder t) \<Longrightarrow> inorder t' = insort v (inorder t)"
proof (induction t arbitrary: t')
  case NullNode
  then show ?case by (auto simp: MakeNode_def)
next
  case (AVLNode d a l r)
  have srt: "sorted (inorder l @ a # inorder r)" using AVLNode.prems(2) by simp
  show ?case
  proof (cases "v \<le> a")
    case True
    then obtain l' where l': "Insert l v = Inr l'" "rebalance v (AVLNode d a l' r) = Inr t'"
      using AVLNode.prems(1) by (auto simp: BST_TO_LEFT_def)
    with AVLNode.IH(1) [OF l'(1) sorted_parts(1) [OF srt]] True srt show ?thesis
      by (simp add: rebalance_inorder insort_append_left)
  next
    case False
    then obtain r' where r': "Insert r v = Inr r'" "rebalance v (AVLNode d a l r') = Inr t'"
      using AVLNode.prems(1) by (auto simp: BST_TO_LEFT_def)
    with AVLNode.IH(2) [OF r'(1) sorted_parts(2) [OF srt]] False srt show ?thesis
      by (simp add: rebalance_inorder insort_append_right)
  qed
qed

section \<open>Balance\<close>

fun height :: "AVLNode \<Rightarrow> nat" where
  "height NullNode = 0"
| "height (AVLNode d v l r) = Suc (max (height l) (height r))"

text \<open>The stored depths are the heights, and the heights of siblings differ by at most one.\<close>

fun avl :: "AVLNode \<Rightarrow> bool" where
  "avl NullNode \<longleftrightarrow> True"
| "avl (AVLNode d v l r) \<longleftrightarrow> avl l \<and> avl r \<and> height l \<le> height r + 1 \<and> height r \<le> height l + 1 \<and>
     d = int (height (AVLNode d v l r))"

lemma getDepth_avl: "avl t \<Longrightarrow> getDepth t = int (height t)"
  by (cases t) auto

lemma updateDepth_avl:
  "avl l \<Longrightarrow> avl r \<Longrightarrow> max (height l) (height r) < 127 \<Longrightarrow>
   updateDepth (AVLNode d v l r) = Inr (AVLNode (int (Suc (max (height l) (height r)))) v l r)"
  by (auto simp: getDepth_avl MAX2_def to_int8_def max_def)

text \<open>How an insertion changes the tree: it may grow by one, and then towards the inserted value.\<close>

definition grown :: "int \<Rightarrow> AVLNode \<Rightarrow> AVLNode \<Rightarrow> bool" where
  "grown v t t' \<longleftrightarrow> height t' = height t \<or>
     height t' = Suc (height t) \<and>
     (\<forall>d a l r. t = AVLNode d a l r \<longrightarrow>
        avl_value t' = a \<and>
        (if v \<le> a then height (leftChild t') = Suc (height (rightChild t'))
         else height (rightChild t') = Suc (height (leftChild t'))))"

lemma updateDepth_height:
  "avl l \<Longrightarrow> avl r \<Longrightarrow> max (height l) (height r) = h \<Longrightarrow> h < 127 \<Longrightarrow>
   updateDepth (AVLNode d v l r) = Inr (AVLNode (int (Suc h)) v l r)"
  using updateDepth_avl [of l r d v] by simp

text \<open>A double rotation lifts the grandchild \<open>(x, y)\<close> to the top.\<close>

abbreviation lifted :: "nat \<Rightarrow> int \<Rightarrow> int \<Rightarrow> int \<Rightarrow> AVLNode \<Rightarrow> AVLNode \<Rightarrow> AVLNode \<Rightarrow> AVLNode \<Rightarrow> AVLNode" where
  "lifted h a b c p x y q \<equiv>
     AVLNode (int (Suc (Suc h))) b (AVLNode (int (Suc h)) a p x) (AVLNode (int (Suc h)) c y q)"

lemma double_rotation:
  assumes "avl p" "avl x" "avl y" "avl q" and "height p = h" "height q = h" and "max (height x) (height y) = h"
    and "h \<le> height x + 1" "h \<le> height y + 1" and "h < 124"
  shows "RotateLeftRight (AVLNode d a (AVLNode d' a' p (AVLNode d'' a'' x y)) q) =
      Inr (lifted h a' a'' a p x y q)"
    and "RotateRightLeft (AVLNode d a p (AVLNode d' a' (AVLNode d'' a'' x y) q)) =
      Inr (lifted h a a'' a' p x y q)"
    and "avl (lifted h b b' b'' p x y q)" and "height (lifted h b b' b'' p x y q) = Suc (Suc h)"
proof -
  have m: "max (height p) (height x) = h" "max (height y) (height q) = h" using assms(5-7) by auto
  have in1: "updateDepth (AVLNode e v p x) = Inr (AVLNode (int (Suc h)) v p x)" for e v
    using assms m by (intro updateDepth_height) auto
  have in2: "updateDepth (AVLNode e v y q) = Inr (AVLNode (int (Suc h)) v y q)" for e v
    using assms m by (intro updateDepth_height) auto
  have av: "avl (AVLNode (int (Suc h)) v p x)" "avl (AVLNode (int (Suc h)) v y q)" for v using assms m by auto
  have hh: "height (AVLNode e v p x) = Suc h" "height (AVLNode e v y q) = Suc h" for e v using m by auto
  have out1: "updateDepth (AVLNode e v (AVLNode (int (Suc h)) w p x) y) = Inr (AVLNode (int (Suc (Suc h))) v (AVLNode (int (Suc h)) w p x) y)" for e v w
    using assms(7,10) av assms(3) hh by (intro updateDepth_height) auto
  have out2: "updateDepth (AVLNode e v x (AVLNode (int (Suc h)) w y q)) = Inr (AVLNode (int (Suc (Suc h))) v x (AVLNode (int (Suc h)) w y q))" for e v w
    using assms(7,10) av assms(2) hh by (intro updateDepth_height) auto
  have top: "updateDepth (AVLNode e v (AVLNode (int (Suc h)) w p x) (AVLNode (int (Suc h)) w' y q)) =
      Inr (AVLNode (int (Suc (Suc h))) v (AVLNode (int (Suc h)) w p x) (AVLNode (int (Suc h)) w' y q))" for e v w w'
    using assms(10) av hh by (intro updateDepth_height) auto
  show "RotateLeftRight (AVLNode d a (AVLNode d' a' p (AVLNode d'' a'' x y)) q) = Inr (lifted h a' a'' a p x y q)"
    using in1 in2 out1 top by (simp del: updateDepth.simps)
  show "RotateRightLeft (AVLNode d a p (AVLNode d' a' (AVLNode d'' a'' x y) q)) = Inr (lifted h a a'' a' p x y q)"
    using in1 in2 out2 top by (simp del: updateDepth.simps)
  show "avl (lifted h b b' b'' p x y q)" "height (lifted h b b' b'' p x y q) = Suc (Suc h)" using av hh by auto
qed

lemma rebalance_left:
  assumes "avl (AVLNode d a l r)" and "avl l'" and "grown v l l'" and "v \<le> a" and "height (AVLNode d a l r) < 126"
  shows "\<exists>t'. rebalance v (AVLNode d a l' r) = Inr t' \<and> avl t' \<and> grown v (AVLNode d a l r) t'"
proof (cases "height l' \<le> height r + 1")
  case True
  let ?t = "AVLNode (int (Suc (max (height l') (height r)))) a l' r"
  have h: "height l' = height l \<or> height l' = Suc (height l)" using assms(3) by (auto simp: grown_def)
  have "updateDepth (AVLNode d a l' r) = Inr ?t" using assms h by (intro updateDepth_avl) auto
  moreover have "getBalanceFactor ?t = Inr (int (height r) - int (height l'))" using assms by (simp add: getDepth_avl)
  ultimately have "rebalance v (AVLNode d a l' r) = Inr ?t" using True assms h by (auto simp: rebalance_def)
  moreover have "avl ?t" "grown v (AVLNode d a l r) ?t" using assms h True by (auto simp: grown_def)
  ultimately show ?thesis by blast
next
  case False
  then have hl: "height l' = Suc (height l)" "height l = Suc (height r)"
    using assms(1,3) by (auto simp: grown_def)
  then obtain dl al ll0 lr0 where l: "l = AVLNode dl al ll0 lr0" by (cases l) auto
  obtain d2 ll lr where l': "l' = AVLNode d2 al ll lr"
    and dir: "if v \<le> al then height ll = Suc (height lr) else height lr = Suc (height ll)"
  proof (cases l')
    case (AVLNode d2 a2 ll lr)
    moreover have "avl_value l' = al" "if v \<le> al then height (leftChild l') = Suc (height (rightChild l'))
        else height (rightChild l') = Suc (height (leftChild l'))"
      using assms(3) hl(1) l by (auto simp: grown_def)
    ultimately show thesis using that [of d2] by (auto split: if_splits)
  qed (use hl(1) in simp)
  have upd: "updateDepth (AVLNode d a l' r) = Inr (AVLNode (int (Suc (height l'))) a l' r)"
    using updateDepth_avl [of l' r d a] assms hl by simp
  have bf: "getBalanceFactor (AVLNode (int (Suc (height l'))) a l' r) = Inr (- 2)"
    using assms hl by (simp add: getDepth_avl)
  have top: "rebalance v (AVLNode d a l' r) =
      (if v \<le> al then RotateRight (AVLNode (int (Suc (height l'))) a l' r)
       else RotateLeftRight (AVLNode (int (Suc (height l'))) a l' r))"
    using upd bf l' by (simp add: rebalance_def BST_TO_LEFT_def)
  have small: "height l' < 126" using assms(5) hl by simp
  show ?thesis
  proof (cases "v \<le> al")
    case True
    then have "height lr = height r" "height ll = Suc (height r)" using dir hl l' by auto
    with True top l' assms(2) assms(1) hl small show ?thesis
      by (auto simp: getDepth_avl MAX2_def to_int8_def grown_def)
  next
    case False
    then have h: "height ll = height r" "height lr = Suc (height r)" using dir hl l' by auto
    then obtain d3 a3 x y where lr: "lr = AVLNode d3 a3 x y" by (cases lr) auto
    have "max (height x) (height y) = height r" "height r \<le> height x + 1" "height r \<le> height y + 1"
      using h lr assms(2) l' by auto
    with double_rotation [of ll x y r "height r"] h lr l' assms(1,2,5) False top show ?thesis
      by (auto simp: grown_def hl simp del: RotateLeftRight.simps)
  qed
qed

lemma rebalance_right:
  assumes "avl (AVLNode d a l r)" and "avl r'" and "grown v r r'" and "a < v" and "height (AVLNode d a l r) < 126"
  shows "\<exists>t'. rebalance v (AVLNode d a l r') = Inr t' \<and> avl t' \<and> grown v (AVLNode d a l r) t'"
proof (cases "height r' \<le> height l + 1")
  case True
  let ?t = "AVLNode (int (Suc (max (height l) (height r')))) a l r'"
  have h: "height r' = height r \<or> height r' = Suc (height r)" using assms(3) by (auto simp: grown_def)
  have "updateDepth (AVLNode d a l r') = Inr ?t" using assms h by (intro updateDepth_avl) auto
  moreover have "getBalanceFactor ?t = Inr (int (height r') - int (height l))" using assms by (simp add: getDepth_avl)
  ultimately have "rebalance v (AVLNode d a l r') = Inr ?t" using True assms h by (auto simp: rebalance_def)
  moreover have "avl ?t" "grown v (AVLNode d a l r) ?t" using assms h True by (auto simp: grown_def)
  ultimately show ?thesis by blast
next
  case False
  then have hr: "height r' = Suc (height r)" "height r = Suc (height l)"
    using assms(1,3) by (auto simp: grown_def)
  then obtain dr ar rl0 rr0 where r: "r = AVLNode dr ar rl0 rr0" by (cases r) auto
  obtain d2 rl rr where r': "r' = AVLNode d2 ar rl rr"
    and dir: "if v \<le> ar then height rl = Suc (height rr) else height rr = Suc (height rl)"
  proof (cases r')
    case (AVLNode d2 a2 rl rr)
    moreover have "avl_value r' = ar" "if v \<le> ar then height (leftChild r') = Suc (height (rightChild r'))
        else height (rightChild r') = Suc (height (leftChild r'))"
      using assms(3) hr(1) r by (auto simp: grown_def)
    ultimately show thesis using that [of d2] by (auto split: if_splits)
  qed (use hr(1) in simp)
  have upd: "updateDepth (AVLNode d a l r') = Inr (AVLNode (int (Suc (height r'))) a l r')"
    using updateDepth_avl [of l r' d a] assms hr by simp
  have bf: "getBalanceFactor (AVLNode (int (Suc (height r'))) a l r') = Inr 2"
    using assms hr by (simp add: getDepth_avl)
  have top: "rebalance v (AVLNode d a l r') =
      (if v \<le> ar then RotateRightLeft (AVLNode (int (Suc (height r'))) a l r')
       else RotateLeft (AVLNode (int (Suc (height r'))) a l r'))"
    using upd bf r' by (simp add: rebalance_def BST_TO_LEFT_def)
  have small: "height r' < 126" using assms(5) hr by simp
  show ?thesis
  proof (cases "v \<le> ar")
    case False
    then have "height rl = height l" "height rr = Suc (height l)" using dir hr r' by auto
    with False top r' assms(2) assms(1) hr small show ?thesis
      by (auto simp: getDepth_avl MAX2_def to_int8_def grown_def)
  next
    case True
    then have h: "height rr = height l" "height rl = Suc (height l)" using dir hr r' by auto
    then obtain d3 a3 x y where rl: "rl = AVLNode d3 a3 x y" by (cases rl) auto
    have "max (height x) (height y) = height l" "height l \<le> height x + 1" "height l \<le> height y + 1"
      using h rl assms(2) r' by auto
    with double_rotation [of l x y rr "height l"] h rl r' assms(1,2,5) True top show ?thesis
      by (auto simp: grown_def hr simp del: RotateRightLeft.simps)
  qed
qed

lemma Insert_avl:
  "avl t \<Longrightarrow> height t < 126 \<Longrightarrow> \<exists>t'. Insert t v = Inr t' \<and> avl t' \<and> grown v t t'"
proof (induction t)
  case NullNode
  then show ?case by (simp add: MakeNode_def grown_def)
next
  case (AVLNode d a l r)
  show ?case
  proof (cases "v \<le> a")
    case True
    obtain l' where "Insert l v = Inr l'" "avl l'" "grown v l l'" using AVLNode by auto
    with rebalance_left [OF AVLNode.prems(1) _ _ True] AVLNode.prems(2) True show ?thesis by (simp add: BST_TO_LEFT_def)
  next
    case False
    obtain r' where "Insert r v = Inr r'" "avl r'" "grown v r r'" using AVLNode by auto
    with rebalance_right [OF AVLNode.prems(1)] AVLNode.prems(2) False show ?thesis by (simp add: BST_TO_LEFT_def not_le)
  qed
qed

text \<open>The height is logarithmic in the number of values.\<close>

lemma power_half: "(2 :: nat) ^ (h div 2) \<le> 2 * 2 ^ ((h - 2) div 2)"
proof (cases "h < 2")
  case False
  then have "h div 2 = Suc ((h - 2) div 2)" by (simp add: le_div_geq)
  then show ?thesis by simp
qed simp

lemma avl_size: "avl t \<Longrightarrow> 2 ^ (height t div 2) \<le> Suc (length (inorder t))"
proof (induction t)
  case (AVLNode d a l r)
  let ?h = "height (AVLNode d a l r)"
  have "(?h - 2) div 2 \<le> height l div 2" "(?h - 2) div 2 \<le> height r div 2" using AVLNode.prems by (auto intro!: div_le_mono)
  then have "2 ^ ((?h - 2) div 2) \<le> Suc (length (inorder l))" "2 ^ ((?h - 2) div 2) \<le> Suc (length (inorder r))"
    using AVLNode by (auto intro: order_trans [OF power_increasing])
  then have "2 * 2 ^ ((?h - 2) div 2) \<le> Suc (length (inorder (AVLNode d a l r)))" by simp
  moreover have "(2 :: nat) ^ (?h div 2) \<le> 2 * 2 ^ ((?h - 2) div 2)" by (rule power_half)
  ultimately show ?case by linarith
qed simp

definition avl_invar :: "AVLNode \<Rightarrow> bool" where
  "avl_invar t \<longleftrightarrow> avl t \<and> sorted (inorder t)"

lemma avl_height_small:
  assumes "avl t" and "length (inorder t) < 2 ^ 31"
  shows "height t < 126"
proof (rule ccontr)
  assume "\<not> height t < 126"
  then have "(2 :: nat) ^ 63 \<le> 2 ^ (height t div 2)" by (intro power_increasing) auto
  also have "\<dots> \<le> Suc (length (inorder t))" using avl_size [OF assms(1)] .
  finally show False using assms(2) by simp
qed

interpretation avl_tree: ordered_tree NullNode Insert inorder avl_invar "2 ^ 31"
proof
  fix t v assume t: "avl_invar t" "length (inorder t) < 2 ^ 31"
  then obtain t' where "Insert t v = Inr t'" "avl t'"
    using Insert_avl [of t v] avl_height_small [of t] by (auto simp: avl_invar_def)
  with t Insert_inorder [of t v t'] show "\<exists>t'. Insert t v = Inr t' \<and> avl_invar t' \<and> inorder t' = insort v (inorder t)"
    by (auto simp: avl_invar_def sorted_insort)
qed (simp_all add: avl_invar_def)

text \<open>C14: inserting a value into a balanced search tree of fewer than \<open>2 ^ 31\<close> values succeeds and gives a
  balanced search tree whose ascending sequence has the value inserted; the stored depths are exact.\<close>

theorem Insert_keeps_avl:
  assumes "avl_invar t" and "length (inorder t) < 2 ^ 31"
  shows "\<exists>t'. Insert t v = Inr t' \<and> avl_invar t' \<and> inorder t' = insort v (inorder t) \<and> getDepth t' = int (height t')"
  using avl_tree.insert_ok [OF assms, of v] getDepth_avl by (auto simp: avl_invar_def)

theorem Insert_keeps_avl_witness:
  "\<exists>t'. Insert (AVLNode 1 5 NullNode NullNode) 3 = Inr t' \<and> avl_invar t' \<and>
    inorder t' = insort 3 (inorder (AVLNode 1 5 NullNode NullNode)) \<and> getDepth t' = int (height t')"
  by (rule Insert_keeps_avl) (simp_all add: avl_invar_def)

section \<open>The program\<close>

lemma insert_loop_show:
  assumes "\<forall>v \<in> set vs. in_int32 v"
  shows "insert_loop t (length vs) (CHR '' '' # show_ints vs) = avl_tree.insert_list t vs"
  using assms
proof (induction vs arbitrary: t)
  case (Cons v vs)
  then have "scanf_i (CHR '' '' # show_int v @ CHR '' '' # show_ints vs) = Item v (CHR '' '' # show_ints vs)" by simp
  with Cons show ?case by (simp add: show_ints_def bindR_def split: sum.splits)
qed simp

text \<open>C15: on a count and that many numbers the program inserts them one after the other into an AVL tree and prints the
  height of that tree, which is balanced, holds exactly these numbers, and is at most twice as high as the binary logarithm
  of their number, rounded up, plus one.\<close>

theorem avl_main_prints_height:
  assumes "int (length vs) < 2 ^ 31" and "\<forall>v \<in> set vs. in_int32 v"
  shows "\<exists>t. avl_tree.insert_list NullNode vs = Inr t \<and> avl t \<and> inorder t = sort vs \<and>
    main (show_int (int (length vs)) @ '' '' @ show_ints vs) = Inr (show_int (int (height t)) @ ''\<newline>'') \<and>
    2 ^ (height t div 2) \<le> Suc (length vs)"
proof -
  obtain t where t: "avl_tree.insert_list NullNode vs = Inr t" "avl_invar t" "inorder t = sort vs"
    using avl_tree.insert_all_sorts [of vs] assms(1) by auto
  have avl: "avl t" using t(2) by (simp add: avl_invar_def)
  have "in_int32 (int (length vs))" using assms(1) by (simp add: in_int32_def)
  then have "main (show_int (int (length vs)) @ '' '' @ show_ints vs) = Inr (show_int (int (height t)) @ ''\<newline>'')"
    using insert_loop_show [OF assms(2), of NullNode] t(1) getDepth_avl [OF avl] by (simp add: main_def)
  moreover have "2 ^ (height t div 2) \<le> Suc (length vs)" using avl_size [of t] avl t(3) by simp
  ultimately show ?thesis using t avl by blast
qed

theorem avl_main_prints_height_witness:
  "\<exists>t. avl_tree.insert_list NullNode [3, 1, 2] = Inr t \<and> avl t \<and> inorder t = sort [3, 1, 2] \<and>
    main (show_int (int (length [3, 1, 2 :: int])) @ '' '' @ show_ints [3, 1, 2]) = Inr (show_int (int (height t)) @ ''\<newline>'') \<and>
    2 ^ (height t div 2) \<le> Suc (length [3, 1, 2 :: int])"
  by (rule avl_main_prints_height) (simp_all add: in_int32_def)

end
