(* ===== verification/B_Tree.thy ===== *)
theory B_Tree
  imports Ordered_Tree C_Stdio
begin

text \<open>
  \<open>C-Labs/B_tree_insertion/src\<close>: insertion into a B-tree that splits full nodes on the way down.  A node keeps
  its two arrays at their full length, with \<open>node_size\<close> values in use; slots beyond it may
  hold stale pointers, as in the source.  Any allocation may fail (\<open>mem\<close>).
\<close>

section \<open>Definitions\<close>

datatype BTreeNode = BTreeNode (node_values: "int list") (node_children: "BTreeNode option list") (node_size: nat)

record BTree =
  root :: "BTreeNode option"
  half_degree :: nat
  tree_height :: nat

datatype exitCode = SUCCESS | ALLOCATION_ERROR | IO_ERROR | WRONG_INPUT

definition empty_btree :: "nat \<Rightarrow> BTree" where
  "empty_btree t = \<lparr>root = None, half_degree = t, tree_height = 0\<rparr>"

definition btree_create :: "nat \<Rightarrow> mem \<Rightarrow> BTree option \<times> mem" where
  "btree_create t mem = (let (ok, mem') = alloc mem in (if ok then Some (empty_btree t) else None, mem'))"

text \<open>Conversion to \<open>size_t\<close>, in which \<open>2 * t\<close> and \<open>2 * t - 1\<close> wrap around.\<close>

definition to_size :: "int \<Rightarrow> nat" where
  "to_size v = nat (v mod 2 ^ 64)"

text \<open>\<open>calloc\<close> refuses more than \<open>PTRDIFF_MAX\<close> bytes, the product of count and element size not wrapping around.\<close>

definition calloc :: "nat \<Rightarrow> nat \<Rightarrow> mem \<Rightarrow> bool \<times> mem" where
  "calloc n bytes mem = (let (ok, mem') = alloc mem in (ok \<and> n * bytes < 2 ^ 63, mem'))"

definition createNode :: "nat \<Rightarrow> mem \<Rightarrow> BTreeNode option \<times> mem" where
  "createNode t mem =
     (let (ok, mem1) = alloc mem in
      if \<not> ok then (None, mem1)
      else let (ok_values, mem2) = calloc (to_size (2 * int t - 1)) 4 mem1 in
           if \<not> ok_values then (None, mem2)
           else let (ok_children, mem3) = calloc (to_size (2 * int t)) 8 mem2 in
                if \<not> ok_children then (None, mem3)
                else (Some (BTreeNode (replicate (to_size (2 * int t - 1)) 0) (replicate (to_size (2 * int t)) None) 0), mem3))"

definition isFull :: "nat \<Rightarrow> BTreeNode \<Rightarrow> bool" where
  "isFull t node \<longleftrightarrow> node_size node = to_size (int t * 2 - 1)"

definition isLeaf :: "BTreeNode \<Rightarrow> bool res" where
  "isLeaf node = bindR (arr_get (node_children node) 0) (\<lambda>c. Inr (c = None))"

function find_loop :: "BTreeNode \<Rightarrow> int \<Rightarrow> nat \<Rightarrow> nat \<Rightarrow> nat res" where
  "find_loop node value l r =
     (if l < r then
        (let mid = l + (r - l) div 2 in
         bindR (arr_get (node_values node) mid) (\<lambda>x.
         if value \<le> x then find_loop node value l mid else find_loop node value (mid + 1) r))
      else Inr r)"
  by pat_completeness auto
termination
  by (relation "measure (\<lambda>(node, value, l, r). r - l)") auto

declare find_loop.simps [simp del]

definition findChildIdx :: "BTreeNode \<Rightarrow> int \<Rightarrow> nat res" where
  "findChildIdx node value = find_loop node value 0 (node_size node)"

text \<open>\<open>moveTail\<close> gives the changed destination; its size is left to the caller.\<close>

definition moveTail :: "BTreeNode \<Rightarrow> nat \<Rightarrow> BTreeNode \<Rightarrow> nat \<Rightarrow> BTreeNode res" where
  "moveTail src src_pos dest dest_pos =
     (if src_pos \<le> node_size src then
        (let sz = node_size src - src_pos in
         bindR (memmove (node_values dest) dest_pos (node_values src) src_pos sz) (\<lambda>vs.
         bindR (memmove (node_children dest) dest_pos (node_children src) src_pos (sz + 1)) (\<lambda>cs.
         Inr (BTreeNode vs cs (node_size dest)))))
      else Inl Undefined)"

text \<open>The common part of both splits: the upper half of a full node moves to a new node.\<close>

definition split_node :: "nat \<Rightarrow> BTreeNode \<Rightarrow> BTreeNode \<Rightarrow> (BTreeNode \<times> BTreeNode \<times> int) res" where
  "split_node t child newChild =
     bindR (moveTail child t newChild 0) (\<lambda>new1.
     bindR (arr_get (node_values child) (t - 1)) (\<lambda>m.
     Inr (BTreeNode (node_values child) (node_children child) (t - 1),
          BTreeNode (node_values new1) (node_children new1) (t - 1), m)))"

definition splitChild :: "nat \<Rightarrow> BTreeNode \<Rightarrow> nat \<Rightarrow> mem \<Rightarrow> (exitCode \<times> BTreeNode \<times> mem) res" where
  "splitChild t node childIdx mem =
     bindR (arr_get (node_children node) childIdx) (\<lambda>c.
     case createNode t mem of
       (None, mem') \<Rightarrow> Inr (ALLOCATION_ERROR, node, mem')
     | (Some newChild, mem') \<Rightarrow>
         (case c of
            None \<Rightarrow> Inl Undefined
          | Some child \<Rightarrow>
              bindR (split_node t child newChild) (\<lambda>(child', newChild', m).
              bindR (moveTail node childIdx node (childIdx + 1)) (\<lambda>node1.
              bindR (arr_set (node_values node1) childIdx m) (\<lambda>vs.
              bindR (arr_set (node_children node1) childIdx (Some child')) (\<lambda>cs.
              bindR (arr_set cs (childIdx + 1) (Some newChild')) (\<lambda>cs'.
              Inr (SUCCESS, BTreeNode vs cs' (node_size node + 1), mem'))))))))"

definition splitRoot :: "BTree \<Rightarrow> mem \<Rightarrow> (exitCode \<times> BTree \<times> mem) res" where
  "splitRoot tree mem =
     (let t = half_degree tree in
      case createNode t mem of
        (None, mem1) \<Rightarrow> Inr (ALLOCATION_ERROR, tree, mem1)
      | (Some newRoot, mem1) \<Rightarrow>
          (case createNode t mem1 of
             (None, mem2) \<Rightarrow> Inr (ALLOCATION_ERROR, tree, mem2)
           | (Some newChild, mem2) \<Rightarrow>
               (case root tree of
                  None \<Rightarrow> Inl Undefined
                | Some oldRoot \<Rightarrow>
                    bindR (split_node t oldRoot newChild) (\<lambda>(oldRoot', newChild', m).
                    bindR (arr_set (node_values newRoot) 0 m) (\<lambda>vs.
                    bindR (arr_set (node_children newRoot) 0 (Some oldRoot')) (\<lambda>cs.
                    bindR (arr_set cs 1 (Some newChild')) (\<lambda>cs'.
                    Inr (SUCCESS, tree\<lparr>root := Some (BTreeNode vs cs' 1), tree_height := tree_height tree + 1\<rparr>,
                         mem2))))))))"

definition insertValue :: "BTreeNode \<Rightarrow> int \<Rightarrow> BTreeNode res" where
  "insertValue node value =
     bindR (findChildIdx node value) (\<lambda>childIdx.
     bindR (moveTail node childIdx node (childIdx + 1)) (\<lambda>node1.
     bindR (arr_set (node_values node1) childIdx value) (\<lambda>vs.
     Inr (BTreeNode vs (node_children node1) (node_size node + 1)))))"

text \<open>One round of the descent: the child to go to, created if it is missing and split if it is full.\<close>

definition child_or_new :: "nat \<Rightarrow> BTreeNode \<Rightarrow> nat \<Rightarrow> mem \<Rightarrow> (BTreeNode option \<times> BTreeNode \<times> mem) res" where
  "child_or_new t node childIdx mem =
     bindR (arr_get (node_children node) childIdx) (\<lambda>c.
     case c of
       Some ch \<Rightarrow> Inr (Some ch, node, mem)
     | None \<Rightarrow>
         (let (new, mem') = createNode t mem in
          bindR (arr_set (node_children node) childIdx new) (\<lambda>cs.
          Inr (new, BTreeNode (node_values node) cs (node_size node), mem'))))"

definition choose_child :: "nat \<Rightarrow> BTreeNode \<Rightarrow> int \<Rightarrow> mem \<Rightarrow> (exitCode \<times> BTreeNode \<times> nat \<times> mem) res" where
  "choose_child t node value mem =
     bindR (findChildIdx node value) (\<lambda>childIdx.
     bindR (child_or_new t node childIdx mem) (\<lambda>(c, node1, mem1).
     case c of
       None \<Rightarrow> Inr (ALLOCATION_ERROR, node1, childIdx, mem1)
     | Some ch \<Rightarrow>
         if isFull t ch then
           bindR (splitChild t node1 childIdx mem1) (\<lambda>(status, node2, mem2).
           if status \<noteq> SUCCESS then Inr (status, node2, childIdx, mem2)
           else bindR (arr_get (node_values node2) childIdx) (\<lambda>x.
                Inr (SUCCESS, node2, if value > x then childIdx + 1 else childIdx, mem2)))
         else Inr (SUCCESS, node1, childIdx, mem1)))"

text \<open>The descent follows one path of non-NULL pointers; the bound \<open>n\<close> on its length is the stored height of
  the tree, and a longer path is reported as a fault.\<close>

fun descend :: "nat \<Rightarrow> nat \<Rightarrow> BTreeNode \<Rightarrow> int \<Rightarrow> mem \<Rightarrow> (exitCode \<times> BTreeNode \<times> mem) res" where
  "descend 0 t curNode value mem = Inl Undefined"
| "descend (Suc n) t curNode value mem =
     bindR (isLeaf curNode) (\<lambda>leaf.
     if leaf then bindR (insertValue curNode value) (\<lambda>node. Inr (SUCCESS, node, mem))
     else
       bindR (choose_child t curNode value mem) (\<lambda>(status, node1, childIdx, mem1).
       if status \<noteq> SUCCESS then Inr (status, node1, mem1)
       else
         bindR (arr_get (node_children node1) childIdx) (\<lambda>c.
         case c of
           None \<Rightarrow> Inl Undefined
         | Some ch \<Rightarrow>
             bindR (descend n t ch value mem1) (\<lambda>(status', ch', mem2).
             bindR (arr_set (node_children node1) childIdx (Some ch')) (\<lambda>cs.
             Inr (status', BTreeNode (node_values node1) cs (node_size node1), mem2))))))"

definition insert_into_root :: "BTree \<Rightarrow> int \<Rightarrow> mem \<Rightarrow> (exitCode \<times> BTree \<times> mem) res" where
  "insert_into_root tree value mem =
     (case root tree of
        None \<Rightarrow> Inl Undefined
      | Some r \<Rightarrow>
          bindR (descend (tree_height tree) (half_degree tree) r value mem) (\<lambda>(status, r', mem').
          Inr (status, tree\<lparr>root := Some r'\<rparr>, mem')))"

definition btree_insert :: "BTree \<Rightarrow> int \<Rightarrow> mem \<Rightarrow> (exitCode \<times> BTree \<times> mem) res" where
  "btree_insert tree value mem =
     (case root tree of
        None \<Rightarrow>
          (case createNode (half_degree tree) mem of
             (None, mem') \<Rightarrow> Inr (ALLOCATION_ERROR, tree, mem')
           | (Some node, mem') \<Rightarrow>
               bindR (arr_set (node_values node) 0 value) (\<lambda>vs.
               Inr (SUCCESS, tree\<lparr>root := Some (BTreeNode vs (node_children node) 1), tree_height := 1\<rparr>, mem')))
      | Some r \<Rightarrow>
          if isFull (half_degree tree) r then
            bindR (splitRoot tree mem) (\<lambda>(status, tree1, mem1).
            if status \<noteq> SUCCESS then Inr (status, tree1, mem1) else insert_into_root tree1 value mem1)
          else insert_into_root tree value mem)"

definition btree_getHeight :: "BTree \<Rightarrow> nat" where
  "btree_getHeight tree = tree_height tree"

fun insert_values :: "BTree \<Rightarrow> nat \<Rightarrow> string \<Rightarrow> mem \<Rightarrow> (exitCode \<times> BTree) res" where
  "insert_values tree 0 s mem = Inr (SUCCESS, tree)"
| "insert_values tree (Suc n) s mem =
     (case scanf_i s of
        Item value s' \<Rightarrow>
          bindR (btree_insert tree value mem) (\<lambda>(status, tree', mem').
          if status \<noteq> SUCCESS then Inr (status, tree') else insert_values tree' n s' mem')
      | _ \<Rightarrow> Inr (WRONG_INPUT, tree))"

text \<open>\<open>main\<close> reads \<open>in.txt\<close> and writes \<open>out.txt\<close>: the exit code and what is written; the
  diagnostics on \<open>stderr\<close> are left out.\<close>

definition main :: "string option \<Rightarrow> bool \<Rightarrow> mem \<Rightarrow> (exitCode \<times> string) res" where
  "main inp output_opens mem =
     (case inp of
        None \<Rightarrow> Inr (IO_ERROR, [])
      | Some s \<Rightarrow>
          if \<not> output_opens then Inr (IO_ERROR, [])
          else
            case scanf_zu s of
              Item t s1 \<Rightarrow>
                (case scanf_zu s1 of
                   Item nodesCount s2 \<Rightarrow>
                     (case btree_create t mem of
                        (None, mem') \<Rightarrow> Inr (ALLOCATION_ERROR, [])
                      | (Some tree0, mem') \<Rightarrow>
                          bindR (insert_values tree0 nodesCount s2 mem') (\<lambda>(status, tree).
                          Inr (status, if status = SUCCESS then show_nat (btree_getHeight tree) @ ''\<newline>'' else [])))
                 | _ \<Rightarrow> Inr (WRONG_INPUT, []))
            | _ \<Rightarrow> Inr (WRONG_INPUT, []))"

section \<open>The ascending sequence\<close>

text \<open>Values and the sequences of the children between them.\<close>

fun flat :: "int list \<Rightarrow> int list list \<Rightarrow> int list" where
  "flat (v # vs) (c # cs) = c @ v # flat vs cs"
| "flat [] (c # cs) = c"
| "flat vs [] = []"

fun inorder :: "BTreeNode \<Rightarrow> int list" where
  "inorder (BTreeNode vs cs n) =
     flat (take n vs) (take (Suc n) (map (\<lambda>c. case c of None \<Rightarrow> [] | Some b \<Rightarrow> inorder b) cs))"

definition child_inorder :: "BTreeNode option \<Rightarrow> int list" where
  "child_inorder c = (case c of None \<Rightarrow> [] | Some b \<Rightarrow> inorder b)"

lemma inorder_flat:
  "inorder (BTreeNode vs cs n) = flat (take n vs) (map child_inorder (take (Suc n) cs))"
  by (simp add: child_inorder_def [abs_def] take_map)

declare inorder.simps [simp del]

text \<open>A node seen from one of its children: what stands before it and what stands after it.\<close>

fun before :: "int list \<Rightarrow> int list list \<Rightarrow> int list" where
  "before (v # vs) (c # cs) = c @ v # before vs cs"
| "before vs cs = []"

fun after :: "int list \<Rightarrow> int list list \<Rightarrow> int list" where
  "after (v # vs) (c # cs) = v # c @ after vs cs"
| "after vs cs = []"

lemma flat_after: "length cs = length vs \<Longrightarrow> flat vs (c # cs) = c @ after vs cs"
  by (induction vs cs arbitrary: c rule: list_induct2') auto

lemma flat_append:
  "length cs1 = length vs1 \<Longrightarrow> flat (vs1 @ vs2) (cs1 @ cs2) = before vs1 cs1 @ flat vs2 cs2"
  by (induction vs1 cs1 rule: list_induct2') auto

lemma flat_at:
  assumes "length cs1 = length vs1" and "length cs2 = length vs2"
  shows "flat (vs1 @ vs2) (cs1 @ c # cs2) = before vs1 cs1 @ c @ after vs2 cs2"
  using assms by (simp add: flat_append flat_after)

lemma set_before: "length cs = length vs \<Longrightarrow> set vs \<subseteq> set (before vs cs)"
  by (induction vs cs rule: list_induct2') auto

lemma before_le:
  assumes "length cs = length vs" and "sorted (before vs cs)" and "x \<in> set (before vs cs)" and "\<forall>y \<in> set vs. y < v"
  shows "x < v"
  using assms by (induction vs cs rule: list_induct2') (auto simp: sorted_append intro: le_less_trans)

lemma after_ge:
  assumes "length cs = length vs" and "sorted (after vs cs)" and "x \<in> set (after vs cs)" and "\<forall>y \<in> set vs. v \<le> y"
  shows "v \<le> x"
  using assms
proof (induction vs cs rule: list_induct2')
  case (4 a vs c cs)
  then have "a \<le> x" "v \<le> a" by auto
  then show ?case by simp
qed auto

lemma insort_flat_at:
  assumes "length cs1 = length vs1" and "length cs2 = length vs2" and "sorted (flat (vs1 @ vs2) (cs1 @ c # cs2))"
    and "\<forall>y \<in> set vs1. y < v" and "\<forall>y \<in> set vs2. v \<le> y"
  shows "insort v (flat (vs1 @ vs2) (cs1 @ c # cs2)) = flat (vs1 @ vs2) (cs1 @ insort v c # cs2)"
proof -
  note f = flat_at [OF assms(1,2)]
  have s: "sorted (before vs1 cs1)" "sorted (after vs2 cs2)" using assms(3) by (auto simp: f sorted_append)
  have "\<forall>x \<in> set (before vs1 cs1). x < v" using before_le [OF assms(1) s(1) _ assms(4)] by blast
  moreover have "\<forall>x \<in> set (after vs2 cs2). v \<le> x" using after_ge [OF assms(2) s(2) _ assms(5)] by blast
  ultimately show ?thesis unfolding f by (simp add: insort_append_right_le insort_prefix)
qed

lemma sorted_flat_values:
  "length cs = Suc (length vs) \<Longrightarrow> sorted (flat vs cs) \<Longrightarrow> sorted vs"
proof (induction vs cs rule: flat.induct)
  case (1 v vs c cs)
  have "\<forall>x \<in> set vs. x \<in> set (flat vs cs)"
  proof -
    have "length cs = Suc (length vs)" using "1.prems"(1) by simp
    then show ?thesis by (induction vs cs rule: flat.induct) auto
  qed
  with 1 show ?case by (auto simp: sorted_append)
qed auto

text \<open>Splitting a child moves its median up, which leaves the sequence as it is.\<close>

lemma flat_split:
  assumes "length cs1 = length vs1" and "length cs2 = length vs2" and "length ccs1 = Suc (length cvs1)"
  shows "flat (vs1 @ m # vs2) (cs1 @ flat cvs1 ccs1 # flat cvs2 ccs2 # cs2) =
    flat (vs1 @ vs2) (cs1 @ flat (cvs1 @ m # cvs2) (ccs1 @ ccs2) # cs2)"
proof -
  have j: "length bs = Suc (length as) \<Longrightarrow> flat (as @ m # cvs2) (bs @ ccs2) = flat as bs @ m # flat cvs2 ccs2" for "as" bs
    by (induction "as" bs rule: flat.induct) auto
  have "flat (vs1 @ m # vs2) (cs1 @ flat cvs1 ccs1 # flat cvs2 ccs2 # cs2) =
      before vs1 cs1 @ flat cvs1 ccs1 @ m # flat cvs2 ccs2 @ after vs2 cs2"
    using flat_at [OF assms(1), of "flat cvs2 ccs2 # cs2" "m # vs2" "flat cvs1 ccs1"] assms(2) by simp
  also have "\<dots> = flat (vs1 @ vs2) (cs1 @ flat (cvs1 @ m # cvs2) (ccs1 @ ccs2) # cs2)"
    using j [OF assms(3)] flat_at [OF assms(1,2)] by simp
  finally show ?thesis .
qed

section \<open>Finding the child\<close>

lemma find_loop_ok:
  assumes "sorted (take n (node_values node))" and "n \<le> length (node_values node)"
    and "l \<le> r" and "r \<le> n" and "\<forall>j < l. node_values node ! j < v" and "\<forall>j. r \<le> j \<and> j < n \<longrightarrow> v \<le> node_values node ! j"
  shows "\<exists>i \<le> n. find_loop node v l r = Inr i \<and> (\<forall>j < i. node_values node ! j < v) \<and>
    (\<forall>j. i \<le> j \<and> j < n \<longrightarrow> v \<le> node_values node ! j)"
  using assms
proof (induction node v l r rule: find_loop.induct)
  case (1 node v l r)
  let ?vs = "node_values node"
  show ?case
  proof (cases "l < r")
    case True
    let ?m = "l + (r - l) div 2"
    have m: "l \<le> ?m" "?m < r" "?m < length ?vs" using True "1.prems" by auto
    then have g: "arr_get ?vs ?m = Inr (?vs ! ?m)" by simp
    have mono: "?vs ! i \<le> ?vs ! j" if "i \<le> j" "j < n" for i j
      using sorted_nth_mono [OF "1.prems"(1), of i j] that "1.prems"(2) by simp
    show ?thesis
    proof (cases "v \<le> ?vs ! ?m")
      case le: True
      have "\<forall>j. ?m \<le> j \<and> j < n \<longrightarrow> v \<le> ?vs ! j" using le mono by (meson order_trans)
      then have "\<exists>i \<le> n. find_loop node v l ?m = Inr i \<and> (\<forall>j < i. ?vs ! j < v) \<and> (\<forall>j. i \<le> j \<and> j < n \<longrightarrow> v \<le> ?vs ! j)"
        using "1.IH"(1) [OF True refl g le "1.prems"(1,2)] m "1.prems" by simp
      with True g le show ?thesis by (subst find_loop.simps) (simp add: Let_def)
    next
      case gt: False
      have "\<forall>j < ?m + 1. ?vs ! j < v"
      proof (intro allI impI)
        fix j assume "j < ?m + 1"
        then have "?vs ! j \<le> ?vs ! ?m" using mono [of j ?m] m "1.prems"(4) by simp
        with gt show "?vs ! j < v" by simp
      qed
      then have "\<exists>i \<le> n. find_loop node v (?m + 1) r = Inr i \<and> (\<forall>j < i. ?vs ! j < v) \<and> (\<forall>j. i \<le> j \<and> j < n \<longrightarrow> v \<le> ?vs ! j)"
        using "1.IH"(2) [OF True refl g gt "1.prems"(1,2)] m "1.prems" by simp
      with True g gt show ?thesis by (subst find_loop.simps) (simp add: Let_def)
    qed
  next
    case False
    then show ?thesis using "1.prems" by (subst find_loop.simps) auto
  qed
qed

lemma set_take_nth: "n \<le> length xs \<Longrightarrow> x \<in> set (take n xs) \<longleftrightarrow> (\<exists>j < n. x = xs ! j)"
  by (auto simp: in_set_conv_nth)

lemma set_drop_take_nth: "n \<le> length xs \<Longrightarrow> x \<in> set (drop i (take n xs)) \<longleftrightarrow> (\<exists>j. i \<le> j \<and> j < n \<and> x = xs ! j)"
proof -
  assume n: "n \<le> length xs"
  have "x \<in> set (drop i (take n xs)) \<longleftrightarrow> (\<exists>k < n - i. x = xs ! (i + k))" using n by (auto simp: in_set_conv_nth)
  also have "\<dots> \<longleftrightarrow> (\<exists>j. i \<le> j \<and> j < n \<and> x = xs ! j)"
    by (metis add_diff_inverse_nat le_add1 less_diff_conv add.commute not_less)
  finally show ?thesis .
qed

lemma findChildIdx_ok:
  assumes "sorted (take n vs)" and "n \<le> length vs"
  shows "\<exists>i \<le> n. findChildIdx (BTreeNode vs cs n) v = Inr i \<and> (\<forall>y \<in> set (take i (take n vs)). y < v) \<and>
    (\<forall>y \<in> set (drop i (take n vs)). v \<le> y)"
proof -
  obtain i where i: "i \<le> n" "find_loop (BTreeNode vs cs n) v 0 n = Inr i" "\<forall>j < i. vs ! j < v"
      "\<forall>j. i \<le> j \<and> j < n \<longrightarrow> v \<le> vs ! j"
    using find_loop_ok [of n "BTreeNode vs cs n" 0 n v] assms by auto
  have "\<forall>y \<in> set (take i (take n vs)). y < v" using i(1,3) assms(2) by (auto simp: min_absorb1 set_take_nth)
  moreover have "\<forall>y \<in> set (drop i (take n vs)). v \<le> y" using i(4) assms(2) by (auto simp: set_drop_take_nth)
  ultimately show ?thesis using i(1,2) by (auto simp: findChildIdx_def)
qed

section \<open>Moving and splitting\<close>

text \<open>Making room at position \<open>i\<close> of an array of which \<open>n\<close> cells are in use, and filling it.\<close>

lemma shift_insert:
  assumes "i \<le> n" and "n < length xs"
  shows "memmove xs (i + 1) xs i (n - i) = Inr (take (i + 1) xs @ take (n - i) (drop i xs) @ drop (n + 1) xs)"
    and "take (Suc n) ((take (i + 1) xs @ take (n - i) (drop i xs) @ drop (n + 1) xs)[i := v]) =
      take i (take n xs) @ v # drop i (take n xs)"
proof -
  show "memmove xs (i + 1) xs i (n - i) = Inr (take (i + 1) xs @ take (n - i) (drop i xs) @ drop (n + 1) xs)"
    using assms by (simp add: memmove_def)
  have "take (i + 1) xs = take i xs @ [xs ! i]" using assms by (simp add: take_Suc_conv_app_nth)
  then show "take (Suc n) ((take (i + 1) xs @ take (n - i) (drop i xs) @ drop (n + 1) xs)[i := v]) =
      take i (take n xs) @ v # drop i (take n xs)"
    using assms by (simp add: list_update_append drop_take min_absorb1 Suc_diff_le)
qed

lemma moveTail_shift:
  assumes "i \<le> n" and "n < length vs" and "Suc n < length cs"
  obtains vs1 cs1 where "moveTail (BTreeNode vs cs n) i (BTreeNode vs cs n) (i + 1) = Inr (BTreeNode vs1 cs1 n)"
    and "length vs1 = length vs" and "length cs1 = length cs" and "cs1 ! i = cs ! i"
    and "\<And>v. take (Suc n) (vs1[i := v]) = take i (take n vs) @ v # drop i (take n vs)"
    and "\<And>c. take (Suc (Suc n)) (cs1[i := c]) = take i (take (Suc n) cs) @ c # drop i (take (Suc n) cs)"
proof -
  let ?vs = "take (i + 1) vs @ take (n - i) (drop i vs) @ drop (n + 1) vs"
  let ?cs = "take (i + 1) cs @ take (Suc n - i) (drop i cs) @ drop (Suc n + 1) cs"
  have i: "i \<le> Suc n" using assms(1) by simp
  have "moveTail (BTreeNode vs cs n) i (BTreeNode vs cs n) (i + 1) = Inr (BTreeNode ?vs ?cs n)"
    using assms shift_insert(1) [OF assms(1,2)] shift_insert(1) [OF i assms(3)]
    by (simp add: moveTail_def Let_def Suc_diff_le)
  moreover have "length ?vs = length vs" "length ?cs = length cs" using assms by auto
  moreover have "?cs ! i = cs ! i" using assms by (simp add: nth_append)
  ultimately show thesis using that shift_insert(2) [OF assms(1,2)] shift_insert(2) [OF i assms(3)] by blast
qed

fun binv :: "nat \<Rightarrow> nat \<Rightarrow> BTreeNode \<Rightarrow> bool" where
  "binv t 0 b \<longleftrightarrow> False"
| "binv t (Suc h) (BTreeNode vs cs n) \<longleftrightarrow> length vs = 2 * t - 1 \<and> length cs = 2 * t \<and> n \<le> 2 * t - 1 \<and>
     (\<forall>c \<in> set (take (Suc n) cs). if h = 0 then c = None else \<exists>b. c = Some b \<and> binv t h b \<and> t - 1 \<le> node_size b)"

text \<open>What \<open>binv\<close> asks of a child of a node of height \<open>Suc h\<close>.\<close>

definition child_ok :: "nat \<Rightarrow> nat \<Rightarrow> BTreeNode option \<Rightarrow> bool" where
  "child_ok t h c \<longleftrightarrow> (if h = 0 then c = None else \<exists>b. c = Some b \<and> binv t h b \<and> t - 1 \<le> node_size b)"

lemma binv_Suc:
  "binv t (Suc h) (BTreeNode vs cs n) \<longleftrightarrow> length vs = 2 * t - 1 \<and> length cs = 2 * t \<and> n \<le> 2 * t - 1 \<and>
     (\<forall>c \<in> set (take (Suc n) cs). child_ok t h c)"
  by (simp add: child_ok_def)

declare binv.simps(2) [simp del]

lemma split_node_ok:
  assumes "binv t (Suc h) (BTreeNode vs cs n)" and "n = 2 * t - 1" and "2 \<le> t"
  obtains b1 b2 m where
    "split_node t (BTreeNode vs cs n) (BTreeNode (replicate (2 * t - 1) 0) (replicate (2 * t) None) 0) = Inr (b1, b2, m)"
    and "binv t (Suc h) b1" and "binv t (Suc h) b2" and "node_size b1 = t - 1" and "node_size b2 = t - 1"
    and "\<exists>cvs1 cvs2 ccs1 ccs2. length ccs1 = Suc (length cvs1) \<and> inorder b1 = flat cvs1 ccs1 \<and> inorder b2 = flat cvs2 ccs2 \<and>
      inorder (BTreeNode vs cs n) = flat (cvs1 @ m # cvs2) (ccs1 @ ccs2)"
proof -
  have l: "length vs = 2 * t - 1" "length cs = 2 * t" "\<forall>c \<in> set cs. child_ok t h c" "Suc n = 2 * t"
    using assms by (auto simp: binv_Suc)
  let ?b1 = "BTreeNode vs cs (t - 1)"
  let ?vs2 = "drop t vs @ replicate t 0" and ?cs2 = "drop t cs @ replicate t None"
  let ?b2 = "BTreeNode ?vs2 ?cs2 (t - 1)"
  have sp: "split_node t (BTreeNode vs cs n) (BTreeNode (replicate (2 * t - 1) 0) (replicate (2 * t) None) 0) = Inr (?b1, ?b2, vs ! (t - 1))"
  proof -
    obtain k where k: "t = Suc k" using assms(3) by (cases t) auto
    have "memmove (replicate (2 * t - 1) 0) 0 vs t (t - 1) = Inr ?vs2"
      using l(1) by (simp add: memmove_def k del: replicate_Suc)
    moreover have "memmove (replicate (2 * t) None) 0 cs t t = Inr ?cs2"
      using l(2) by (simp add: memmove_def k del: replicate_Suc)
    ultimately have "moveTail (BTreeNode vs cs n) t (BTreeNode (replicate (2 * t - 1) 0) (replicate (2 * t) None) 0) 0 =
        Inr (BTreeNode ?vs2 ?cs2 0)"
      using assms(2) by (simp add: moveTail_def Let_def k)
    then show ?thesis using l(1) by (simp add: split_node_def k)
  qed
  have tk: "take (t - 1) ?vs2 = drop t vs" "take (Suc (t - 1)) ?cs2 = drop t cs" using l(1,2) assms(3) by simp_all
  have b1: "binv t (Suc h) ?b1" using l assms(3) by (auto simp: binv_Suc dest: in_set_takeD)
  have b2: "binv t (Suc h) ?b2" using l assms(3) tk(2) by (auto simp: binv_Suc dest: in_set_dropD)
  have vs: "vs = take (t - 1) vs @ vs ! (t - 1) # drop t vs"
    using l(1) assms(3) id_take_nth_drop [of "t - 1" vs] by simp
  have cs: "cs = take t cs @ drop t cs" by simp
  have "inorder (BTreeNode vs cs n) = flat vs (map child_inorder cs)" using l(1,2,4) assms(2) by (simp add: inorder_flat)
  also have "\<dots> = flat (take (t - 1) vs @ vs ! (t - 1) # drop t vs) (map child_inorder (take t cs) @ map child_inorder (drop t cs))"
    using vs cs by (metis map_append)
  finally have "inorder (BTreeNode vs cs n) =
      flat (take (t - 1) vs @ vs ! (t - 1) # drop t vs) (map child_inorder (take t cs) @ map child_inorder (drop t cs))" .
  moreover have "inorder ?b1 = flat (take (t - 1) vs) (map child_inorder (take t cs))" using assms(3) by (simp add: inorder_flat)
  moreover have "inorder ?b2 = flat (drop t vs) (map child_inorder (drop t cs))" using tk by (simp add: inorder_flat)
  moreover have "length (map child_inorder (take t cs)) = Suc (length (take (t - 1) vs))" using l(1,2) assms(3) by simp
  ultimately have "\<exists>cvs1 cvs2 ccs1 ccs2. length ccs1 = Suc (length cvs1) \<and> inorder ?b1 = flat cvs1 ccs1 \<and>
      inorder ?b2 = flat cvs2 ccs2 \<and> inorder (BTreeNode vs cs n) = flat (cvs1 @ vs ! (t - 1) # cvs2) (ccs1 @ ccs2)"
    by blast
  with that [OF sp b1 b2] show thesis by (metis BTreeNode.sel(3))
qed

text \<open>Up to a half degree of \<open>2 ^ 63\<close> the sizes do not wrap around, or the allocation fails.\<close>

lemma to_size_small: "0 \<le> v \<Longrightarrow> v < 2 ^ 64 \<Longrightarrow> to_size v = nat v"
  by (simp add: to_size_def)

lemma to_size_values: "0 < t \<Longrightarrow> t \<le> 2 ^ 63 \<Longrightarrow> to_size (2 * int t - 1) = 2 * t - 1"
  by (subst to_size_small) auto

lemma degree_positive: "2 \<le> (t :: nat) \<Longrightarrow> 0 < t"
  by simp

lemma createNode_cases:
  assumes "0 < t" and "t \<le> 2 ^ 63"
  obtains m where "createNode t mem = (None, m)"
  | m where "createNode t mem = (Some (BTreeNode (replicate (2 * t - 1) 0) (replicate (2 * t) None) 0), m)"
proof -
  define k where "k = to_size (2 * int t)"
  have k: "k = 2 * t" if "(2 * t - 1) * 4 < 2 ^ 63"
    unfolding k_def using that by (subst to_size_small) auto
  obtain ok1 m1 where a1: "alloc mem = (ok1, m1)" by fastforce
  obtain ok2 m2 where a2: "alloc m1 = (ok2, m2)" by fastforce
  obtain ok3 m3 where a3: "alloc m2 = (ok3, m3)" by fastforce
  have eq: "createNode t mem =
      (if \<not> ok1 then (None, m1)
       else if \<not> (ok2 \<and> (2 * t - 1) * 4 < 2 ^ 63) then (None, m2)
       else if \<not> (ok3 \<and> k * 8 < 2 ^ 63) then (None, m3)
       else (Some (BTreeNode (replicate (2 * t - 1) 0) (replicate k None) 0), m3))"
    unfolding createNode_def calloc_def to_size_values [OF assms] k_def [symmetric] a1 a2 a3 Let_def prod.case
    by (simp only: a2 a3 prod.case split: if_split)
  show thesis
  proof (cases "ok1 \<and> ok2 \<and> (2 * t - 1) * 4 < 2 ^ 63 \<and> ok3 \<and> k * 8 < 2 ^ 63")
    case True
    then show ?thesis using eq k that(2) [of m3] by simp
  next
    case False
    then show ?thesis using eq that(1) by (auto split: if_splits)
  qed
qed

lemma isFull_iff: "0 < t \<Longrightarrow> t \<le> 2 ^ 63 \<Longrightarrow> isFull t node \<longleftrightarrow> node_size node = 2 * t - 1"
  using to_size_values [of t] by (simp add: isFull_def mult.commute)

lemma splitChild_ok:
  assumes "binv t (Suc (Suc h)) (BTreeNode vs cs n)" and "n < 2 * t - 1" and "2 \<le> t" and "i \<le> n"
    and "cs ! i = Some ch" and "node_size ch = 2 * t - 1" and small: "t \<le> 2 ^ 63"
  shows "(\<exists>m. splitChild t (BTreeNode vs cs n) i mem = Inr (ALLOCATION_ERROR, BTreeNode vs cs n, m)) \<or>
    (\<exists>x vs' cs' b1 b2 m. splitChild t (BTreeNode vs cs n) i mem = Inr (SUCCESS, BTreeNode vs' cs' (Suc n), m) \<and>
       binv t (Suc (Suc h)) (BTreeNode vs' cs' (Suc n)) \<and> inorder (BTreeNode vs' cs' (Suc n)) = inorder (BTreeNode vs cs n) \<and>
       take (Suc n) vs' = take i (take n vs) @ x # drop i (take n vs) \<and>
       cs' ! i = Some b1 \<and> cs' ! Suc i = Some b2 \<and> node_size b1 < 2 * t - 1 \<and> node_size b2 < 2 * t - 1)"
proof (cases rule: createNode_cases [OF degree_positive [OF assms(3)] small, of mem])
  case (1 m)
  then show ?thesis using assms by (simp add: splitChild_def binv_Suc)
next
  case (2 m)
  have l: "length vs = 2 * t - 1" "length cs = 2 * t" "\<forall>c \<in> set (take (Suc n) cs). child_ok t (Suc h) c"
    using assms(1) by (auto simp: binv_Suc)
  have ci: "cs ! i \<in> set (take (Suc n) cs)" using assms(2,4) l(2) by (auto simp: set_take_nth less_Suc_eq_le)
  then have ch: "binv t (Suc h) ch" using l(3) assms(5) by (auto simp: child_ok_def)
  obtain cvs ccs where chE: "ch = BTreeNode cvs ccs (2 * t - 1)" using assms(6) by (cases ch) auto
  obtain b1 b2 x where sp: "split_node t ch (BTreeNode (replicate (2 * t - 1) 0) (replicate (2 * t) None) 0) = Inr (b1, b2, x)"
      "binv t (Suc h) b1" "binv t (Suc h) b2" "node_size b1 = t - 1" "node_size b2 = t - 1"
    and fl: "\<exists>cvs1 cvs2 ccs1 ccs2. length ccs1 = Suc (length cvs1) \<and> inorder b1 = flat cvs1 ccs1 \<and> inorder b2 = flat cvs2 ccs2 \<and>
      inorder ch = flat (cvs1 @ x # cvs2) (ccs1 @ ccs2)"
    using split_node_ok [OF ch [unfolded chE] refl assms(3)] unfolding chE by metis
  have room: "n < length vs" "Suc n < length cs" using l assms(2) by auto
  obtain vs1 cs1 where mv: "moveTail (BTreeNode vs cs n) i (BTreeNode vs cs n) (i + 1) = Inr (BTreeNode vs1 cs1 n)"
      "length vs1 = length vs" "length cs1 = length cs"
      "\<And>v. take (Suc n) (vs1[i := v]) = take i (take n vs) @ v # drop i (take n vs)"
      "\<And>c. take (Suc (Suc n)) (cs1[i := c]) = take i (take (Suc n) cs) @ c # drop i (take (Suc n) cs)"
    using moveTail_shift [OF assms(4) room] by metis
  let ?V = "take n vs" and ?C = "take (Suc n) cs"
  let ?vs' = "vs1[i := x]" and ?cs' = "cs1[i := Some b1, Suc i := Some b2]"
  have split: "splitChild t (BTreeNode vs cs n) i mem = Inr (SUCCESS, BTreeNode ?vs' ?cs' (Suc n), m)"
    using 2 sp(1) mv(1-3) room assms(4,5) by (simp add: splitChild_def)
  have Vi: "take (Suc n) ?vs' = take i ?V @ x # drop i ?V" using mv(4) .
  have Cd: "drop i ?C = Some ch # drop (Suc i) ?C"
    using room(2) assms(4,5) by (simp add: Cons_nth_drop_Suc [symmetric])
  have Ci: "take (Suc (Suc n)) ?cs' = take i ?C @ Some b1 # Some b2 # drop (Suc i) ?C"
    using mv(5) [of "Some b1"] assms(4) room(2) Cd by (simp add: take_update_swap list_update_append min_absorb1)
  have C: "?C = take i ?C @ Some ch # drop (Suc i) ?C" using Cd by (metis append_take_drop_id)
  have ok: "child_ok t (Suc h) (Some b1)" "child_ok t (Suc h) (Some b2)" using sp(2-5) by (auto simp: child_ok_def)
  have inv: "binv t (Suc (Suc h)) (BTreeNode ?vs' ?cs' (Suc n))"
    using l mv(2,3) assms(2) ok Ci by (auto simp: binv_Suc simp del: take_take dest: in_set_takeD in_set_dropD)
  have ino: "inorder (BTreeNode ?vs' ?cs' (Suc n)) = inorder (BTreeNode vs cs n)"
  proof -
    obtain cvs1 cvs2 ccs1 ccs2 where f: "length ccs1 = Suc (length cvs1)" "inorder b1 = flat cvs1 ccs1"
        "inorder b2 = flat cvs2 ccs2" "inorder ch = flat (cvs1 @ x # cvs2) (ccs1 @ ccs2)"
      using fl by blast
    let ?A = "map child_inorder (take i ?C)" and ?B = "map child_inorder (drop (Suc i) ?C)"
    have len: "length ?A = length (take i ?V)" "length ?B = length (drop i ?V)" using room assms(4) by auto
    have "inorder (BTreeNode ?vs' ?cs' (Suc n)) = flat (take i ?V @ x # drop i ?V) (?A @ inorder b1 # inorder b2 # ?B)"
      unfolding inorder_flat Vi Ci by (simp add: child_inorder_def)
    also have "\<dots> = flat (take i ?V @ drop i ?V) (?A @ inorder ch # ?B)"
      unfolding f(2-4) by (rule flat_split [OF len f(1)])
    also have "\<dots> = inorder (BTreeNode vs cs n)"
      unfolding inorder_flat by (subst (3) C) (simp add: child_inorder_def del: take_take)
    finally show ?thesis .
  qed
  have "?cs' ! i = Some b1" "?cs' ! Suc i = Some b2" using assms(4) mv(3) room by auto
  moreover have "node_size b1 < 2 * t - 1" "node_size b2 < 2 * t - 1" using sp(4,5) assms(3) by auto
  ultimately show ?thesis using split inv ino Vi by blast
qed

text \<open>The child at position \<open>i\<close> is the one where \<open>v\<close> belongs.\<close>

definition belongs :: "int \<Rightarrow> nat \<Rightarrow> BTreeNode \<Rightarrow> bool" where
  "belongs v i b \<longleftrightarrow> i \<le> node_size b \<and> (\<forall>y \<in> set (take i (take (node_size b) (node_values b))). y < v) \<and>
     (\<forall>y \<in> set (drop i (take (node_size b) (node_values b))). v \<le> y)"

lemma find_belongs:
  assumes "binv t (Suc h) b" and "sorted (inorder b)" and "2 \<le> t"
  shows "\<exists>i. findChildIdx b v = Inr i \<and> belongs v i b"
proof -
  obtain vs cs n where b: "b = BTreeNode vs cs n" by (cases b)
  have l: "length vs = 2 * t - 1" "length cs = 2 * t" "n \<le> 2 * t - 1" using assms(1) b by (auto simp: binv_Suc)
  have "length (map child_inorder (take (Suc n) cs)) = Suc (length (take n vs))"
    using l assms(3) by auto
  from sorted_flat_values [OF this] have "sorted (take n vs)" using assms(2) b by (simp add: inorder_flat)
  then show ?thesis using findChildIdx_ok [of n vs cs v] l b by (auto simp: belongs_def)
qed

lemma choose_child_ok:
  assumes "binv t (Suc (Suc h)) b" and "node_size b < 2 * t - 1" and "2 \<le> t" and "sorted (inorder b)" and "t \<le> 2 ^ 63"
  shows "\<exists>st b' i m. choose_child t b v mem = Inr (st, b', i, m) \<and> binv t (Suc (Suc h)) b' \<and>
    node_size b \<le> node_size b' \<and> inorder b' = inorder b \<and>
    (st = ALLOCATION_ERROR \<or> st = SUCCESS \<and> belongs v i b' \<and> (\<exists>ch. node_children b' ! i = Some ch \<and> node_size ch < 2 * t - 1))"
proof -
  obtain vs cs n where b: "b = BTreeNode vs cs n" by (cases b)
  have l: "length vs = 2 * t - 1" "length cs = 2 * t" "n < 2 * t - 1" "\<forall>c \<in> set (take (Suc n) cs). child_ok t (Suc h) c"
    using assms(1,2) b by (auto simp: binv_Suc)
  obtain i where i: "findChildIdx b v = Inr i" "belongs v i b" using find_belongs [OF assms(1,4,3)] by blast
  then have ile: "i \<le> n" by (simp add: belongs_def b)
  have "cs ! i \<in> set (take (Suc n) cs)" using ile l(2,3) by (auto simp: set_take_nth less_Suc_eq_le)
  then obtain ch where ch: "cs ! i = Some ch" "binv t (Suc h) ch" using l(4) by (auto simp: child_ok_def)
  have chle: "node_size ch \<le> 2 * t - 1" using ch(2) by (cases ch) (simp add: binv_Suc)
  have cn: "child_or_new t b i mem = Inr (Some ch, b, mem)"
    using ch(1) ile l(2,3) b by (simp add: child_or_new_def)
  show ?thesis
  proof (cases "node_size ch = 2 * t - 1")
    case False
    then have "\<not> isFull t ch" using isFull_iff [of t ch] assms(3,5) by simp
    then have "choose_child t b v mem = Inr (SUCCESS, b, i, mem)" using i(1) cn by (simp add: choose_child_def)
    then show ?thesis using assms(1) i(2) ch(1) chle False b by auto
  next
    case True
    then have full: "isFull t ch" using isFull_iff [of t ch] assms(3,5) by simp
    from splitChild_ok [OF assms(1) [unfolded b] l(3) assms(3) ile ch(1) True assms(5), of mem] show ?thesis
    proof (elim disjE exE conjE)
      fix m assume "splitChild t (BTreeNode vs cs n) i mem = Inr (ALLOCATION_ERROR, BTreeNode vs cs n, m)"
      then have "choose_child t b v mem = Inr (ALLOCATION_ERROR, b, i, m)" using i(1) cn full b by (simp add: choose_child_def)
      then show ?thesis using assms(1) by auto
    next
      fix x vs' cs' b1 b2 m
      assume s: "splitChild t (BTreeNode vs cs n) i mem = Inr (SUCCESS, BTreeNode vs' cs' (Suc n), m)"
        and inv: "binv t (Suc (Suc h)) (BTreeNode vs' cs' (Suc n))"
        and ino: "inorder (BTreeNode vs' cs' (Suc n)) = inorder (BTreeNode vs cs n)"
        and V: "take (Suc n) vs' = take i (take n vs) @ x # drop i (take n vs)"
        and c: "cs' ! i = Some b1" "cs' ! Suc i = Some b2" and sz: "node_size b1 < 2 * t - 1" "node_size b2 < 2 * t - 1"
      have li: "length (take i (take n vs)) = i" using ile l(1,3) by simp
      have "take (Suc n) vs' ! i = x" unfolding V using li by (metis nth_append_length)
      then have xi: "vs' ! i = x" using ile by simp
      have lv: "length vs' = 2 * t - 1" using inv by (simp add: binv_Suc)
      let ?i = "if v > x then Suc i else i"
      have cc: "choose_child t b v mem = Inr (SUCCESS, BTreeNode vs' cs' (Suc n), ?i, m)"
        using i(1) cn full b s xi lv ile l(3) by (simp add: choose_child_def)
      have srt: "sorted (take (Suc n) vs')"
      proof -
        have "length (map child_inorder (take (Suc (Suc n)) cs')) = Suc (length (take (Suc n) vs'))"
          using inv l(3) lv by (auto simp: binv_Suc)
        from sorted_flat_values [OF this] show ?thesis using assms(4) ino b by (simp add: inorder_flat)
      qed
      have "belongs v ?i (BTreeNode vs' cs' (Suc n))"
        using i(2) ile li srt unfolding belongs_def b BTreeNode.sel V by (auto simp: sorted_append)
      then show ?thesis using cc inv ino c sz b by auto
    qed
  qed
qed

lemma flat_leaf:
  assumes "length ds = Suc (length ws)" and "\<forall>c \<in> set ds. c = None"
  shows "flat ws (map child_inorder ds) = ws"
proof -
  have "map child_inorder ds = replicate (Suc (length ws)) []"
    unfolding assms(1) [symmetric] using assms(2) by (auto simp: child_inorder_def map_replicate_const [symmetric])
  moreover have "flat ws (replicate (Suc (length ws)) []) = ws" by (induction ws) auto
  ultimately show ?thesis by simp
qed

lemma insertValue_ok:
  assumes "binv t (Suc 0) b" and "node_size b < 2 * t - 1" and "2 \<le> t" and "sorted (inorder b)"
  shows "\<exists>b'. insertValue b v = Inr b' \<and> binv t (Suc 0) b' \<and> node_size b \<le> node_size b' \<and> inorder b' = insort v (inorder b)"
proof -
  obtain vs cs n where b: "b = BTreeNode vs cs n" by (cases b)
  have l: "length vs = 2 * t - 1" "length cs = 2 * t" "n < 2 * t - 1" "\<forall>c \<in> set (take (Suc n) cs). c = None"
    using assms(1,2) b by (auto simp: binv_Suc child_ok_def)
  obtain i where i: "findChildIdx b v = Inr i" "belongs v i b" using find_belongs [OF assms(1,4,3)] by blast
  then have ile: "i \<le> n" by (simp add: belongs_def b)
  have room: "n < length vs" "Suc n < length cs" using l by auto
  obtain vs1 cs1 where mv: "moveTail (BTreeNode vs cs n) i (BTreeNode vs cs n) (i + 1) = Inr (BTreeNode vs1 cs1 n)"
      "length vs1 = length vs" "length cs1 = length cs" "cs1 ! i = cs ! i"
      "\<And>v. take (Suc n) (vs1[i := v]) = take i (take n vs) @ v # drop i (take n vs)"
      "\<And>c. take (Suc (Suc n)) (cs1[i := c]) = take i (take (Suc n) cs) @ c # drop i (take (Suc n) cs)"
    using moveTail_shift [OF ile room] by metis
  have "cs ! i \<in> set (take (Suc n) cs)" using ile room(2) by (auto simp: set_take_nth less_Suc_eq_le)
  then have ci: "cs ! i = None" using l(4) by blast
  have none: "\<forall>c \<in> set (take (Suc (Suc n)) cs1). c = None"
  proof -
    have "take (Suc (Suc n)) cs1 = take i (take (Suc n) cs) @ None # drop i (take (Suc n) cs)"
      using mv(6) [of None] mv(4) ci by (metis list_update_id)
    then show ?thesis using l(4) set_take_subset [of i "take (Suc n) cs"] set_drop_subset [of i "take (Suc n) cs"]
      by (auto simp del: take_take)
  qed
  let ?b = "BTreeNode (vs1[i := v]) cs1 (Suc n)"
  have "insertValue b v = Inr ?b"
    using i(1) mv(1,2) ile room b by (simp add: insertValue_def)
  moreover have "binv t (Suc 0) ?b" using l mv(2,3) none by (auto simp: binv_Suc child_ok_def)
  moreover have "inorder ?b = insort v (inorder b)"
  proof -
    have "inorder ?b = take i (take n vs) @ v # drop i (take n vs)"
      unfolding inorder_flat mv(5) using none room ile mv(3) by (intro flat_leaf) auto
    moreover have "inorder b = take n vs" unfolding b inorder_flat using l(4) room by (intro flat_leaf) auto
    moreover have "insort v (take n vs) = take i (take n vs) @ v # drop i (take n vs)"
    proof -
      have "insort v (take i (take n vs) @ drop i (take n vs)) = take i (take n vs) @ insort v (drop i (take n vs))"
        using i(2) b by (intro insort_append_right_le) (simp add: belongs_def del: take_take)
      moreover have "insort v (drop i (take n vs)) = v # drop i (take n vs)"
        using i(2) b by (intro insort_is_Cons) (simp add: belongs_def)
      ultimately show ?thesis by (simp del: take_take)
    qed
    ultimately show ?thesis by simp
  qed
  ultimately show ?thesis using b by auto
qed

section \<open>Insertion\<close>

text \<open>The outcome of an insertion: it succeeds, or an allocation fails and no value is lost or added.\<close>

definition inserted :: "int \<Rightarrow> exitCode \<Rightarrow> int list \<Rightarrow> int list \<Rightarrow> bool" where
  "inserted v st xs ys \<longleftrightarrow> st = SUCCESS \<and> ys = insort v xs \<or> st = ALLOCATION_ERROR \<and> ys = xs"

lemma inorder_at:
  assumes "i \<le> n" and "n < length cs"
  shows "inorder (BTreeNode vs (cs[i := c]) n) = flat (take i (take n vs) @ drop i (take n vs))
    (map child_inorder (take i (take (Suc n) cs)) @ child_inorder c # map child_inorder (drop (Suc i) (take (Suc n) cs)))"
proof -
  have "take (Suc n) (cs[i := c]) = take i (take (Suc n) cs) @ c # drop (Suc i) (take (Suc n) cs)"
    using assms upd_conv_take_nth_drop [of i "take (Suc n) cs" c] by (simp add: take_update_swap del: take_take)
  then show ?thesis unfolding inorder_flat by (simp del: take_take)
qed

lemma replace_child:
  assumes "binv t (Suc h) b" and "sorted (inorder b)" and "belongs v i b" and "node_children b ! i = Some ch"
    and "binv t h ch'" and "node_size ch \<le> node_size ch'" and "inserted v st (inorder ch) (inorder ch')" and "2 \<le> t" and "h \<noteq> 0"
  shows "binv t (Suc h) (BTreeNode (node_values b) ((node_children b)[i := Some ch']) (node_size b)) \<and>
    inserted v st (inorder b) (inorder (BTreeNode (node_values b) ((node_children b)[i := Some ch']) (node_size b)))"
proof -
  obtain vs cs n where b: "b = BTreeNode vs cs n" by (cases b)
  have l: "length vs = 2 * t - 1" "length cs = 2 * t" "n \<le> 2 * t - 1" "\<forall>c \<in> set (take (Suc n) cs). child_ok t h c"
    using assms(1) b by (auto simp: binv_Suc)
  have ile: "i \<le> n" using assms(3) by (simp add: belongs_def b)
  have nl: "n < length cs" using l assms(8) by auto
  let ?V = "take n vs" and ?C = "take (Suc n) cs"
  have "cs ! i \<in> set ?C" using ile nl by (auto simp: set_take_nth less_Suc_eq_le)
  then have ok: "child_ok t h (Some ch')" using l(4) assms(4-6,9) b by (auto simp: child_ok_def)
  have sub: "set (take (Suc n) (cs[i := Some ch'])) \<subseteq> insert (Some ch') (set ?C)"
    using set_update_subset_insert [of ?C i "Some ch'"] by (simp add: take_update_swap)
  let ?A = "map child_inorder (take i ?C)" and ?B = "map child_inorder (drop (Suc i) ?C)"
  have len: "length ?A = length (take i ?V)" "length ?B = length (drop i ?V)" using nl ile l by auto
  have ino: "inorder b = flat (take i ?V @ drop i ?V) (?A @ inorder ch # ?B)"
    using inorder_at [OF ile nl, of vs "cs ! i"] assms(4) b
    unfolding list_update_id by (simp add: child_inorder_def del: take_take append_take_drop_id)
  have ino': "inorder (BTreeNode vs (cs[i := Some ch']) n) = flat (take i ?V @ drop i ?V) (?A @ inorder ch' # ?B)"
    using inorder_at [OF ile nl, of vs "Some ch'"] by (simp add: child_inorder_def del: take_take append_take_drop_id)
  have bel: "\<forall>y \<in> set (take i ?V). y < v" "\<forall>y \<in> set (drop i ?V). v \<le> y"
    using assms(3) b by (simp_all add: belongs_def del: take_take)
  have "inserted v st (inorder b) (inorder (BTreeNode vs (cs[i := Some ch']) n))"
    using assms(7) insort_flat_at [OF len assms(2) [unfolded ino] bel] unfolding ino ino' inserted_def by auto
  then show ?thesis using sub ok l b by (auto simp: binv_Suc)
qed

lemma descend_ok:
  assumes "binv t h b" and "node_size b < 2 * t - 1" and "2 \<le> t" and "sorted (inorder b)" and "t \<le> 2 ^ 63"
  shows "\<exists>st b' m. descend h t b v mem = Inr (st, b', m) \<and> binv t h b' \<and> node_size b \<le> node_size b' \<and>
    inserted v st (inorder b) (inorder b')"
  using assms
proof (induction h arbitrary: b mem)
  case (Suc h)
  obtain vs cs n where b: "b = BTreeNode vs cs n" by (cases b)
  have l: "length cs = 2 * t" "\<forall>c \<in> set (take (Suc n) cs). child_ok t h c"
    using Suc.prems(1) b by (auto simp: binv_Suc)
  have "cs ! 0 \<in> set (take (Suc n) cs)" using l(1) assms(3) by (cases cs) auto
  then have c0: "child_ok t h (cs ! 0)" using l(2) by blast
  have lf: "isLeaf b = Inr (h = 0)"
    using c0 l(1) assms(3) b by (auto simp: isLeaf_def child_ok_def split: if_splits)
  show ?case
  proof (cases h)
    case 0
    then show ?thesis
      using insertValue_ok [of t b v] Suc.prems lf by (auto simp: inserted_def)
  next
    case (Suc k)
    obtain st b1 i m where c: "choose_child t b v mem = Inr (st, b1, i, m)" "binv t (Suc h) b1" "node_size b \<le> node_size b1"
        "inorder b1 = inorder b"
        "st = ALLOCATION_ERROR \<or> st = SUCCESS \<and> belongs v i b1 \<and> (\<exists>ch. node_children b1 ! i = Some ch \<and> node_size ch < 2 * t - 1)"
      using choose_child_ok [of t k b v mem] Suc.prems Suc by auto
    show ?thesis
    proof (cases "st = SUCCESS")
      case False
      then show ?thesis using c Suc lf by (auto simp: inserted_def)
    next
      case True
      have lf': "isLeaf b = Inr False" using lf Suc by simp
      from True obtain ch where ch: "belongs v i b1" "node_children b1 ! i = Some ch" "node_size ch < 2 * t - 1" using c(5) by auto
      obtain vs1 cs1 n1 where b1: "b1 = BTreeNode vs1 cs1 n1" by (cases b1)
      have i: "i \<le> n1" "n1 < length cs1" using ch(1) c(2) b1 assms(3) by (auto simp: belongs_def binv_Suc)
      then have "cs1 ! i \<in> set (take (Suc n1) cs1)" by (auto simp: set_take_nth less_Suc_eq_le)
      then have chb: "binv t h ch" using c(2) ch(2) b1 Suc by (auto simp: binv_Suc child_ok_def)
      have "sorted (inorder ch)"
      proof -
        let ?A = "map child_inorder (take i (take (Suc n1) cs1))" and ?B = "map child_inorder (drop (Suc i) (take (Suc n1) cs1))"
        have "inorder b1 = flat (take i (take n1 vs1) @ drop i (take n1 vs1)) (?A @ inorder ch # ?B)"
          using inorder_at [OF i, of vs1 "cs1 ! i"] ch(2) b1
          unfolding list_update_id by (simp add: child_inorder_def del: take_take append_take_drop_id)
        also have "\<dots> = before (take i (take n1 vs1)) ?A @ inorder ch @ after (drop i (take n1 vs1)) ?B"
          using i c(2) b1 by (intro flat_at) (auto simp: binv_Suc)
        finally show ?thesis using c(4) Suc.prems(4) by (simp add: sorted_append)
      qed
      then obtain st' ch' m' where d: "descend h t ch v m = Inr (st', ch', m')" "binv t h ch'" "node_size ch \<le> node_size ch'"
          "inserted v st' (inorder ch) (inorder ch')"
        using Suc.IH [OF chb ch(3) assms(3)] Suc.prems(5) by blast
      have "descend (Suc h) t b v mem = Inr (st', BTreeNode vs1 (cs1[i := Some ch']) n1, m')"
        using lf' c(1) True ch(2) d(1) b1 i by simp
      moreover have "binv t (Suc h) (BTreeNode vs1 (cs1[i := Some ch']) n1) \<and>
          inserted v st' (inorder b1) (inorder (BTreeNode vs1 (cs1[i := Some ch']) n1))"
        using replace_child [OF c(2) _ ch(1,2) d(2-4) assms(3)] c(4) Suc.prems(4) Suc b1 by simp
      moreover have "node_size b \<le> node_size (BTreeNode vs1 (cs1[i := Some ch']) n1)" using c(3) b1 by simp
      ultimately show ?thesis unfolding c(4) [symmetric] by blast
    qed
  qed
qed simp

section \<open>The tree\<close>

definition tree_inorder :: "BTree \<Rightarrow> int list" where
  "tree_inorder tree = child_inorder (root tree)"

text \<open>The root may hold fewer values than the other nodes; all leaves are at the stored height.\<close>

definition btree_ok :: "BTree \<Rightarrow> bool" where
  "btree_ok tree \<longleftrightarrow> 2 \<le> half_degree tree \<and> half_degree tree \<le> 2 ^ 63 \<and> sorted (tree_inorder tree) \<and>
     (case root tree of None \<Rightarrow> tree_height tree = 0
      | Some r \<Rightarrow> 1 \<le> node_size r \<and> binv (half_degree tree) (tree_height tree) r)"

lemma splitRoot_ok:
  assumes "btree_ok tree" and "root tree = Some r" and "node_size r = 2 * half_degree tree - 1"
  shows "(\<exists>m. splitRoot tree mem = Inr (ALLOCATION_ERROR, tree, m)) \<or>
    (\<exists>r' m. splitRoot tree mem = Inr (SUCCESS, tree\<lparr>root := Some r', tree_height := tree_height tree + 1\<rparr>, m) \<and>
      binv (half_degree tree) (Suc (tree_height tree)) r' \<and> node_size r' = 1 \<and> inorder r' = inorder r)"
proof -
  let ?t = "half_degree tree"
  let ?new = "BTreeNode (replicate (2 * ?t - 1) 0) (replicate (2 * ?t) None) 0"
  have t: "2 \<le> ?t" "0 < ?t" "?t \<le> 2 ^ 63" and bi: "binv ?t (tree_height tree) r" using assms by (auto simp: btree_ok_def)
  obtain k where k: "?t = Suc (Suc k)" using t(1) by (metis add_2_eq_Suc le_Suc_ex)
  obtain h where h: "tree_height tree = Suc h" using bi by (cases "tree_height tree") auto
  obtain vs cs where r: "r = BTreeNode vs cs (2 * ?t - 1)" using assms(3) by (cases r) auto
  show ?thesis
  proof (cases rule: createNode_cases [OF t(2,3), of mem])
    case (1 m)
    then show ?thesis by (simp add: splitRoot_def Let_def)
  next
    case first: (2 m1)
    show ?thesis
    proof (cases rule: createNode_cases [OF t(2,3), of m1])
      case (1 m)
      then show ?thesis using first by (simp add: splitRoot_def Let_def)
    next
      case second: (2 m)
      obtain b1 b2 x where sp: "split_node ?t r ?new = Inr (b1, b2, x)"
          "binv ?t (Suc h) b1" "binv ?t (Suc h) b2" "node_size b1 = ?t - 1" "node_size b2 = ?t - 1"
        and fl: "\<exists>cvs1 cvs2 ccs1 ccs2. length ccs1 = Suc (length cvs1) \<and> inorder b1 = flat cvs1 ccs1 \<and>
          inorder b2 = flat cvs2 ccs2 \<and> inorder r = flat (cvs1 @ x # cvs2) (ccs1 @ ccs2)"
        using split_node_ok [OF bi [unfolded h r] refl t(1)] unfolding r by metis
      let ?vs = "x # replicate (2 * ?t - 2) 0" and ?cs = "Some b1 # Some b2 # replicate (2 * ?t - 2) None"
      have "splitRoot tree mem =
          Inr (SUCCESS, tree\<lparr>root := Some (BTreeNode ?vs ?cs 1), tree_height := tree_height tree + 1\<rparr>, m)"
        using first second sp(1) assms(2) by (simp add: splitRoot_def Let_def k)
      moreover have "binv ?t (Suc (tree_height tree)) (BTreeNode ?vs ?cs 1)"
        using sp(2-5) h by (simp add: binv_Suc child_ok_def k)
      moreover have "inorder (BTreeNode ?vs ?cs 1) = inorder r"
      proof -
        obtain cvs1 cvs2 ccs1 ccs2 where f: "length ccs1 = Suc (length cvs1)" "inorder b1 = flat cvs1 ccs1"
            "inorder b2 = flat cvs2 ccs2" "inorder r = flat (cvs1 @ x # cvs2) (ccs1 @ ccs2)"
          using fl by blast
        then show ?thesis using flat_split [of "[]" "[]" "[]" "[]" ccs1 cvs1 x cvs2 ccs2]
          by (simp add: inorder_flat child_inorder_def)
      qed
      ultimately show ?thesis by (metis BTreeNode.sel(3))
    qed
  qed
qed

lemma insert_into_root_ok:
  assumes "root tree = Some r" and "binv (half_degree tree) (tree_height tree) r" and "node_size r < 2 * half_degree tree - 1"
    and "1 \<le> node_size r" and "2 \<le> half_degree tree" and "sorted (inorder r)" and "half_degree tree \<le> 2 ^ 63"
  shows "\<exists>st tree' m. insert_into_root tree v mem = Inr (st, tree', m) \<and> btree_ok tree' \<and>
    inserted v st (inorder r) (tree_inorder tree')"
proof -
  obtain st r' m where d: "descend (tree_height tree) (half_degree tree) r v mem = Inr (st, r', m)"
      "binv (half_degree tree) (tree_height tree) r'" "node_size r \<le> node_size r'" "inserted v st (inorder r) (inorder r')"
    using descend_ok [OF assms(2,3,5,6,7)] by blast
  then have "sorted (inorder r')" using assms(6) by (auto simp: inserted_def sorted_insort)
  then have "btree_ok (tree\<lparr>root := Some r'\<rparr>)" "tree_inorder (tree\<lparr>root := Some r'\<rparr>) = inorder r'"
    using assms(4,5,7) d(2,3) by (auto simp: btree_ok_def tree_inorder_def child_inorder_def)
  then show ?thesis using d(1,4) assms(1) by (auto simp: insert_into_root_def)
qed

lemma btree_insert_ok:
  assumes "btree_ok tree"
  shows "\<exists>st tree' m. btree_insert tree v mem = Inr (st, tree', m) \<and> btree_ok tree' \<and>
    inserted v st (tree_inorder tree) (tree_inorder tree')"
proof (cases "root tree")
  case None
  let ?t = "half_degree tree"
  have t: "0 < ?t" "?t \<le> 2 ^ 63" using assms by (auto simp: btree_ok_def)
  obtain k where k: "?t = Suc (Suc k)" using assms by (metis add_2_eq_Suc le_Suc_ex btree_ok_def)
  show ?thesis
  proof (cases rule: createNode_cases [OF t, of mem])
    case (1 m)
    then show ?thesis using None assms by (simp add: btree_insert_def inserted_def)
  next
    case (2 m)
    let ?r = "BTreeNode (v # replicate (2 * ?t - 2) 0) (replicate (2 * ?t) None) 1"
    have "btree_insert tree v mem = Inr (SUCCESS, tree\<lparr>root := Some ?r, tree_height := 1\<rparr>, m)"
      using None 2 by (simp add: btree_insert_def k)
    moreover have "btree_ok (tree\<lparr>root := Some ?r, tree_height := 1\<rparr>)"
      using t(2) by (simp add: btree_ok_def k binv_Suc child_ok_def tree_inorder_def child_inorder_def inorder_flat)
    moreover have "inserted v SUCCESS (tree_inorder tree) (tree_inorder (tree\<lparr>root := Some ?r, tree_height := 1\<rparr>))"
      using None by (simp add: k inserted_def tree_inorder_def child_inorder_def inorder_flat)
    ultimately show ?thesis by blast
  qed
next
  case (Some r)
  have ok: "2 \<le> half_degree tree" "sorted (inorder r)" "1 \<le> node_size r" "binv (half_degree tree) (tree_height tree) r"
    "half_degree tree \<le> 2 ^ 63"
    and io: "tree_inorder tree = inorder r"
    using assms Some by (auto simp: btree_ok_def tree_inorder_def child_inorder_def)
  have le: "node_size r \<le> 2 * half_degree tree - 1" using ok(4) by (cases r; cases "tree_height tree") (auto simp: binv_Suc)
  show ?thesis
  proof (cases "node_size r = 2 * half_degree tree - 1")
    case False
    then have "btree_insert tree v mem = insert_into_root tree v mem"
      using Some isFull_iff [of "half_degree tree" r] ok(1,5) by (simp add: btree_insert_def)
    then show ?thesis using insert_into_root_ok [OF Some ok(4) _ ok(3,1,2,5)] le False io by simp
  next
    case True
    then have bi: "btree_insert tree v mem = bindR (splitRoot tree mem) (\<lambda>(status, tree1, mem1).
            if status \<noteq> SUCCESS then Inr (status, tree1, mem1) else insert_into_root tree1 v mem1)"
      using Some isFull_iff [of "half_degree tree" r] ok(1,5) by (simp add: btree_insert_def)
    from splitRoot_ok [OF assms Some True, of mem] show ?thesis
    proof (elim disjE exE conjE)
      fix m assume "splitRoot tree mem = Inr (ALLOCATION_ERROR, tree, m)"
      then show ?thesis using bi assms by (simp add: inserted_def)
    next
      fix r' m assume s: "splitRoot tree mem = Inr (SUCCESS, tree\<lparr>root := Some r', tree_height := tree_height tree + 1\<rparr>, m)"
        and r': "binv (half_degree tree) (Suc (tree_height tree)) r'" "node_size r' = 1" "inorder r' = inorder r"
      have "btree_insert tree v mem = insert_into_root (tree\<lparr>root := Some r', tree_height := tree_height tree + 1\<rparr>) v m"
        using bi s by simp
      then show ?thesis
        using insert_into_root_ok [of "tree\<lparr>root := Some r', tree_height := tree_height tree + 1\<rparr>" r' v m] r' ok io by simp
    qed
  qed
qed

section \<open>When no allocation fails\<close>

text \<open>A half degree below \<open>2 ^ 59\<close> leaves the arrays of a node below \<open>2 ^ 63\<close> bytes.\<close>

definition allocatable :: "nat \<Rightarrow> bool" where
  "allocatable t \<longleftrightarrow> 0 < t \<and> t < 2 ^ 59"

lemma createNode_Nil:
  assumes "allocatable t"
  shows "createNode t [] = (Some (BTreeNode (replicate (2 * t - 1) 0) (replicate (2 * t) None) 0), [])"
proof -
  have t: "0 < t" "t < 2 ^ 59" using assms by (auto simp: allocatable_def)
  then have "to_size (2 * int t) = 2 * t" by (subst to_size_small) auto
  moreover have "to_size (2 * int t - 1) = 2 * t - 1" using t to_size_values [of t] by simp
  ultimately show ?thesis using t by (simp add: createNode_def calloc_def alloc_def)
qed

lemma splitChild_Nil: "allocatable t \<Longrightarrow> splitChild t b i [] = Inr (st, b', m) \<Longrightarrow> st = SUCCESS \<and> m = []"
  by (auto simp: splitChild_def createNode_Nil split: option.splits)

lemma child_or_new_Nil: "allocatable t \<Longrightarrow> child_or_new t b i [] = Inr (c, b', m) \<Longrightarrow> c \<noteq> None \<and> m = []"
  by (auto simp: child_or_new_def createNode_Nil split: option.splits)

lemma choose_child_Nil:
  assumes "allocatable t" and "choose_child t b v [] = Inr (st, b', i, m)"
  shows "st = SUCCESS \<and> m = []"
proof -
  obtain x c b1 m1 where f: "findChildIdx b v = Inr x" "child_or_new t b x [] = Inr (c, b1, m1)"
    using assms(2) by (auto simp: choose_child_def)
  from child_or_new_Nil [OF assms(1) f(2)] obtain ch where ch: "c = Some ch" "m1 = []" by auto
  show ?thesis
  proof (cases "isFull t ch")
    case True
    then obtain st1 b2 m2 where s: "splitChild t b1 x [] = Inr (st1, b2, m2)"
      using assms(2) f ch by (auto simp: choose_child_def)
    with splitChild_Nil [OF assms(1) s] True show ?thesis using assms(2) f ch by (auto simp: choose_child_def)
  qed (use assms(2) f ch in \<open>auto simp: choose_child_def\<close>)
qed

lemma descend_Nil: "allocatable t \<Longrightarrow> descend h t b v [] = Inr (st, b', m) \<Longrightarrow> st = SUCCESS \<and> m = []"
proof (induction h arbitrary: b st b' m)
  case (Suc h)
  then show ?case by (auto split: option.splits if_splits dest!: choose_child_Nil)
qed simp

lemma insert_into_root_Nil:
  "allocatable (half_degree tree) \<Longrightarrow> insert_into_root tree v [] = Inr (st, tree', m) \<Longrightarrow>
    st = SUCCESS \<and> m = [] \<and> half_degree tree' = half_degree tree"
  by (auto simp: insert_into_root_def split: option.splits dest!: descend_Nil)

lemma splitRoot_Nil:
  "allocatable (half_degree tree) \<Longrightarrow> splitRoot tree [] = Inr (st, tree', m) \<Longrightarrow>
    st = SUCCESS \<and> m = [] \<and> half_degree tree' = half_degree tree"
  by (auto simp: splitRoot_def createNode_Nil Let_def split: option.splits)

lemma btree_insert_Nil:
  assumes "allocatable (half_degree tree)" and "btree_insert tree v [] = Inr (st, tree', m)"
  shows "st = SUCCESS \<and> m = [] \<and> half_degree tree' = half_degree tree"
proof (cases "root tree")
  case None
  then show ?thesis using assms by (auto simp: btree_insert_def createNode_Nil)
next
  case (Some r)
  show ?thesis
  proof (cases "isFull (half_degree tree) r")
    case True
    then obtain st1 tree1 m1 where s: "splitRoot tree [] = Inr (st1, tree1, m1)"
      using assms(2) Some by (auto simp: btree_insert_def)
    have "insert_into_root tree1 v [] = Inr (st, tree', m)"
      using splitRoot_Nil [OF _ s] assms Some True s by (simp add: btree_insert_def)
    then show ?thesis using insert_into_root_Nil [of tree1] splitRoot_Nil [OF _ s] assms(1) by simp
  next
    case False
    then show ?thesis using insert_into_root_Nil [of tree] assms Some by (simp add: btree_insert_def)
  qed
qed

definition insert_or_fail :: "BTree \<Rightarrow> int \<Rightarrow> BTree res" where
  "insert_or_fail tree v =
     bindR (btree_insert tree v []) (\<lambda>(st, tree', m). if st = SUCCESS then Inr tree' else Inl Undefined)"

text \<open>The half degrees for which nodes can be allocated.\<close>

definition degree :: "nat \<Rightarrow> nat" where
  "degree k = 2 + k mod (2 ^ 59 - 2)"

lemma degree_bounds: "2 \<le> degree k" "allocatable (degree k)" "degree k \<le> 2 ^ 63"
proof -
  have "k mod (2 ^ 59 - 2) < 2 ^ 59 - 2" by (rule mod_less_divisor) simp
  then have "degree k < 2 ^ 59" unfolding degree_def by linarith
  then show "2 \<le> degree k" "allocatable (degree k)" "degree k \<le> 2 ^ 63" by (simp_all add: allocatable_def degree_def)
qed

lemma degree_ex: "2 \<le> t \<Longrightarrow> t < 2 ^ 59 \<Longrightarrow> \<exists>k. t = degree k"
  by (rule exI [of _ "t - 2"]) (simp add: degree_def)

interpretation b_tree: ordered_tree "empty_btree (degree k)" insert_or_fail tree_inorder
  "\<lambda>tree. btree_ok tree \<and> half_degree tree = degree k" limit for k limit
proof
  fix tree v assume t: "btree_ok tree \<and> half_degree tree = degree k"
  obtain st tree' m where b: "btree_insert tree v [] = Inr (st, tree', m)" "btree_ok tree'"
      "inserted v st (tree_inorder tree) (tree_inorder tree')"
    using btree_insert_ok t by blast
  with btree_insert_Nil [OF _ b(1)] t degree_bounds(2) [of k]
  show "\<exists>t'. insert_or_fail tree v = Inr t' \<and> (btree_ok t' \<and> half_degree t' = degree k) \<and>
      tree_inorder t' = insort v (tree_inorder tree)"
    by (auto simp: insert_or_fail_def inserted_def)
qed (use degree_bounds(1,3) [of k] in \<open>simp_all add: btree_ok_def empty_btree_def tree_inorder_def child_inorder_def\<close>)

section \<open>The height\<close>

lemma flat_length: "length cs = Suc (length vs) \<Longrightarrow> length (flat vs cs) = length vs + sum_list (map length cs)"
  by (induction vs cs rule: flat.induct) auto

lemma binv_size:
  assumes "binv t (Suc h) b" and "0 < t"
  shows "Suc (node_size b) * t ^ h \<le> Suc (length (inorder b))"
  using assms
proof (induction h arbitrary: b)
  case 0
  then show ?case by (cases b) (auto simp: binv_Suc inorder_flat flat_length)
next
  case (Suc h)
  obtain vs cs n where b: "b = BTreeNode vs cs n" by (cases b)
  have l: "n \<le> length vs" "n < length cs" "\<forall>c \<in> set (take (Suc n) cs). child_ok t (Suc h) c"
    using Suc.prems b by (auto simp: binv_Suc)
  have "t ^ Suc h - 1 \<le> length (child_inorder c)" if "c \<in> set (take (Suc n) cs)" for c
  proof -
    obtain ch where ch: "c = Some ch" "binv t (Suc h) ch" "t - 1 \<le> node_size ch" using l(3) \<open>c \<in> _\<close> by (auto simp: child_ok_def)
    have "t * t ^ h \<le> Suc (node_size ch) * t ^ h" using ch(3) by (intro mult_right_mono) auto
    then show ?thesis using Suc.IH [OF ch(2) assms(2)] ch(1) by (simp add: child_inorder_def)
  qed
  then have "sum_list (map (\<lambda>c. t ^ Suc h - 1) (take (Suc n) cs)) \<le> sum_list (map (length \<circ> child_inorder) (take (Suc n) cs))"
    by (intro sum_list_mono) simp
  then have "Suc n * (t ^ Suc h - 1) \<le> sum_list (map (length \<circ> child_inorder) (take (Suc n) cs))"
    using l(2) by (simp add: sum_list_triv del: power_Suc mult_Suc)
  moreover have "length (inorder b) = n + sum_list (map (length \<circ> child_inorder) (take (Suc n) cs))"
    using l(1,2) b by (simp add: inorder_flat flat_length)
  moreover have "Suc n * (t ^ Suc h - 1) + Suc n = Suc n * t ^ Suc h"
    using assms(2) by (metis Suc_pred' add.commute mult_Suc_right zero_less_power)
  ultimately show ?case using b by simp
qed

text \<open>C16: whatever allocations fail, inserting into a well-formed B-tree of a half degree up to \<open>2 ^ 63\<close>, for which
  the \<open>size_t\<close> arithmetic of the sizes does not wrap around, ends without a fault and leaves a
  well-formed B-tree (node sizes, sortedness, all leaves at the stored height): either the value is
  inserted, or an allocation error is reported and the tree holds the values it held.\<close>

theorem btree_insert_safe:
  assumes "btree_ok tree"
  shows "\<exists>st tree' m. btree_insert tree v mem = Inr (st, tree', m) \<and> btree_ok tree' \<and>
    (st = SUCCESS \<and> tree_inorder tree' = insort v (tree_inorder tree) \<or>
     st = ALLOCATION_ERROR \<and> tree_inorder tree' = tree_inorder tree)"
  using btree_insert_ok [OF assms, of v mem] by (auto simp: inserted_def)

theorem btree_insert_safe_witness:
  "\<exists>st tree' m. btree_insert (empty_btree 2) 7 [False] = Inr (st, tree', m) \<and> btree_ok tree' \<and>
    (st = SUCCESS \<and> tree_inorder tree' = insort 7 (tree_inorder (empty_btree 2)) \<or>
     st = ALLOCATION_ERROR \<and> tree_inorder tree' = tree_inorder (empty_btree 2))"
  by (rule btree_insert_safe) (simp add: btree_ok_def empty_btree_def tree_inorder_def child_inorder_def)

text \<open>Beyond that, \<open>2 * t - 1\<close> wraps around to a small size, and the second value makes the split of the root read
  outside the node.\<close>

lemma wrapped_degree_faults:
  "bindR (btree_insert (empty_btree (2 ^ 63 + 1)) 1 []) (\<lambda>(st, tree, m). btree_insert tree 2 m) = Inl Undefined"
proof -
  have "to_size (2 * int (2 ^ 63 + 1) - 1) = 1" "to_size (int (2 ^ 63 + 1) * 2 - 1) = 1" "to_size (2 * int (2 ^ 63 + 1)) = 2"
    by (simp_all add: to_size_def)
  then show ?thesis
    by (simp add: btree_insert_def empty_btree_def createNode_def calloc_def alloc_def isFull_def splitRoot_def split_node_def moveTail_def Let_def)
qed

section \<open>The program\<close>

lemma insert_values_show:
  assumes "\<forall>v \<in> set vs. in_int32 v" and "btree_ok tree" and "allocatable (half_degree tree)"
  shows "\<exists>tree'. insert_values tree (length vs) (CHR '' '' # show_ints vs) [] = Inr (SUCCESS, tree') \<and>
    b_tree.insert_list tree vs = Inr tree'"
  using assms
proof (induction vs arbitrary: tree)
  case (Cons v vs)
  obtain st tree' m where b: "btree_insert tree v [] = Inr (st, tree', m)" "btree_ok tree'"
    using btree_insert_ok Cons.prems(2) by blast
  have st: "st = SUCCESS" "m = []" "allocatable (half_degree tree')"
    using btree_insert_Nil [OF Cons.prems(3) b(1)] Cons.prems(3) by auto
  have "scanf_i (CHR '' '' # show_int v @ CHR '' '' # show_ints vs) = Item v (CHR '' '' # show_ints vs)"
    using Cons.prems(1) by simp
  moreover obtain tree2 where "insert_values tree' (length vs) (CHR '' '' # show_ints vs) [] = Inr (SUCCESS, tree2)"
      "b_tree.insert_list tree' vs = Inr tree2"
    using Cons.IH [OF _ b(2) st(3)] Cons.prems(1) by auto
  moreover have "insert_or_fail tree v = Inr tree'" using b(1) st by (simp add: insert_or_fail_def)
  ultimately show ?case using b st by (simp add: show_ints_def)
qed simp

text \<open>C17: with enough memory, on a half degree \<open>t\<close> of at least two and below \<open>2 ^ 59\<close>, a count and that many numbers, the program
  reports success and prints the height \<open>h\<close> of a B-tree of exactly these numbers, so that
  \<open>2 * t ^ (h - 1) - 1\<close> is at most their number.\<close>

theorem btree_main_prints_height:
  assumes "2 \<le> t" and "t < 2 ^ 59" and "length vs < 2 ^ 64" and "\<forall>v \<in> set vs. in_int32 v"
  shows "\<exists>tree. main (Some (show_nat t @ '' '' @ show_nat (length vs) @ '' '' @ show_ints vs)) True [] =
      Inr (SUCCESS, show_nat (tree_height tree) @ ''\<newline>'') \<and> btree_ok tree \<and> tree_inorder tree = sort vs \<and>
    (vs \<noteq> [] \<longrightarrow> 2 * t ^ (tree_height tree - 1) \<le> Suc (length vs))"
proof -
  obtain k where k: "t = degree k" using degree_ex [OF assms(1,2)] by blast
  have ok: "btree_ok (empty_btree t)" "allocatable (half_degree (empty_btree t))"
    using assms(1,2) by (simp_all add: btree_ok_def empty_btree_def tree_inorder_def child_inorder_def allocatable_def)
  obtain tree where tr: "b_tree.insert_list (empty_btree t) vs = Inr tree" "btree_ok tree" "half_degree tree = t"
      "tree_inorder tree = sort vs"
    using b_tree.insert_all_sorts [of vs "length vs" k] k by auto
  have "insert_values (empty_btree t) (length vs) (CHR '' '' # show_ints vs) [] = Inr (SUCCESS, tree)"
    using insert_values_show [OF assms(4) ok] tr(1) by auto
  then have "main (Some (show_nat t @ '' '' @ show_nat (length vs) @ '' '' @ show_ints vs)) True [] =
      Inr (SUCCESS, show_nat (tree_height tree) @ ''\<newline>'')"
    using assms(2,3) by (simp add: main_def btree_create_def alloc_def btree_getHeight_def)
  moreover have "2 * t ^ (tree_height tree - 1) \<le> Suc (length vs)" if "vs \<noteq> []"
  proof -
    have "length (tree_inorder tree) = length vs" using tr(4) by simp
    then obtain r where r: "root tree = Some r" "length (inorder r) = length vs"
      using \<open>vs \<noteq> []\<close> by (auto simp: tree_inorder_def child_inorder_def split: option.splits)
    then have bi: "1 \<le> node_size r" "binv t (tree_height tree) r" using tr(2,3) by (auto simp: btree_ok_def)
    then obtain h where h: "tree_height tree = Suc h" by (cases "tree_height tree") auto
    have "2 * t ^ h \<le> Suc (node_size r) * t ^ h" using bi(1) by (intro mult_right_mono) auto
    also have "\<dots> \<le> Suc (length (inorder r))" using binv_size [of t h r] bi(2) h assms(1) by simp
    finally show ?thesis using h r(2) by simp
  qed
  ultimately show ?thesis using tr by blast
qed

theorem btree_main_prints_height_witness:
  "\<exists>tree. main (Some (show_nat 2 @ '' '' @ show_nat (length [5, 3, 8, 1 :: int]) @ '' '' @ show_ints [5, 3, 8, 1])) True [] =
      Inr (SUCCESS, show_nat (tree_height tree) @ ''\<newline>'') \<and> btree_ok tree \<and> tree_inorder tree = sort [5, 3, 8, 1] \<and>
    ([5, 3, 8, 1 :: int] \<noteq> [] \<longrightarrow> 2 * 2 ^ (tree_height tree - 1) \<le> Suc (length [5, 3, 8, 1 :: int]))"
  by (rule btree_main_prints_height) (simp_all add: in_int32_def)

end
