(* ===== verification/Kmp_Search.thy ===== *)
theory Kmp_Search
  imports C_Stdio
begin

text \<open>
  \<open>C-Labs/Find_substring_KMP/src\<close>: the search of Knuth, Morris and Pratt over a file read through a buffer of
  1024 characters.  The program prints the prefix table and then, for every position it visits where at
  least one character matches, the position and the number of matching characters.
\<close>

section \<open>Definitions\<close>

definition BUFFER_SIZE :: nat where
  "BUFFER_SIZE = 1024"

record SearchState =
  substring :: string
  prefix_table :: "int list"
  substrLen :: nat
  matchCount :: nat

record SearchWindow =
  inputStream :: string
  textBuffer :: string
  textLen :: nat
  curIndex :: nat
  globalIndex :: nat
  wnd_isEmpty :: bool

text \<open>A \<open>size_t\<close> stored into an \<open>int\<close>, and an \<open>int\<close> read as a \<open>size_t\<close>.\<close>

definition int_of_size :: "nat \<Rightarrow> int" where
  "int_of_size k = to_int32 (int k)"

definition size_of_int :: "int \<Rightarrow> nat" where
  "size_of_int i = nat (i mod 2 ^ 64)"

text \<open>The inner loop; \<open>k\<close> decreases, so \<open>k\<close> rounds are enough for the first argument.\<close>

fun border_while :: "nat \<Rightarrow> int list \<Rightarrow> string \<Rightarrow> nat \<Rightarrow> nat \<Rightarrow> nat res" where
  "border_while n pre sub i k =
     (if k = 0 then Inr 0
      else
        bindR (arr_get sub i) (\<lambda>a.
        bindR (arr_get sub k) (\<lambda>b.
        if a = b then Inr k
        else
          bindR (arr_get pre (k - 1)) (\<lambda>p.
          case n of 0 \<Rightarrow> Inl Undefined | Suc m \<Rightarrow> border_while m pre sub i (size_of_int p)))))"

declare border_while.simps [simp del]

definition prefix_step :: "string \<Rightarrow> int list \<Rightarrow> nat \<Rightarrow> int list res" where
  "prefix_step sub pre i =
     bindR (arr_get pre (i - 1)) (\<lambda>p.
     let k = size_of_int p in
     bindR (border_while k pre sub i k) (\<lambda>k.
     bindR (arr_get sub i) (\<lambda>a.
     bindR (arr_get sub k) (\<lambda>b.
     arr_set pre i (int_of_size (if a = b then k + 1 else k))))))"

function prefix_loop :: "string \<Rightarrow> nat \<Rightarrow> int list \<Rightarrow> nat \<Rightarrow> int list res" where
  "prefix_loop sub len pre i =
     (if i < len then bindR (prefix_step sub pre i) (\<lambda>pre'. prefix_loop sub len pre' (i + 1)) else Inr pre)"
  by pat_completeness auto
termination
  by (relation "measure (\<lambda>(sub, len, pre, i). len - i)") auto

declare prefix_loop.simps [simp del]

definition initPrefixTable :: "int list \<Rightarrow> string \<Rightarrow> nat \<Rightarrow> int list res" where
  "initPrefixTable pre sub len = bindR (arr_set pre 0 0) (\<lambda>pre'. prefix_loop sub len pre' 1)"

definition printPrefixTable :: "SearchState \<Rightarrow> string" where
  "printPrefixTable state = show_ints (take (substrLen state) (prefix_table state)) @ ''\<newline>''"

text \<open>When the allocation of \<open>substring\<close> fails, \<open>destroySearchState\<close> frees the uninitialised \<open>prefix\<close>.  The cells
  of a new table hold \<open>junk\<close>.\<close>

definition initSearchState :: "string \<Rightarrow> int \<Rightarrow> mem \<Rightarrow> (SearchState option \<times> mem) res" where
  "initSearchState sub junk mem =
     (let (ok1, mem1) = alloc mem in
      if \<not> ok1 then Inr (None, mem1)
      else
        let (ok2, mem2) = alloc mem1 in
        if \<not> ok2 then Inl Undefined
        else
          let (ok3, mem3) = alloc mem2 in
          if \<not> ok3 then Inr (None, mem3)
          else
            bindR (initPrefixTable (replicate (length sub) junk) sub (length sub)) (\<lambda>pre.
            Inr (Some \<lparr>substring = sub, prefix_table = pre, substrLen = length sub, matchCount = 0\<rparr>, mem3)))"

definition fread_into :: "string \<Rightarrow> nat \<Rightarrow> nat \<Rightarrow> string \<Rightarrow> (string \<times> nat \<times> string) res" where
  "fread_into buf pos n inp =
     (let (data, rest) = fread n inp in
      if pos + n \<le> length buf
      then Inr (take pos buf @ data @ drop (pos + length data) buf, length data, rest) else Inl Undefined)"

definition initSearchWindow :: "string \<Rightarrow> string \<Rightarrow> nat \<Rightarrow> mem \<Rightarrow> (SearchWindow option \<times> mem) res" where
  "initSearchWindow inp buf len mem =
     (let (ok, mem') = alloc mem in
      if \<not> ok then Inr (None, mem')
      else
        bindR (fread_into buf 0 BUFFER_SIZE inp) (\<lambda>(buf', n, rest).
        Inr (Some \<lparr>inputStream = rest, textBuffer = buf', textLen = n, curIndex = 0, globalIndex = 0,
                   wnd_isEmpty = (n < len)\<rparr>, mem')))"

function match_loop :: "SearchWindow \<Rightarrow> SearchState \<Rightarrow> nat \<Rightarrow> (bool \<times> nat) res" where
  "match_loop window state pos =
     (if pos < substrLen state then
        bindR (arr_get (textBuffer window) (curIndex window + pos)) (\<lambda>a.
        bindR (arr_get (substring state) pos) (\<lambda>b.
        if a \<noteq> b then Inr (False, pos) else match_loop window state (pos + 1)))
      else Inr (True, substrLen state))"
  by pat_completeness auto
termination
  by (relation "measure (\<lambda>(window, state, pos). substrLen state - pos)") auto

declare match_loop.simps [simp del]

definition isMatch :: "SearchWindow \<Rightarrow> SearchState \<Rightarrow> (bool \<times> SearchState) res" where
  "isMatch window state =
     bindR (match_loop window state (matchCount state)) (\<lambda>(b, n). Inr (b, state\<lparr>matchCount := n\<rparr>))"

definition calculateShift :: "SearchState \<Rightarrow> (nat \<times> SearchState) res" where
  "calculateShift state =
     (if matchCount state = 0 then Inr (1, state)
      else
        bindR (arr_get (prefix_table state) (matchCount state - 1)) (\<lambda>p.
        Inr (nat ((int (matchCount state) - p) mod 2 ^ 64), state\<lparr>matchCount := size_of_int p\<rparr>)))"

definition refill :: "SearchWindow \<Rightarrow> SearchWindow res" where
  "refill window =
     (if curIndex window \<le> BUFFER_SIZE then
        (let remainedTextLen = BUFFER_SIZE - curIndex window in
         bindR (memmove (textBuffer window) 0 (textBuffer window) (curIndex window) remainedTextLen) (\<lambda>buf.
         bindR (fread_into buf remainedTextLen (BUFFER_SIZE - remainedTextLen) (inputStream window)) (\<lambda>(buf', symbolsRead, rest).
         Inr (window\<lparr>inputStream := rest, textBuffer := buf', textLen := remainedTextLen + symbolsRead, curIndex := 0\<rparr>))))
      else Inl Undefined)"

definition moveForward :: "SearchWindow \<Rightarrow> SearchState \<Rightarrow> (SearchWindow \<times> SearchState) res" where
  "moveForward window state =
     bindR (calculateShift state) (\<lambda>(shift, state').
     let window1 = window\<lparr>curIndex := curIndex window + shift, globalIndex := globalIndex window + shift\<rparr> in
     bindR (if curIndex window1 + substrLen state' > BUFFER_SIZE then refill window1 else Inr window1) (\<lambda>window2.
     Inr (if curIndex window2 + substrLen state' > textLen window2 then window2\<lparr>wnd_isEmpty := True\<rparr> else window2, state')))"

text \<open>One round of the search: what it prints, and the state after it.\<close>

definition search_round :: "SearchWindow \<Rightarrow> SearchState \<Rightarrow> (string \<times> SearchWindow \<times> SearchState) res" where
  "search_round window state =
     bindR (isMatch window state) (\<lambda>(found, state1).
     let out = (if matchCount state1 \<noteq> 0
                then show_nat (globalIndex window + 1) @ '' '' @ show_nat (matchCount state1) @ '' '' else []) in
     bindR (moveForward window state1) (\<lambda>(window2, state2). Inr (out, window2, state2)))"

text \<open>The loop of \<open>findSubstring\<close>: \<open>None\<close> if it runs forever.\<close>

partial_function (option) search_loop :: "SearchWindow \<Rightarrow> SearchState \<Rightarrow> string \<Rightarrow> string res option" where
  "search_loop window state out =
     (if wnd_isEmpty window then Some (Inr out)
      else
        case search_round window state of
          Inl e \<Rightarrow> Some (Inl e)
        | Inr (printed, window', state') \<Rightarrow> search_loop window' state' (out @ printed))"

text \<open>\<open>junk\<close> and \<open>buf\<close> are what the allocated memory holds before it is written.\<close>

definition findSubstring :: "string \<Rightarrow> string \<Rightarrow> int \<Rightarrow> string \<Rightarrow> mem \<Rightarrow> string res option" where
  "findSubstring inp sub junk buf mem =
     (case initSearchState sub junk mem of
        Inl e \<Rightarrow> Some (Inl e)
      | Inr (state, mem1) \<Rightarrow>
          (case initSearchWindow inp buf (length sub) mem1 of
             Inl e \<Rightarrow> Some (Inl e)
           | Inr (window, mem2) \<Rightarrow>
               (case (state, window) of
                  (Some st, Some wnd) \<Rightarrow> search_loop wnd st (printPrefixTable st)
                | _ \<Rightarrow> Some (Inr []))))"

datatype exitCode = SUCCESS | ALLOCATION_ERROR | IO_ERROR | WRONG_INPUT

definition SUBSTRING_MAX_SIZE :: nat where
  "SUBSTRING_MAX_SIZE = 16"

text \<open>The characters up to the terminator of a C string.\<close>

definition c_string :: "string \<Rightarrow> string" where
  "c_string s = takeWhile (\<lambda>c. c \<noteq> CHR 0x00) s"

text \<open>The exit code and what is written to \<open>out.txt\<close>.\<close>

definition main :: "string option \<Rightarrow> bool \<Rightarrow> int \<Rightarrow> string \<Rightarrow> mem \<Rightarrow> (exitCode \<times> string) res option" where
  "main inp output_opens junk buf mem =
     (case inp of
        None \<Rightarrow> Some (Inr (IO_ERROR, []))
      | Some s \<Rightarrow>
          if \<not> output_opens then Some (Inr (IO_ERROR, []))
          else
            case scanf_line SUBSTRING_MAX_SIZE s of
              Item sub s1 \<Rightarrow>
                map_option (\<lambda>r. bindR r (\<lambda>out. Inr (SUCCESS, out)))
                  (findSubstring (snd (fgetc s1)) (c_string sub) junk buf mem)
            | _ \<Rightarrow> Some (Inr (SUCCESS, [])))"

section \<open>Borders\<close>

definition is_border :: "nat \<Rightarrow> 'a list \<Rightarrow> bool" where
  "is_border k xs \<longleftrightarrow> k < length xs \<and> take k xs = drop (length xs - k) xs"

text \<open>The length of the longest proper border; 0 for the empty list.\<close>

definition border :: "'a list \<Rightarrow> nat" where
  "border xs = Max (set (0 # filter (\<lambda>k. is_border k xs) [0..<length xs]))"

lemma border_greatest: "is_border k xs \<Longrightarrow> k \<le> border xs"
  unfolding border_def by (intro Max_ge) (auto simp: is_border_def)

lemma border_is: "xs \<noteq> [] \<Longrightarrow> is_border (border xs) xs"
proof -
  assume "xs \<noteq> []"
  then have "is_border 0 xs" by (simp add: is_border_def)
  moreover have "border xs \<in> set (0 # filter (\<lambda>k. is_border k xs) [0..<length xs])"
    unfolding border_def by (intro Max_in) auto
  ultimately show ?thesis by auto
qed

lemma border_less: "xs \<noteq> [] \<Longrightarrow> border xs < length xs"
  using border_is by (auto simp: is_border_def)

lemma border_eqI: "is_border k xs \<Longrightarrow> (\<And>j. is_border j xs \<Longrightarrow> j \<le> k) \<Longrightarrow> border xs = k"
  using border_is [of xs] border_greatest [of k xs] by (fastforce simp: is_border_def)

lemma is_border_nth:
  "is_border k xs \<longleftrightarrow> k < length xs \<and> (\<forall>j < k. xs ! j = xs ! (length xs - k + j))"
  by (auto simp: is_border_def list_eq_iff_nth_eq)

lemma is_border_trans:
  assumes "is_border k xs" and "is_border j (take k xs)"
  shows "is_border j xs"
proof -
  have k: "k < length xs" "\<And>i. i < k \<Longrightarrow> xs ! i = xs ! (length xs - k + i)" using assms(1) by (auto simp: is_border_nth)
  have j: "j < k" "\<And>i. i < j \<Longrightarrow> xs ! i = xs ! (k - j + i)"
    using assms(2) k(1) by (auto simp: is_border_nth)
  have "xs ! i = xs ! (length xs - j + i)" if "i < j" for i
  proof -
    have "xs ! (k - j + i) = xs ! (length xs - k + (k - j + i))" using k(2) [of "k - j + i"] j(1) \<open>i < j\<close> by simp
    also have "length xs - k + (k - j + i) = length xs - j + i" using k(1) j(1) by simp
    finally show ?thesis using j(2) [OF \<open>i < j\<close>] by simp
  qed
  then show ?thesis using k(1) j(1) by (simp add: is_border_nth)
qed

lemma is_border_take:
  assumes "is_border k xs" and "is_border j xs" and "j < k"
  shows "is_border j (take k xs)"
proof -
  have k: "k < length xs" "\<And>i. i < k \<Longrightarrow> xs ! i = xs ! (length xs - k + i)" using assms(1) by (auto simp: is_border_nth)
  have j: "\<And>i. i < j \<Longrightarrow> xs ! i = xs ! (length xs - j + i)" using assms(2) by (auto simp: is_border_nth)
  have "xs ! i = xs ! (k - j + i)" if "i < j" for i
  proof -
    have "xs ! (k - j + i) = xs ! (length xs - k + (k - j + i))" using k(2) [of "k - j + i"] assms(3) \<open>i < j\<close> by simp
    also have "length xs - k + (k - j + i) = length xs - j + i" using k(1) assms(3) by simp
    finally show ?thesis using j [OF \<open>i < j\<close>] by simp
  qed
  then show ?thesis using k(1) assms(3) by (simp add: is_border_nth)
qed

lemma is_border_Suc:
  assumes "i < length s"
  shows "is_border (Suc k) (take (Suc i) s) \<longleftrightarrow> is_border k (take i s) \<and> s ! k = s ! i"
proof
  assume "is_border (Suc k) (take (Suc i) s)"
  then have k: "k < i" "\<And>j. j < Suc k \<Longrightarrow> s ! j = s ! (i - k + j)" using assms by (auto simp: is_border_nth)
  then show "is_border k (take i s) \<and> s ! k = s ! i" using assms by (auto simp: is_border_nth)
next
  assume "is_border k (take i s) \<and> s ! k = s ! i"
  then have k: "k < i" "\<And>j. j < k \<Longrightarrow> s ! j = s ! (i - k + j)" "s ! k = s ! i" using assms by (auto simp: is_border_nth)
  have "s ! j = s ! (i - k + j)" if "j < Suc k" for j using that k by (cases "j = k") auto
  then show "is_border (Suc k) (take (Suc i) s)" using assms k(1) by (auto simp: is_border_nth)
qed

section \<open>The prefix table\<close>

lemma int_of_size_id [simp]: "k < 2 ^ 31 \<Longrightarrow> int_of_size k = int k"
  by (simp add: int_of_size_def in_int32_def)

lemma size_of_int_id [simp]: "k < 2 ^ 31 \<Longrightarrow> size_of_int (int k) = k"
  by (simp add: size_of_int_def)

text \<open>The table is right up to index \<open>i\<close>.\<close>

definition table_ok :: "string \<Rightarrow> int list \<Rightarrow> nat \<Rightarrow> bool" where
  "table_ok s pre i \<longleftrightarrow> length pre = length s \<and> i \<le> length s \<and> (\<forall>j < i. pre ! j = int (border (take (Suc j) s)))"

lemma border_while_ok:
  assumes "table_ok s pre i" and "i < length s" and "length s < 2 ^ 31" and "k = 0 \<or> is_border k (take i s)"
    and "\<And>j. is_border j (take i s) \<Longrightarrow> s ! j = s ! i \<Longrightarrow> j \<le> k" and "k \<le> n"
  shows "\<exists>k'. border_while n pre s i k = Inr k' \<and> (k' = 0 \<or> is_border k' (take i s) \<and> s ! k' = s ! i) \<and>
    (\<forall>j. is_border j (take i s) \<longrightarrow> s ! j = s ! i \<longrightarrow> j \<le> k')"
  using assms(4-)
proof (induction n arbitrary: k)
  case 0
  then show ?case by (simp add: border_while.simps)
next
  case (Suc n)
  show ?case
  proof (cases "k = 0 \<or> s ! i = s ! k")
    case True
    then show ?thesis using Suc.prems assms(2) by (subst border_while.simps) (auto simp: is_border_def)
  next
    case False
    then have kb: "is_border k (take i s)" "0 < k" "k < i" using Suc.prems(1) assms(2) by (auto simp: is_border_def)
    let ?k = "border (take k s)"
    have ne: "take k s \<noteq> []" using kb(2) assms(2) by auto
    have kl: "?k < k" using border_less [OF ne] kb(3) assms(2) by simp
    have "pre ! (k - 1) = int ?k" using assms(1) kb by (simp add: table_ok_def)
    then have step: "border_while (Suc n) pre s i k = border_while n pre s i ?k"
      using False kb assms kl by (subst border_while.simps) (simp add: table_ok_def)
    have tk: "take k (take i s) = take k s" using kb(3) by (simp add: min_absorb1)
    have "is_border ?k (take i s)" using is_border_trans [OF kb(1)] border_is [OF ne] tk by simp
    moreover have "j \<le> ?k" if "is_border j (take i s)" "s ! j = s ! i" for j
    proof -
      have "j \<noteq> k" using False that by auto
      then have "j < k" using Suc.prems(2) [OF that] by simp
      from is_border_take [OF kb(1) that(1) this] show ?thesis using border_greatest tk by simp
    qed
    ultimately show ?thesis unfolding step using kl Suc.prems(3) by (intro Suc.IH) auto
  qed
qed

lemma prefix_step_ok:
  assumes "table_ok s pre i" and "i < length s" and "0 < i" and "length s < 2 ^ 31"
  shows "\<exists>pre'. prefix_step s pre i = Inr pre' \<and> table_ok s pre' (Suc i)"
proof -
  let ?k = "border (take i s)"
  have ne: "take i s \<noteq> []" using assms(2,3) by auto
  have kl: "?k < i" using border_less [OF ne] assms(2) by simp
  have p: "i - 1 < length pre" "pre ! (i - 1) = int ?k" using assms by (auto simp: table_ok_def)
  obtain k where k: "border_while ?k pre s i ?k = Inr k" "k = 0 \<or> is_border k (take i s) \<and> s ! k = s ! i"
      "\<And>j. is_border j (take i s) \<Longrightarrow> s ! j = s ! i \<Longrightarrow> j \<le> k"
    using border_while_ok [OF assms(1,2,4), of ?k ?k] border_is [OF ne] border_greatest by blast
  let ?b = "if s ! i = s ! k then k + 1 else k"
  have ki: "k < i" using k(2) assms(2,3) by (auto simp: is_border_def)
  have "border (take (Suc i) s) = ?b"
  proof (rule border_eqI)
    have z: "is_border 0 (take i s)" "is_border 0 (take (Suc i) s)" using assms(2,3) by (auto simp: is_border_def)
    then show "is_border ?b (take (Suc i) s)" using k(2) is_border_Suc [OF assms(2), of k] by auto
    fix j assume "is_border j (take (Suc i) s)"
    then show "j \<le> ?b" using is_border_Suc [OF assms(2), of "j - 1"] k(2) k(3) [of "j - 1"] by (cases j) auto
  qed
  moreover have "prefix_step s pre i = Inr (pre[i := int ?b])"
    using p k(1) ki kl assms by (simp add: prefix_step_def table_ok_def)
  ultimately show ?thesis using assms(1,2) by (auto simp: table_ok_def nth_list_update less_Suc_eq)
qed

lemma prefix_loop_ok:
  assumes "table_ok s pre i" and "0 < i" and "length s < 2 ^ 31"
  shows "\<exists>pre'. prefix_loop s (length s) pre i = Inr pre' \<and> table_ok s pre' (length s)"
  using assms(1,2)
proof (induction "length s - i" arbitrary: i pre)
  case 0
  then show ?case by (subst prefix_loop.simps) (auto simp: table_ok_def)
next
  case (Suc n)
  then have "i < length s" by linarith
  then obtain pre' where "prefix_step s pre i = Inr pre'" "table_ok s pre' (Suc i)"
    using prefix_step_ok [of s pre i] Suc.prems assms(3) by blast
  with Suc show ?case by (subst prefix_loop.simps) auto
qed

lemma border_single: "length xs \<le> 1 \<Longrightarrow> border xs = 0"
proof (cases "xs = []")
  case False
  then show "length xs \<le> 1 \<Longrightarrow> border xs = 0" using border_less [of xs] by linarith
qed (simp add: border_def)

lemma initPrefixTable_ok:
  assumes "s \<noteq> []" and "length s < 2 ^ 31"
  shows "initPrefixTable (replicate (length s) junk) s (length s) = Inr (map (\<lambda>j. int (border (take (Suc j) s))) [0..<length s])"
proof -
  have "table_ok s ((replicate (length s) junk)[0 := 0]) 1" using assms(1) by (auto simp: table_ok_def Suc_le_eq border_single)
  then obtain pre where pre: "prefix_loop s (length s) ((replicate (length s) junk)[0 := 0]) 1 = Inr pre" "table_ok s pre (length s)"
    using prefix_loop_ok [OF _ zero_less_one assms(2)] by blast
  have "pre = map (\<lambda>j. int (border (take (Suc j) s))) [0..<length s]"
    by (rule nth_equalityI) (use pre(2) in \<open>simp_all add: table_ok_def\<close>)
  with pre(1) show ?thesis using assms(1) by (simp add: initPrefixTable_def)
qed

section \<open>The search\<close>

fun lcp :: "'a list \<Rightarrow> 'a list \<Rightarrow> nat" where
  "lcp (x # xs) (y # ys) = (if x = y then Suc (lcp xs ys) else 0)"
| "lcp xs ys = 0"

lemma lcp_le: "lcp xs ys \<le> length xs" "lcp xs ys \<le> length ys"
  by (induction xs ys rule: lcp.induct) auto

lemma lcp_take: "take (lcp xs ys) xs = take (lcp xs ys) ys"
  by (induction xs ys rule: lcp.induct) auto

lemma lcp_eqI:
  assumes "n \<le> length xs" and "n \<le> length ys" and "take n xs = take n ys" and "n = length xs \<or> n < length ys \<and> xs ! n \<noteq> ys ! n"
  shows "lcp xs ys = n"
  using assms
proof (induction xs ys arbitrary: n rule: lcp.induct)
  case (1 x xs y ys)
  then show ?case by (cases n) auto
qed auto

lemma lcp_full: "lcp xs ys = length xs \<longleftrightarrow> take (length xs) ys = xs"
proof
  assume "lcp xs ys = length xs"
  then show "take (length xs) ys = xs" using lcp_take [of xs ys] by simp
next
  assume t: "take (length xs) ys = xs"
  have "length (take (length xs) ys) = length xs" by (simp only: t)
  then have "length xs \<le> length ys" by (simp add: min_def split: if_splits)
  with t show "lcp xs ys = length xs" by (intro lcp_eqI) auto
qed

text \<open>What is fixed during the search for \<open>s\<close>.\<close>

definition state_ok :: "string \<Rightarrow> SearchState \<Rightarrow> bool" where
  "state_ok s st \<longleftrightarrow> substring st = s \<and> substrLen st = length s \<and>
     prefix_table st = map (\<lambda>j. int (border (take (Suc j) s))) [0..<length s]"

text \<open>A window over the text \<open>t\<close> that has room for a match, and the characters known to match there.\<close>

definition window_ok :: "string \<Rightarrow> nat \<Rightarrow> SearchWindow \<Rightarrow> bool" where
  "window_ok t n w \<longleftrightarrow> length (textBuffer w) = BUFFER_SIZE + 1 \<and> textLen w \<le> BUFFER_SIZE \<and> curIndex w + n \<le> textLen w \<and>
     curIndex w \<le> globalIndex w \<and> (textLen w < BUFFER_SIZE \<longrightarrow> inputStream w = []) \<and>
     take (textLen w) (textBuffer w) @ inputStream w = drop (globalIndex w - curIndex w) t"

lemma window_text:
  assumes "window_ok t n w" and "0 < n"
  shows "take n (drop (curIndex w) (textBuffer w)) = take n (drop (globalIndex w) t)" and "globalIndex w + n \<le> length t"
proof -
  have l: "curIndex w + n \<le> textLen w" "curIndex w \<le> globalIndex w" "textLen w \<le> length (textBuffer w)"
      and eq: "take (textLen w) (textBuffer w) @ inputStream w = drop (globalIndex w - curIndex w) t"
    using assms by (auto simp: window_ok_def)
  have "drop (globalIndex w) t = drop (curIndex w) (drop (globalIndex w - curIndex w) t)" using l(2) by simp
  also have "take n \<dots> = take n (drop (curIndex w) (take (textLen w) (textBuffer w)))"
    unfolding eq [symmetric] using l by simp
  also have "\<dots> = take n (drop (curIndex w) (textBuffer w))" using l(1) by (simp add: drop_take min_absorb1)
  finally show "take n (drop (curIndex w) (textBuffer w)) = take n (drop (globalIndex w) t)" ..
  have "textLen w \<le> length (drop (globalIndex w - curIndex w) t)" unfolding eq [symmetric] using l(3) by simp
  then show "globalIndex w + n \<le> length t" using l assms(2) unfolding length_drop by linarith
qed

lemma match_loop_ok:
  assumes "state_ok s st" and "window_ok t (length s) w" and "pos \<le> length s" and "s \<noteq> []"
    and "take pos s = take pos (drop (globalIndex w) t)"
  shows "match_loop w st pos = Inr (lcp s (drop (globalIndex w) t) = length s, lcp s (drop (globalIndex w) t))"
  using assms(3,5)
proof (induction "length s - pos" arbitrary: pos)
  case 0
  then have "lcp s (drop (globalIndex w) t) = length s" using window_text(2) [OF assms(2)] assms(4) by (intro lcp_eqI) auto
  then show ?case using 0 assms(1) by (subst match_loop.simps) (simp add: state_ok_def)
next
  case (Suc n)
  have pos: "pos < length s" using Suc(2) by linarith
  have len: "globalIndex w + length s \<le> length t" and b: "curIndex w + length s \<le> length (textBuffer w)"
    using window_text(2) [OF assms(2)] assms(4) assms(2) by (auto simp: window_ok_def)
  have ch: "textBuffer w ! (curIndex w + pos) = drop (globalIndex w) t ! pos"
    using arg_cong [OF window_text(1) [OF assms(2)], of "\<lambda>xs. xs ! pos"] assms(4) pos b len by simp
  show ?case
  proof (cases "drop (globalIndex w) t ! pos = s ! pos")
    case True
    then have "take (Suc pos) s = take (Suc pos) (drop (globalIndex w) t)"
      using Suc.prems(2) pos len by (simp add: take_Suc_conv_app_nth)
    then have "match_loop w st (Suc pos) = Inr (lcp s (drop (globalIndex w) t) = length s, lcp s (drop (globalIndex w) t))"
      using Suc pos by simp
    then show ?thesis using True ch pos b assms(1) by (subst match_loop.simps) (simp add: state_ok_def)
  next
    case False
    have "lcp s (drop (globalIndex w) t) = pos"
      using False Suc.prems pos len by (intro lcp_eqI) auto
    then show ?thesis using False ch pos b assms(1) by (subst match_loop.simps) (simp add: state_ok_def)
  qed
qed

text \<open>The shift after \<open>m\<close> characters have matched, and that it skips no occurrence.\<close>

definition shift_of :: "string \<Rightarrow> nat \<Rightarrow> nat" where
  "shift_of s m = (if m = 0 then 1 else m - border (take m s))"

lemma shift_of_bounds:
  assumes "m \<le> length s" and "s \<noteq> []"
  shows "1 \<le> shift_of s m" and "shift_of s m \<le> length s"
  using assms border_less [of "take m s"] by (auto simp: shift_of_def Suc_le_eq)

lemma no_occurrence_skipped:
  assumes "m = lcp s (drop p t)" and "p < q" and "q < p + shift_of s m" and "take (length s) (drop q t) = s"
  shows False
proof -
  let ?d = "q - p"
  have m: "0 < m" "m \<le> length s" "m \<le> length t - p" using assms(1-3) lcp_le [of s "drop p t"] by (auto simp: shift_of_def split: if_splits)
  have d: "0 < ?d" "?d < m - border (take m s)" using assms(2,3) m(1) by (auto simp: shift_of_def)
  have eq: "take m s = take m (drop p t)" using lcp_take assms(1) by blast
  have "take (m - ?d) s = take (m - ?d) (take (length s) (drop q t))" by (simp only: assms(4))
  also have "\<dots> = take (m - ?d) (drop q t)" using m(2) by (simp add: min_absorb1)
  also have "\<dots> = drop ?d (take m (drop p t))" using assms(2) by (simp add: drop_take)
  also have "\<dots> = drop ?d (take m s)" by (simp only: eq)
  finally have "is_border (m - ?d) (take m s)" using d m(2) by (simp add: is_border_def min_absorb2)
  from border_greatest [OF this] show False using d by linarith
qed

lemma calculateShift_ok:
  assumes "state_ok s st" and "matchCount st \<le> length s" and "length s < 2 ^ 31"
  shows "calculateShift st = Inr (shift_of s (matchCount st), st\<lparr>matchCount := border (take (matchCount st) s)\<rparr>)"
proof (cases "matchCount st = 0")
  case True
  then show ?thesis by (simp add: calculateShift_def shift_of_def border_single)
next
  case False
  let ?m = "matchCount st"
  have b: "border (take ?m s) < ?m" using border_less [of "take ?m s"] False assms(2) by (cases s) auto
  have "prefix_table st ! (?m - 1) = int (border (take ?m s))" "?m - 1 < length (prefix_table st)"
    using assms(1,2) False by (auto simp: state_ok_def)
  moreover have "nat ((int ?m - int (border (take ?m s))) mod 2 ^ 64) = ?m - border (take ?m s)"
  proof -
    have "(int ?m - int (border (take ?m s))) mod 2 ^ 64 = int ?m - int (border (take ?m s))"
      using b assms(2,3) by (intro mod_pos_pos_trivial) auto
    then show ?thesis by simp
  qed
  moreover have "size_of_int (int (border (take ?m s))) = border (take ?m s)" using b assms(2,3) by simp
  ultimately show ?thesis unfolding calculateShift_def shift_of_def using False by (simp del: size_of_int_id)
qed

lemma take_min_length: "take (min n (length xs)) xs = take n xs"
  by (simp add: min_def)

lemma fread_into_ok:
  assumes "pos + n \<le> length buf"
  shows "fread_into buf pos n inp = Inr (take pos buf @ take n inp @ drop (pos + min n (length inp)) buf, min n (length inp), drop n inp)"
  using assms by (simp add: fread_into_def fread_def min.commute)

text \<open>The window after a shift: it has room for a match, or the text has none left.\<close>

definition window_after :: "string \<Rightarrow> nat \<Rightarrow> nat \<Rightarrow> SearchWindow \<Rightarrow> bool" where
  "window_after t n g w \<longleftrightarrow> globalIndex w = g \<and>
     (if wnd_isEmpty w then length t < g + n else window_ok t n w)"

lemma refill_ok:
  assumes "length (textBuffer w) = BUFFER_SIZE + 1" and "curIndex w \<le> textLen w" and "textLen w \<le> BUFFER_SIZE"
    and "textLen w < BUFFER_SIZE \<longrightarrow> inputStream w = []" and "curIndex w \<le> globalIndex w"
    and eq: "take (textLen w) (textBuffer w) @ inputStream w = drop (globalIndex w - curIndex w) t"
    and "BUFFER_SIZE < curIndex w + n" and "0 < n" and "n \<le> BUFFER_SIZE"
  shows "\<exists>w'. refill w = Inr w' \<and> globalIndex w' = globalIndex w \<and> wnd_isEmpty w' = wnd_isEmpty w \<and>
    (curIndex w' + n \<le> textLen w' \<longrightarrow> window_ok t n w') \<and> (textLen w' < curIndex w' + n \<longrightarrow> length t < globalIndex w + n)"
proof -
  let ?c = "curIndex w" and ?buf = "textBuffer w" and ?inp = "inputStream w"
  let ?r = "BUFFER_SIZE - ?c"
  let ?read = "min ?c (length ?inp)"
  let ?buf1 = "take ?r (drop ?c ?buf) @ drop ?r ?buf"
  define buf2 where "buf2 = take ?r (drop ?c ?buf) @ take ?c ?inp @ drop (?r + ?read) ?buf1"
  let ?w' = "w\<lparr>inputStream := drop ?c ?inp, textBuffer := buf2, textLen := ?r + ?read, curIndex := 0\<rparr>"
  have c: "?c \<le> BUFFER_SIZE" using assms(2,3) by simp
  then have rc: "BUFFER_SIZE - ?r = ?c" by simp
  have lb: "length (take ?r (drop ?c ?buf)) = ?r" "length ?buf1 = BUFFER_SIZE + 1" using assms(1) c by auto
  have mv: "memmove ?buf 0 ?buf ?c ?r = Inr ?buf1" using assms(1) c by (simp add: memmove_def)
  have "fread_into ?buf1 ?r ?c ?inp = Inr (buf2, ?read, drop ?c ?inp)"
    using fread_into_ok [of ?r ?c ?buf1 ?inp] lb c by (simp add: buf2_def)
  then have re: "refill w = Inr ?w'" using c mv by (simp add: refill_def rc Let_def)
  have len: "length t - (globalIndex w - ?c) = textLen w + length ?inp"
    using arg_cong [OF eq, of length] assms(1,3) by simp
  have full: "window_ok t n ?w'" if "?r + ?read \<ge> n"
  proof -
    have tl: "textLen w = BUFFER_SIZE" using that assms(3,4,7,8) c by (cases "textLen w = BUFFER_SIZE") auto
    have "take (?r + ?read) buf2 = take ?r (drop ?c ?buf) @ take ?c ?inp"
      using lb(1) by (simp add: buf2_def take_min_length min.commute)
    then have "take (?r + ?read) buf2 @ drop ?c ?inp = take ?r (drop ?c ?buf) @ ?inp" by simp
    also have "\<dots> = drop ?c (drop (globalIndex w - ?c) t)"
      unfolding eq [symmetric] tl using c assms(1) by (simp add: drop_take)
    also have "\<dots> = drop (globalIndex w) t" using assms(5) by simp
    finally have "take (?r + ?read) buf2 @ drop ?c ?inp = drop (globalIndex w) t" .
    moreover have "length buf2 = BUFFER_SIZE + 1" using lb c by (auto simp: buf2_def)
    moreover have "?r + ?read < BUFFER_SIZE \<longrightarrow> drop ?c ?inp = []" using c by auto
    moreover have "?r + ?read \<le> BUFFER_SIZE" using c by auto
    ultimately show ?thesis using that by (simp add: window_ok_def)
  qed
  have "length t < globalIndex w + n" if "?r + ?read < n"
    using that len assms c by (cases "textLen w = BUFFER_SIZE") auto
  with full show ?thesis unfolding re by simp
qed

lemma moveForward_ok:
  assumes "window_ok t (length s) w" and "\<not> wnd_isEmpty w" and "state_ok s st" and "matchCount st \<le> length s"
    and "s \<noteq> []" and "length s \<le> BUFFER_SIZE"
  shows "\<exists>w'. moveForward w st = Inr (w', st\<lparr>matchCount := border (take (matchCount st) s)\<rparr>) \<and>
    window_after t (length s) (globalIndex w + shift_of s (matchCount st)) w'"
proof -
  let ?d = "shift_of s (matchCount st)" and ?n = "length s"
  let ?w1 = "w\<lparr>curIndex := curIndex w + ?d, globalIndex := globalIndex w + ?d\<rparr>"
  have d: "1 \<le> ?d" "?d \<le> ?n" using shift_of_bounds [OF assms(4,5)] by auto
  have w: "length (textBuffer w) = BUFFER_SIZE + 1" "textLen w \<le> BUFFER_SIZE" "curIndex w + ?n \<le> textLen w"
      "curIndex w \<le> globalIndex w" "textLen w < BUFFER_SIZE \<longrightarrow> inputStream w = []"
      and eq: "take (textLen w) (textBuffer w) @ inputStream w = drop (globalIndex w - curIndex w) t"
    using assms(1) by (auto simp: window_ok_def)
  have sh: "calculateShift st = Inr (?d, st\<lparr>matchCount := border (take (matchCount st) s)\<rparr>)"
    using calculateShift_ok [OF assms(3,4)] assms(6) by (simp add: BUFFER_SIZE_def)
  have sl: "substrLen st = ?n" using assms(3) by (simp add: state_ok_def)
  show ?thesis
  proof (cases "BUFFER_SIZE < curIndex w + ?d + ?n")
    case False
    have len: "length t - (globalIndex w - curIndex w) = textLen w + length (inputStream w)"
      using arg_cong [OF eq, of length] w(1,2) by simp
    have "length t < globalIndex w + ?d + ?n" if "textLen w < curIndex w + ?d + ?n"
      using that len w False by (cases "textLen w = BUFFER_SIZE") auto
    moreover have "window_ok t ?n ?w1" if "curIndex w + ?d + ?n \<le> textLen w"
      using that w eq by (simp add: window_ok_def)
    ultimately show ?thesis using sh sl False assms(2) by (auto simp: moveForward_def Let_def window_after_def)
  next
    case True
    obtain w' where re: "refill ?w1 = Inr w'" "globalIndex w' = globalIndex w + ?d" "\<not> wnd_isEmpty w'"
        "curIndex w' + ?n \<le> textLen w' \<longrightarrow> window_ok t ?n w'"
        "textLen w' < curIndex w' + ?n \<longrightarrow> length t < globalIndex w + ?d + ?n"
      using refill_ok [of ?w1 t ?n] w eq d True assms(2,5,6) by auto
    show ?thesis using sh sl True re by (auto simp: moveForward_def Let_def window_after_def)
  qed
qed

text \<open>The positions the search visits and the number of characters that match there, by comparing from the start at
  every one of them.\<close>

function reports :: "string \<Rightarrow> string \<Rightarrow> nat \<Rightarrow> (nat \<times> nat) list" where
  "reports s t p =
     (if s \<noteq> [] \<and> p + length s \<le> length t then
        (let m = lcp s (drop p t) in (if m \<noteq> 0 then [(p, m)] else []) @ reports s t (p + shift_of s m))
      else [])"
  by pat_completeness auto
termination
proof (relation "measure (\<lambda>(s, t, p). Suc (length t) - p)", goal_cases)
  case (2 s t p m)
  then have "1 \<le> shift_of s m" using shift_of_bounds(1) [OF lcp_le(1)] by simp
  with 2 show ?case by auto
qed simp

declare reports.simps [simp del]

definition show_report :: "nat \<times> nat \<Rightarrow> string" where
  "show_report r = show_nat (fst r + 1) @ '' '' @ show_nat (snd r) @ '' ''"

definition show_reports :: "(nat \<times> nat) list \<Rightarrow> string" where
  "show_reports rs = concat (map show_report rs)"

lemma search_loop_ok:
  assumes "window_after t (length s) g w" and "state_ok s st" and "s \<noteq> []" and "length s \<le> BUFFER_SIZE"
    and "matchCount st \<le> length s" and "take (matchCount st) s = take (matchCount st) (drop g t)"
  shows "search_loop w st out = Some (Inr (out @ show_reports (reports s t g)))"
  using assms
proof (induction s t g arbitrary: w st out rule: reports.induct)
  case (1 s t g)
  show ?case
  proof (cases "wnd_isEmpty w")
    case True
    then have "length t < g + length s" using "1.prems"(1) by (simp add: window_after_def)
    then show ?thesis using True by (subst search_loop.simps, subst reports.simps) (simp add: show_reports_def)
  next
    case False
    have w: "globalIndex w = g" "window_ok t (length s) w" using "1.prems"(1) False by (auto simp: window_after_def)
    have room: "g + length s \<le> length t" using window_text(2) [OF w(2)] "1.prems"(3) w(1) by simp
    define m where "m = lcp s (drop g t)"
    let ?st = "st\<lparr>matchCount := m\<rparr>" and ?st' = "st\<lparr>matchCount := border (take m s)\<rparr>" and ?g = "g + shift_of s m"
    have ml: "m \<le> length s" using lcp_le(1) by (simp add: m_def)
    have im: "isMatch w st = Inr (m = length s, ?st)"
      using match_loop_ok [OF "1.prems"(2) w(2) "1.prems"(5,3)] "1.prems"(6) w(1) by (simp add: isMatch_def m_def)
    have "state_ok s ?st" using "1.prems"(2) by (simp add: state_ok_def)
    from moveForward_ok [OF w(2) False this _ "1.prems"(3,4)] ml obtain w' where
      mf: "moveForward w ?st = Inr (w', ?st')" "window_after t (length s) ?g w'" using w(1) by auto
    have bd: "border (take m s) \<le> m" using border_less [of "take m s"] ml "1.prems"(3) by (cases "m = 0") (auto simp: border_single)
    have ok': "state_ok s ?st'" "matchCount ?st' \<le> length s" using "1.prems"(2) bd ml by (auto simp: state_ok_def)
    have tk: "take (matchCount ?st') s = take (matchCount ?st') (drop ?g t)"
    proof (cases "m = 0")
      case False
      have ne: "take m s \<noteq> []" using False "1.prems"(3) by auto
      have lt: "take m s = take m (drop g t)" unfolding m_def by (rule lcp_take)
      have "take (border (take m s)) s = take (border (take m s)) (take m s)" using bd by (simp add: min_absorb1)
      also have "\<dots> = drop (m - border (take m s)) (take m s)"
        using border_is [OF ne] ml bd by (simp add: is_border_def min_absorb1 min_absorb2)
      also have "\<dots> = drop (m - border (take m s)) (take m (drop g t))" using lt by (rule arg_cong)
      also have "drop (m - border (take m s)) (take m (drop g t)) = take (border (take m s)) (drop ?g t)"
        using False bd by (simp add: drop_take shift_of_def add.commute)
      finally show ?thesis by simp
    qed (simp add: border_single)
    have "search_loop w' ?st' out' = Some (Inr (out' @ show_reports (reports s t ?g)))" for out'
      using "1.IH" [OF _ m_def mf(2) ok'(1) "1.prems"(3,4) ok'(2) tk] "1.prems"(3) room by blast
    moreover have "search_round w st = Inr (show_reports (if m \<noteq> 0 then [(g, m)] else []), w', ?st')"
      using im mf(1) w(1) by (simp add: search_round_def show_reports_def show_report_def)
    ultimately have "search_loop w st out =
        Some (Inr (out @ show_reports (if m \<noteq> 0 then [(g, m)] else []) @ show_reports (reports s t ?g)))"
      using False by (subst search_loop.simps) simp
    also have "show_reports (if m \<noteq> 0 then [(g, m)] else []) @ show_reports (reports s t ?g) = show_reports (reports s t g)"
      using room "1.prems"(3) by (subst (2) reports.simps) (simp add: show_reports_def m_def Let_def)
    finally show ?thesis .
  qed
qed

text \<open>What \<open>findSubstring\<close> prints when nothing goes wrong.\<close>

definition search_output :: "string \<Rightarrow> string \<Rightarrow> string" where
  "search_output s t =
     show_ints (map (\<lambda>j. int (border (take (Suc j) s))) [0..<length s]) @ ''\<newline>'' @ show_reports (reports s t 0)"

text \<open>The four allocations, the second of which is not handled properly.\<close>

lemma findSubstring_mem:
  assumes "s \<noteq> []" and "length s \<le> BUFFER_SIZE" and "length buf = BUFFER_SIZE + 1"
  shows "findSubstring t s junk buf mem =
    (if take 2 mem = [True, False] then Some (Inl Undefined)
     else if False \<in> set (take 4 mem) then Some (Inr []) else Some (Inr (search_output s t)))"
proof -
  let ?pre = "map (\<lambda>j. int (border (take (Suc j) s))) [0..<length s]"
  let ?st = "\<lparr>substring = s, prefix_table = ?pre, substrLen = length s, matchCount = 0\<rparr>"
  let ?n = "min BUFFER_SIZE (length t)"
  let ?w = "\<lparr>inputStream = drop BUFFER_SIZE t, textBuffer = take BUFFER_SIZE t @ drop ?n buf, textLen = ?n, curIndex = 0,
    globalIndex = 0, wnd_isEmpty = (?n < length s)\<rparr>"
  obtain ok1 m1 where a1: "alloc mem = (ok1, m1)" by fastforce
  obtain ok2 m2 where a2: "alloc m1 = (ok2, m2)" by fastforce
  obtain ok3 m3 where a3: "alloc m2 = (ok3, m3)" by fastforce
  have st: "initSearchState s junk mem =
      (if \<not> ok1 then Inr (None, m1) else if \<not> ok2 then Inl Undefined else if \<not> ok3 then Inr (None, m3) else Inr (Some ?st, m3))"
    using initPrefixTable_ok [of s junk] assms(1,2) a1 a2 a3 by (simp add: initSearchState_def BUFFER_SIZE_def)
  have wd: "initSearchWindow t buf (length s) m = Inr (if fst (alloc m) then Some ?w else None, snd (alloc m))" for m
    using fread_into_ok [of 0 BUFFER_SIZE buf t] assms(3) by (simp add: initSearchWindow_def split: prod.split)
  have "window_after t (length s) 0 ?w" using assms(2,3) by (auto simp: window_after_def window_ok_def take_min_length)
  then have "search_loop ?w ?st out = Some (Inr (out @ show_reports (reports s t 0)))" for out
    using assms(1,2) by (intro search_loop_ok) (auto simp: state_ok_def)
  then have run: "findSubstring t s junk buf mem =
      (if ok1 \<and> \<not> ok2 then Some (Inl Undefined) else if ok1 \<and> ok2 \<and> ok3 \<and> fst (alloc m3) then Some (Inr (search_output s t))
       else Some (Inr []))"
    using st wd by (simp add: findSubstring_def printPrefixTable_def search_output_def)
  have "ok1 \<and> \<not> ok2 \<longleftrightarrow> take 2 mem = [True, False]"
    using a1 a2 by (cases mem; cases "tl mem") (auto simp: alloc_def)
  moreover have "ok1 \<and> ok2 \<and> ok3 \<and> fst (alloc m3) \<longleftrightarrow> False \<notin> set (take 4 mem)"
    using a1 a2 a3 by (cases mem; cases "tl mem"; cases "tl (tl mem)"; cases "tl (tl (tl mem))") (auto simp: alloc_def)
  ultimately show ?thesis unfolding run by simp
qed

lemma findSubstring_ok:
  assumes "s \<noteq> []" and "length s \<le> BUFFER_SIZE" and "length buf = BUFFER_SIZE + 1"
  shows "findSubstring t s junk buf [] =
    Some (Inr (show_ints (map (\<lambda>j. int (border (take (Suc j) s))) [0..<length s]) @ ''\<newline>'' @ show_reports (reports s t 0)))"
  using findSubstring_mem [OF assms, of t junk "[]"] by (simp add: search_output_def)

text \<open>What the reports say: the positions ascend, the counts are exact, and every occurrence is among them.\<close>

lemma reports_ge: "(q, m) \<in> set (reports s t p) \<Longrightarrow> p \<le> q \<and> 0 < m \<and> m = lcp s (drop q t) \<and> q + length s \<le> length t"
proof (induction s t p rule: reports.induct)
  case (1 s t p)
  from "1.prems" have room: "s \<noteq> [] \<and> p + length s \<le> length t" by (subst (asm) reports.simps) (auto split: if_splits)
  with "1.prems" consider "q = p" "m = lcp s (drop p t)" "0 < m" | "(q, m) \<in> set (reports s t (p + shift_of s (lcp s (drop p t))))"
    by (subst (asm) reports.simps) (auto simp: Let_def split: if_splits)
  then show ?case using "1.IH" [OF room refl] room by cases auto
qed

lemma reports_sorted: "sorted_wrt (<) (map fst (reports s t p))"
proof (induction s t p rule: reports.induct)
  case (1 s t p)
  show ?case
  proof (cases "s \<noteq> [] \<and> p + length s \<le> length t")
    case True
    let ?q = "p + shift_of s (lcp s (drop p t))"
    have "p < ?q" using shift_of_bounds(1) [OF lcp_le(1)] True by (simp add: Suc_le_eq)
    then have "\<forall>x \<in> set (map fst (reports s t ?q)). p < x" using reports_ge by fastforce
    then show ?thesis using "1.IH" [OF True refl] True by (cases "lcp s (drop p t) = 0"; subst reports.simps) (simp_all add: Let_def)
  qed (subst reports.simps, auto)
qed

lemma reports_complete:
  assumes "take (length s) (drop q t) = s" and "s \<noteq> []" and "p \<le> q"
  shows "(q, length s) \<in> set (reports s t p)"
  using assms
proof (induction s t p rule: reports.induct)
  case (1 s t p)
  have "length (take (length s) (drop q t)) = length s" by (simp only: "1.prems"(1))
  then have "q + length s \<le> length t" using "1.prems"(2) by (simp add: min_def split: if_splits) (cases s; auto)
  then have room: "s \<noteq> [] \<and> p + length s \<le> length t" using "1.prems"(2,3) by simp
  show ?case
  proof (cases "q = p")
    case True
    then have "lcp s (drop p t) = length s" using "1.prems"(1) by (simp add: lcp_full)
    then show ?thesis using room True by (subst reports.simps) (simp add: Let_def)
  next
    case False
    then have "p < q" using "1.prems"(3) by simp
    then have "p + shift_of s (lcp s (drop p t)) \<le> q" using no_occurrence_skipped [OF refl _ _ "1.prems"(1)] by (meson not_le)
    then have "(q, length s) \<in> set (reports s t (p + shift_of s (lcp s (drop p t))))"
      using "1.IH" [OF room refl "1.prems"(1,2)] by simp
    then show ?thesis using room by (subst reports.simps) (simp add: Let_def)
  qed
qed

text \<open>C18: for a pattern of 1 to 1024 characters and any text, the search through the refilled buffer always ends.  When
  its four allocations succeed it never reads outside the buffer or the table, does not depend on what uninitialised memory
  holds, and prints the table of longest borders followed by what comparing from the start at each visited position
  reports.  When the first, the third or the fourth allocation fails it prints nothing; when the second one fails
  its clean-up frees an uninitialised pointer, which is undefined.\<close>

theorem findSubstring_equivalence:
  assumes "s \<noteq> []" and "length s \<le> BUFFER_SIZE" and "length buf = BUFFER_SIZE + 1"
  shows "findSubstring t s junk buf mem =
    (if take 2 mem = [True, False] then Some (Inl Undefined)
     else if False \<in> set (take 4 mem) then Some (Inr [])
     else Some (Inr (show_ints (map (\<lambda>j. int (border (take (Suc j) s))) [0..<length s]) @ ''\<newline>'' @ show_reports (reports s t 0))))"
  using findSubstring_mem [OF assms, of t junk mem] unfolding search_output_def .

theorem findSubstring_equivalence_witness:
  "findSubstring ''abcab'' ''ab'' 7 (replicate 1025 CHR ''?'') [True, True] =
    Some (Inr (show_ints (map (\<lambda>j. int (border (take (Suc j) ''ab''))) [0..<length ''ab'']) @ ''\<newline>'' @
      show_reports (reports ''ab'' ''abcab'' 0)))"
  using findSubstring_equivalence [of "''ab''" "replicate 1025 CHR ''?''" "''abcab''" 7 "[True, True]"] by (simp add: BUFFER_SIZE_def)

lemma takeWhile_tail: "x \<notin> set s \<Longrightarrow> takeWhile (\<lambda>c. c \<noteq> x) (s @ x # t) = s"
  by (induction s) auto

lemma scanf_line_show:
  assumes "s \<noteq> []" and "length s \<le> n" and "CHR 0x0A \<notin> set s"
  shows "scanf_line n (s @ CHR 0x0A # t) = Item s (CHR 0x0A # t)"
proof -
  have "takeWhile (\<lambda>c. c \<noteq> CHR 0x0A) (take n (s @ CHR 0x0A # t)) = s"
    using assms(2,3) by (cases "n - length s") (auto simp: takeWhile_tail takeWhile_eq_all_conv)
  then show ?thesis using assms(1) by (simp add: scanf_line_def)
qed

text \<open>C19: on a file with a pattern of 1 to 16 characters in its first line and a text after it, the program succeeds and
  reports positions in ascending order, each with the number of characters that match there; the positions
  reported with a full match are exactly the occurrences of the pattern, overlapping ones included.\<close>

theorem kmp_main_finds_all:
  assumes "s \<noteq> []" and "length s \<le> 16" and "CHR 0x0A \<notin> set s" and "CHR 0x00 \<notin> set s" and "length buf = BUFFER_SIZE + 1"
  shows "\<exists>table rs. main (Some (s @ CHR 0x0A # t)) True junk buf [] = Some (Inr (SUCCESS, table @ ''\<newline>'' @ show_reports rs)) \<and>
    sorted_wrt (<) (map fst rs) \<and> (\<forall>(p, m) \<in> set rs. 0 < m \<and> take m s = take m (drop p t)) \<and>
    {p. (p, length s) \<in> set rs} = {p. take (length s) (drop p t) = s}"
proof (intro exI conjI)
  let ?table = "show_ints (map (\<lambda>j. int (border (take (Suc j) s))) [0..<length s])"
  have "c_string s = s" using assms(4) by (auto simp: c_string_def takeWhile_eq_all_conv)
  then show "main (Some (s @ CHR 0x0A # t)) True junk buf [] = Some (Inr (SUCCESS, ?table @ ''\<newline>'' @ show_reports (reports s t 0)))"
    using findSubstring_ok [OF assms(1) _ assms(5)] assms(2) scanf_line_show [OF assms(1) _ assms(3)]
    by (simp add: main_def SUBSTRING_MAX_SIZE_def BUFFER_SIZE_def fgetc_def)
  show "sorted_wrt (<) (map fst (reports s t 0))" by (rule reports_sorted)
  show "\<forall>(p, m) \<in> set (reports s t 0). 0 < m \<and> take m s = take m (drop p t)"
    using reports_ge lcp_take by fastforce
  show "{p. (p, length s) \<in> set (reports s t 0)} = {p. take (length s) (drop p t) = s}"
  proof (intro set_eqI iffI; unfold mem_Collect_eq)
    fix p assume "(p, length s) \<in> set (reports s t 0)"
    from reports_ge [OF this] have "lcp s (drop p t) = length s" by (elim conjE) (rule sym)
    then show "take (length s) (drop p t) = s" by (simp only: lcp_full)
  qed (rule reports_complete [OF _ assms(1)], simp_all)
qed

theorem kmp_main_finds_all_witness:
  "\<exists>table rs. main (Some (''aa'' @ CHR 0x0A # ''aaa'')) True 0 (replicate 1025 CHR ''x'') [] =
      Some (Inr (SUCCESS, table @ ''\<newline>'' @ show_reports rs)) \<and>
    sorted_wrt (<) (map fst rs) \<and> (\<forall>(p, m) \<in> set rs. 0 < m \<and> take m ''aa'' = take m (drop p ''aaa'')) \<and>
    {p. (p, length ''aa'') \<in> set rs} = {p. take (length ''aa'') (drop p ''aaa'') = ''aa''}"
  by (rule kmp_main_finds_all) (simp_all add: BUFFER_SIZE_def)

end
