(* ===== verification/Data_Refinement.thy ===== *)
theory Data_Refinement
  imports C_Prelude
begin

text \<open>
  Simulation between a data structure of the repository and an abstract one: each operation, called where its
  precondition holds, ends without a fault and acts on the represented value as its specification says.
  The law for single operations gives the one for every sequence of them.
\<close>

locale data_refinement =
  fixes step :: "'o \<Rightarrow> 'c \<Rightarrow> 'c res" and spec :: "'o \<Rightarrow> 'a \<Rightarrow> 'a" and pre :: "'o \<Rightarrow> 'a \<Rightarrow> bool"
    and rel :: "'c \<Rightarrow> 'a \<Rightarrow> bool"
  assumes step_refines: "rel c a \<Longrightarrow> pre op a \<Longrightarrow> \<exists>c'. step op c = Inr c' \<and> rel c' (spec op a)"
begin

fun run :: "'o list \<Rightarrow> 'c \<Rightarrow> 'c res" where
  "run [] c = Inr c"
| "run (op # ops) c = bindR (step op c) (run ops)"

fun run_spec :: "'o list \<Rightarrow> 'a \<Rightarrow> 'a" where
  "run_spec [] a = a"
| "run_spec (op # ops) a = run_spec ops (spec op a)"

fun run_pre :: "'o list \<Rightarrow> 'a \<Rightarrow> bool" where
  "run_pre [] a \<longleftrightarrow> True"
| "run_pre (op # ops) a \<longleftrightarrow> pre op a \<and> run_pre ops (spec op a)"

lemma run_refines: "rel c a \<Longrightarrow> run_pre ops a \<Longrightarrow> \<exists>c'. run ops c = Inr c' \<and> rel c' (run_spec ops a)"
proof (induction ops arbitrary: c a)
  case (Cons op ops)
  then obtain c1 where "step op c = Inr c1" "rel c1 (spec op a)" using step_refines by fastforce
  with Cons.IH [of c1 "spec op a"] Cons.prems show ?case by auto
qed simp

end

end
