(* ===== verification/Circular_Buffer.thy ===== *)
theory Circular_Buffer
  imports C_Stdio Data_Refinement
begin

text \<open>
  \<open>C++-Labs/lab_1_circular_buffer/src\<close>: a double ended queue of characters in a ring of cells.  Memory from \<open>new\<close>
  holds \<open>junk\<close> before it is written.  \<open>copy_n\<close> between overlapping ranges is taken to move the cells as
  \<open>memmove\<close> does, which is what the libraries do for \<open>char\<close>; a remainder by a capacity of zero and an
  access outside the cells are faults.
\<close>

section \<open>Definitions\<close>

record CircularBuffer =
  buffer :: string
  buffer_start :: nat
  capacity :: nat
  size_of :: nat

definition c_rem :: "nat \<Rightarrow> nat \<Rightarrow> nat res" where
  "c_rem a b = (if b = 0 then Inl Undefined else Inr (a mod b))"

text \<open>Subtraction of \<open>size_t\<close> wraps around.\<close>

definition sub64 :: "nat \<Rightarrow> nat \<Rightarrow> nat" where
  "sub64 a b = nat ((int a - int b) mod 2 ^ 64)"

definition fill_n :: "'a list \<Rightarrow> nat \<Rightarrow> nat \<Rightarrow> 'a \<Rightarrow> 'a list res" where
  "fill_n xs pos n x = (if pos + n \<le> length xs then Inr (take pos xs @ replicate n x @ drop (pos + n) xs) else Inl Undefined)"

definition rotate_cells :: "'a list \<Rightarrow> nat \<Rightarrow> 'a list res" where
  "rotate_cells xs mid = (if mid \<le> length xs then Inr (drop mid xs @ take mid xs) else Inl Undefined)"

definition CircularBuffer_empty :: CircularBuffer where
  "CircularBuffer_empty = \<lparr>buffer = [], buffer_start = 0, capacity = 0, size_of = 0\<rparr>"

definition set_capacity :: "(nat \<Rightarrow> char) \<Rightarrow> CircularBuffer \<Rightarrow> nat \<Rightarrow> CircularBuffer res" where
  "set_capacity junk cb new_capacity =
     (let new_size = min (size_of cb) new_capacity;
          new_buffer = map junk [0..<new_capacity];
          first_part_size = min new_size (sub64 (capacity cb) (buffer_start cb)) in
      bindR (memmove new_buffer 0 (buffer cb) (buffer_start cb) first_part_size) (\<lambda>buf1.
      bindR (if first_part_size < new_size
             then memmove buf1 first_part_size (buffer cb) 0 (new_size - first_part_size) else Inr buf1) (\<lambda>buf2.
      Inr \<lparr>buffer = buf2, buffer_start = 0, capacity = new_capacity, size_of = new_size\<rparr>)))"

definition resize :: "(nat \<Rightarrow> char) \<Rightarrow> CircularBuffer \<Rightarrow> nat \<Rightarrow> char \<Rightarrow> CircularBuffer res" where
  "resize junk cb new_size item =
     (if new_size \<le> size_of cb then Inr (cb\<lparr>size_of := new_size\<rparr>)
      else
        bindR (if new_size > capacity cb then set_capacity junk cb new_size else Inr cb) (\<lambda>cb1.
        bindR (c_rem (buffer_start cb1 + size_of cb1) (capacity cb1)) (\<lambda>fill_begin.
        let fill_quantity = new_size - size_of cb1;
            first_part_size = min fill_quantity (sub64 (capacity cb1) fill_begin) in
        bindR (fill_n (buffer cb1) fill_begin first_part_size item) (\<lambda>buf1.
        bindR (if first_part_size < fill_quantity then fill_n buf1 0 (fill_quantity - first_part_size) item else Inr buf1) (\<lambda>buf2.
        Inr (cb1\<lparr>buffer := buf2, size_of := new_size\<rparr>))))))"

definition CircularBuffer_cap :: "(nat \<Rightarrow> char) \<Rightarrow> nat \<Rightarrow> CircularBuffer res" where
  "CircularBuffer_cap junk n = set_capacity junk CircularBuffer_empty n"

definition CircularBuffer_fill :: "(nat \<Rightarrow> char) \<Rightarrow> nat \<Rightarrow> char \<Rightarrow> CircularBuffer res" where
  "CircularBuffer_fill junk n elem = bindR (CircularBuffer_cap junk n) (\<lambda>cb. resize junk cb n elem)"

fun store_list :: "string \<Rightarrow> nat \<Rightarrow> string \<Rightarrow> string res" where
  "store_list buf i [] = Inr buf"
| "store_list buf i (v # vs) = bindR (arr_set buf i v) (\<lambda>buf'. store_list buf' (i + 1) vs)"

definition CircularBuffer_list :: "(nat \<Rightarrow> char) \<Rightarrow> string \<Rightarrow> CircularBuffer res" where
  "CircularBuffer_list junk vs =
     bindR (CircularBuffer_cap junk (length vs)) (\<lambda>cb.
     bindR (store_list (buffer cb) 0 vs) (\<lambda>buf. Inr (cb\<lparr>buffer := buf, size_of := length vs\<rparr>)))"

text \<open>The copy constructor copies the first \<open>size()\<close> cells into an array of \<open>size()\<close> cells.\<close>

definition CircularBuffer_copy :: "(nat \<Rightarrow> char) \<Rightarrow> CircularBuffer \<Rightarrow> CircularBuffer res" where
  "CircularBuffer_copy junk other =
     bindR (memmove (map junk [0..<size_of other]) 0 (buffer other) 0 (size_of other)) (\<lambda>buf.
     Inr \<lparr>buffer = buf, buffer_start = buffer_start other, capacity = capacity other, size_of = size_of other\<rparr>)"

definition push_back :: "CircularBuffer \<Rightarrow> char \<Rightarrow> CircularBuffer res" where
  "push_back cb item =
     (if capacity cb = 0 then Inr cb
      else
        bindR (c_rem (buffer_start cb + size_of cb) (capacity cb)) (\<lambda>i.
        bindR (arr_set (buffer cb) i item) (\<lambda>buf.
        if size_of cb \<noteq> capacity cb then Inr (cb\<lparr>buffer := buf, size_of := size_of cb + 1\<rparr>)
        else bindR (c_rem (buffer_start cb + 1) (capacity cb)) (\<lambda>start. Inr (cb\<lparr>buffer := buf, buffer_start := start\<rparr>)))))"

definition push_front :: "CircularBuffer \<Rightarrow> char \<Rightarrow> CircularBuffer res" where
  "push_front cb item =
     (if capacity cb = 0 then Inr cb
      else
        bindR (c_rem (buffer_start cb + capacity cb - 1) (capacity cb)) (\<lambda>i.
        bindR (arr_set (buffer cb) i item) (\<lambda>buf.
        Inr (cb\<lparr>buffer := buf, buffer_start := i,
                size_of := (if size_of cb \<noteq> capacity cb then size_of cb + 1 else size_of cb)\<rparr>))))"

definition pop_back :: "CircularBuffer \<Rightarrow> CircularBuffer res" where
  "pop_back cb = Inr (cb\<lparr>size_of := sub64 (size_of cb) 1\<rparr>)"

definition pop_front :: "CircularBuffer \<Rightarrow> CircularBuffer res" where
  "pop_front cb =
     bindR (c_rem (buffer_start cb + 1) (capacity cb)) (\<lambda>start.
     Inr (cb\<lparr>size_of := sub64 (size_of cb) 1, buffer_start := start\<rparr>))"

definition is_empty :: "CircularBuffer \<Rightarrow> bool" where
  "is_empty cb \<longleftrightarrow> size_of cb = 0"

definition full :: "CircularBuffer \<Rightarrow> bool" where
  "full cb \<longleftrightarrow> size_of cb = capacity cb"

definition reserve :: "CircularBuffer \<Rightarrow> nat" where
  "reserve cb = sub64 (capacity cb) (size_of cb)"

definition insert_shift :: "string \<Rightarrow> nat \<Rightarrow> nat \<Rightarrow> nat \<Rightarrow> string res" where
  "insert_shift buf cap absolute_pos shift_quantity =
     (let first_part_size = min shift_quantity (cap - absolute_pos - 1) in
      bindR (if first_part_size < shift_quantity then
               bindR (memmove buf 1 buf 0 (shift_quantity - first_part_size - 1)) (\<lambda>buf1.
               bindR (arr_get buf1 (cap - 1)) (\<lambda>x. arr_set buf1 0 x))
             else Inr buf) (\<lambda>buf2.
      memmove buf2 (absolute_pos + 1) buf2 absolute_pos first_part_size))"

definition insert_at :: "CircularBuffer \<Rightarrow> int \<Rightarrow> char \<Rightarrow> CircularBuffer res" where
  "insert_at cb pos item =
     (let shift_quantity = nat ((int (size_of cb) - pos) mod 2 ^ 64) in
      bindR (c_rem (nat ((int (buffer_start cb) + pos) mod 2 ^ 64)) (capacity cb)) (\<lambda>absolute_pos.
      bindR (insert_shift (buffer cb) (capacity cb) absolute_pos shift_quantity) (\<lambda>buf.
      bindR (if capacity cb = size_of cb then
               if pos \<noteq> 0 then bindR (c_rem (buffer_start cb + 1) (capacity cb)) (\<lambda>start. Inr (cb\<lparr>buffer_start := start\<rparr>))
               else Inr cb
             else Inr (cb\<lparr>size_of := size_of cb + 1\<rparr>)) (\<lambda>cb1.
      bindR (arr_set buf absolute_pos item) (\<lambda>buf'. Inr (cb1\<lparr>buffer := buf'\<rparr>))))))"

definition erase_near :: "string \<Rightarrow> nat \<Rightarrow> nat \<Rightarrow> nat \<Rightarrow> nat \<Rightarrow> string res" where
  "erase_near buf cap first_absolute last_absolute shift_quantity =
     (let first_part_size = min shift_quantity (cap - last_absolute) in
      bindR (memmove buf first_absolute buf last_absolute first_part_size) (\<lambda>buf1.
      if first_part_size < shift_quantity then
        (let second_part_size = min (shift_quantity - first_part_size) (cap - last_absolute) in
         bindR (memmove buf1 (first_absolute + first_part_size) buf1 0 second_part_size) (\<lambda>buf2.
         if first_part_size + second_part_size < shift_quantity
         then memmove buf2 0 buf2 second_part_size (shift_quantity - first_part_size - second_part_size)
         else Inr buf2))
      else Inr buf1))"

definition erase_far :: "string \<Rightarrow> nat \<Rightarrow> nat \<Rightarrow> nat \<Rightarrow> nat \<Rightarrow> string res" where
  "erase_far buf cap first_absolute last_absolute shift_quantity =
     (let first_part_size = min shift_quantity (cap - first_absolute) in
      bindR (memmove buf first_absolute buf last_absolute first_part_size) (\<lambda>buf1.
      if first_part_size < shift_quantity
      then memmove buf1 0 buf1 (last_absolute + first_part_size) (shift_quantity - first_part_size)
      else Inr buf1))"

definition erase :: "CircularBuffer \<Rightarrow> nat \<Rightarrow> nat \<Rightarrow> CircularBuffer res" where
  "erase cb from_pos to_pos =
     (if from_pos = to_pos then Inr cb
      else
        let shift_quantity = sub64 (size_of cb) to_pos in
        bindR (c_rem (buffer_start cb + to_pos) (capacity cb)) (\<lambda>last_absolute.
        bindR (c_rem (buffer_start cb + from_pos) (capacity cb)) (\<lambda>first_absolute.
        bindR (if first_absolute \<le> last_absolute
               then erase_near (buffer cb) (capacity cb) first_absolute last_absolute shift_quantity
               else erase_far (buffer cb) (capacity cb) first_absolute last_absolute shift_quantity) (\<lambda>buf.
        Inr (cb\<lparr>buffer := buf, size_of := sub64 (size_of cb) (sub64 to_pos from_pos)\<rparr>)))))"

definition clear :: "CircularBuffer \<Rightarrow> CircularBuffer res" where
  "clear cb = Inr (cb\<lparr>size_of := 0\<rparr>)"

definition rotate_to :: "CircularBuffer \<Rightarrow> int \<Rightarrow> CircularBuffer res" where
  "rotate_to cb new_begin =
     (if new_begin < 0 then Inl Undefined
      else bindR (rotate_cells (buffer cb) (nat new_begin)) (\<lambda>buf. Inr (cb\<lparr>buffer := buf\<rparr>)))"

definition linearize :: "CircularBuffer \<Rightarrow> CircularBuffer res" where
  "linearize cb =
     bindR (rotate_cells (buffer cb) (buffer_start cb)) (\<lambda>buf. Inr (cb\<lparr>buffer := buf, buffer_start := 0\<rparr>))"

definition is_linearized :: "CircularBuffer \<Rightarrow> bool" where
  "is_linearized cb \<longleftrightarrow> buffer_start cb = 0"

definition index :: "CircularBuffer \<Rightarrow> nat \<Rightarrow> char res" where
  "index cb i = bindR (c_rem (buffer_start cb + i) (capacity cb)) (arr_get (buffer cb))"

definition assign_index :: "CircularBuffer \<Rightarrow> nat \<Rightarrow> char \<Rightarrow> CircularBuffer res" where
  "assign_index cb i v =
     bindR (c_rem (buffer_start cb + i) (capacity cb)) (\<lambda>j.
     bindR (arr_set (buffer cb) j v) (\<lambda>buf. Inr (cb\<lparr>buffer := buf\<rparr>)))"

text \<open>\<open>at\<close>: the message of the exception, or the element.\<close>

definition checked_at :: "CircularBuffer \<Rightarrow> nat \<Rightarrow> (string + char) res" where
  "checked_at cb i =
     (if i \<ge> size_of cb
      then Inr (Inl (''CircularBuffer: i (which is '' @ show_nat i @ '') >= this->size() (which is ('' @
                     show_nat (size_of cb) @ '')''))
      else bindR (index cb i) (\<lambda>c. Inr (Inr c)))"

definition front :: "CircularBuffer \<Rightarrow> char res" where
  "front cb = arr_get (buffer cb) (buffer_start cb)"

definition back_elem :: "CircularBuffer \<Rightarrow> char res" where
  "back_elem cb = bindR (c_rem (buffer_start cb + size_of cb) (capacity cb)) (arr_get (buffer cb))"

definition swap :: "CircularBuffer \<Rightarrow> CircularBuffer \<Rightarrow> CircularBuffer \<times> CircularBuffer" where
  "swap a b = (b, a)"

text \<open>Assignment takes its argument by value, so it copies it first.\<close>

definition assign :: "(nat \<Rightarrow> char) \<Rightarrow> CircularBuffer \<Rightarrow> CircularBuffer \<Rightarrow> CircularBuffer res" where
  "assign junk cb other = bindR (CircularBuffer_copy junk other) (\<lambda>tmp. Inr (fst (swap cb tmp)))"

fun equal_loop :: "CircularBuffer \<Rightarrow> CircularBuffer \<Rightarrow> nat \<Rightarrow> nat \<Rightarrow> bool res" where
  "equal_loop a b i 0 = Inr True"
| "equal_loop a b i (Suc n) =
     bindR (index a i) (\<lambda>x. bindR (index b i) (\<lambda>y. if x \<noteq> y then Inr False else equal_loop a b (i + 1) n))"

definition equal_buffers :: "CircularBuffer \<Rightarrow> CircularBuffer \<Rightarrow> bool res" where
  "equal_buffers a b = (if size_of a \<noteq> size_of b then Inr False else equal_loop a b 0 (size_of a))"

definition differ :: "CircularBuffer \<Rightarrow> CircularBuffer \<Rightarrow> bool res" where
  "differ a b = bindR (equal_buffers a b) (\<lambda>e. Inr (\<not> e))"

section \<open>The represented list\<close>

definition contents :: "CircularBuffer \<Rightarrow> string" where
  "contents cb = map (\<lambda>i. buffer cb ! ((buffer_start cb + i) mod capacity cb)) [0..<size_of cb]"

definition cb_ok :: "CircularBuffer \<Rightarrow> bool" where
  "cb_ok cb \<longleftrightarrow> length (buffer cb) = capacity cb \<and> size_of cb \<le> capacity cb \<and> capacity cb < 2 ^ 63 \<and>
     (buffer_start cb < capacity cb \<or> capacity cb = 0 \<and> buffer_start cb = 0)"

lemma length_contents [simp]: "length (contents cb) = size_of cb"
  by (simp add: contents_def)

lemma contents_nth: "i < size_of cb \<Longrightarrow> contents cb ! i = buffer cb ! ((buffer_start cb + i) mod capacity cb)"
  by (simp add: contents_def)

lemma mod_wrap: "s < c \<Longrightarrow> i \<le> c \<Longrightarrow> (s + i) mod c = (if s + i < c then s + i else s + i - c)"
  for s i c :: nat
  by (simp add: mod_if)

lemma sub64_le [simp]: "b \<le> a \<Longrightarrow> a < 2 ^ 64 \<Longrightarrow> sub64 a b = a - b"
  by (simp add: sub64_def of_nat_diff [symmetric] nat_mod_distrib del: of_nat_diff)

lemma nth_memmove:
  assumes "memmove d dp s sp n = Inr r"
  shows "length r = length d" and "i < length d \<Longrightarrow> r ! i = (if dp \<le> i \<and> i < dp + n then s ! (sp + (i - dp)) else d ! i)"
proof -
  have r: "sp + n \<le> length s" "dp + n \<le> length d" "r = take dp d @ take n (drop sp s) @ drop (dp + n) d"
    using assms by (auto simp: memmove_def split: if_splits)
  then show "length r = length d" by simp
  have l: "length (take dp d) = dp" "length (take n (drop sp s)) = n" using r(1,2) by auto
  assume "i < length d"
  then show "r ! i = (if dp \<le> i \<and> i < dp + n then s ! (sp + (i - dp)) else d ! i)"
    unfolding r(3) nth_append l using r(1,2) by auto
qed

lemma memmove_in: "sp + n \<le> length s \<Longrightarrow> dp + n \<le> length d \<Longrightarrow> \<exists>r. memmove d dp s sp n = Inr r"
  by (simp add: memmove_def)

lemma c_rem_in [simp]: "0 < b \<Longrightarrow> c_rem a b = Inr (a mod b)"
  by (simp add: c_rem_def)

section \<open>Refinement of a bounded list\<close>

text \<open>The abstract buffer: its capacity and its elements.\<close>

datatype cb_op = Push_back char | Push_front char | Pop_back | Pop_front | Insert nat char | Resize nat char
  | Set_capacity nat | Clear | Linearize | Rotate nat | Store nat char | Erase nat nat | Copy

fun cb_step :: "(nat \<Rightarrow> char) \<Rightarrow> cb_op \<Rightarrow> CircularBuffer \<Rightarrow> CircularBuffer res" where
  "cb_step junk (Push_back c) cb = push_back cb c"
| "cb_step junk (Push_front c) cb = push_front cb c"
| "cb_step junk Pop_back cb = pop_back cb"
| "cb_step junk Pop_front cb = pop_front cb"
| "cb_step junk (Insert i c) cb = insert_at cb (int i) c"
| "cb_step junk (Resize n c) cb = resize junk cb n c"
| "cb_step junk (Set_capacity n) cb = set_capacity junk cb n"
| "cb_step junk Clear cb = clear cb"
| "cb_step junk Linearize cb = linearize cb"
| "cb_step junk (Rotate i) cb = rotate_to cb (int i)"
| "cb_step junk (Store i c) cb = assign_index cb i c"
| "cb_step junk (Erase i j) cb = erase cb i j"
| "cb_step junk Copy cb = assign junk CircularBuffer_empty cb"

fun cb_spec :: "cb_op \<Rightarrow> nat \<times> string \<Rightarrow> nat \<times> string" where
  "cb_spec (Push_back c) (cap, xs) = (cap, if cap = 0 then xs else if length xs < cap then xs @ [c] else tl xs @ [c])"
| "cb_spec (Push_front c) (cap, xs) = (cap, if cap = 0 then xs else if length xs < cap then c # xs else c # butlast xs)"
| "cb_spec Pop_back (cap, xs) = (cap, butlast xs)"
| "cb_spec Pop_front (cap, xs) = (cap, tl xs)"
| "cb_spec (Insert i c) (cap, xs) =
     (let ys = take i xs @ c # drop i xs in (cap, if length xs < cap then ys else if i = 0 then butlast ys else tl ys))"
| "cb_spec (Resize n c) (cap, xs) = (max cap n, take n xs @ replicate (n - length xs) c)"
| "cb_spec (Set_capacity n) (cap, xs) = (n, take n xs)"
| "cb_spec Clear (cap, xs) = (cap, [])"
| "cb_spec Linearize (cap, xs) = (cap, xs)"
| "cb_spec (Rotate i) (cap, xs) = (cap, drop i xs @ take i xs)"
| "cb_spec (Store i c) (cap, xs) = (cap, xs[i := c])"
| "cb_spec (Erase i j) (cap, xs) = (cap, take i xs @ drop j xs)"
| "cb_spec Copy (cap, xs) = (cap, xs)"

text \<open>Where the operations do what their documentation says.  For most of them this is the documented precondition.  The
  documentation would also allow \<open>insert\<close> at the front of a full buffer, \<open>rotate\<close> and the copy of a buffer that is not full,
  and \<open>erase\<close> of elements before the last; there the code goes wrong, or does so depending on where the
  elements lie in the ring (see the last section).\<close>

fun cb_pre :: "cb_op \<Rightarrow> nat \<times> string \<Rightarrow> bool" where
  "cb_pre Pop_back (cap, xs) \<longleftrightarrow> xs \<noteq> []"
| "cb_pre Pop_front (cap, xs) \<longleftrightarrow> xs \<noteq> []"
| "cb_pre (Insert i c) (cap, xs) \<longleftrightarrow> i \<le> length xs \<and> 0 < cap \<and> i < 2 ^ 31 \<and> (length xs = cap \<longrightarrow> 0 < i)"
| "cb_pre (Resize n c) (cap, xs) \<longleftrightarrow> n < 2 ^ 63"
| "cb_pre (Set_capacity n) (cap, xs) \<longleftrightarrow> n < 2 ^ 63"
| "cb_pre (Rotate i) (cap, xs) \<longleftrightarrow> i < length xs \<and> length xs = cap \<and> i < 2 ^ 31"
| "cb_pre (Store i c) (cap, xs) \<longleftrightarrow> i < length xs"
| "cb_pre (Erase i j) (cap, xs) \<longleftrightarrow> i = j \<and> j \<le> length xs \<or> i < j \<and> j = length xs"
| "cb_pre Copy (cap, xs) \<longleftrightarrow> length xs = cap"
| "cb_pre op s \<longleftrightarrow> True"

definition cb_rel :: "CircularBuffer \<Rightarrow> nat \<times> string \<Rightarrow> bool" where
  "cb_rel cb s \<longleftrightarrow> cb_ok cb \<and> capacity cb = fst s \<and> contents cb = snd s"

text \<open>The cells in logical order.\<close>

definition ring :: "CircularBuffer \<Rightarrow> string" where
  "ring cb = rotate (buffer_start cb) (buffer cb)"

lemma contents_ring: "cb_ok cb \<Longrightarrow> contents cb = take (size_of cb) (ring cb)"
  by (rule nth_equalityI) (auto simp: contents_nth ring_def nth_rotate cb_ok_def)

lemma length_ring: "cb_ok cb \<Longrightarrow> length (ring cb) = capacity cb"
  by (simp add: ring_def cb_ok_def)

lemma mod_add_inj:
  fixes s i k c :: nat
  assumes "(s + i) mod c = (s + k) mod c" and "i < c" and "k < c"
  shows "i = k"
proof -
  have "\<not> i < k" using assms mod_eq_dvd_iff_nat [of "s + i" "s + k" c] dvd_imp_le [of c "k - i"] by fastforce
  moreover have "\<not> k < i" using assms mod_eq_dvd_iff_nat [of "s + k" "s + i" c] dvd_imp_le [of c "i - k"] by fastforce
  ultimately show ?thesis by simp
qed

lemma rotate_update:
  assumes "i < length xs"
  shows "rotate s (xs[(s + i) mod length xs := x]) = (rotate s xs)[i := x]"
proof (rule nth_equalityI)
  fix k assume "k < length (rotate s (xs[(s + i) mod length xs := x]))"
  then show "rotate s (xs[(s + i) mod length xs := x]) ! k = (rotate s xs)[i := x] ! k"
    using assms mod_add_inj [of s i "length xs" k]
    by (cases "xs = []"; cases "i = k") (auto simp: nth_rotate nth_list_update)
qed simp

lemma rotate_Suc_update:
  assumes "xs \<noteq> []"
  shows "rotate (Suc s mod length xs) (xs[s mod length xs := x]) = tl (rotate s xs) @ [x]"
proof -
  have "rotate (Suc s mod length xs) (xs[s mod length xs := x]) = rotate1 (rotate s (xs[(s + 0) mod length xs := x]))"
    by (metis add.right_neutral length_list_update rotate_Suc rotate_conv_mod)
  also have "\<dots> = rotate1 ((rotate s xs)[0 := x])" using assms by (subst rotate_update) auto
  also have "\<dots> = tl (rotate s xs) @ [x]" using assms by (cases "rotate s xs") auto
  finally show ?thesis .
qed

lemma push_back_ok:
  assumes "cb_ok cb"
  shows "\<exists>cb'. push_back cb c = Inr cb' \<and> cb_rel cb' (cb_spec (Push_back c) (capacity cb, contents cb))"
proof (cases "capacity cb = 0")
  case True
  then show ?thesis using assms by (simp add: push_back_def cb_rel_def)
next
  case False
  let ?s = "buffer_start cb" and ?c = "capacity cb" and ?n = "size_of cb"
  have ok: "?s < ?c" "?n \<le> ?c" "length (buffer cb) = ?c" "buffer cb \<noteq> []" using assms False by (auto simp: cb_ok_def)
  show ?thesis
  proof (cases "?n < ?c")
    case True
    let ?cb = "cb\<lparr>buffer := (buffer cb)[(?s + ?n) mod ?c := c], size_of := ?n + 1\<rparr>"
    have ok': "cb_ok ?cb" using assms True by (simp add: cb_ok_def)
    have "ring ?cb = (ring cb)[?n := c]" using rotate_update [of ?n "buffer cb" ?s c] True ok(3) by (simp add: ring_def)
    then have "contents ?cb = contents cb @ [c]"
      unfolding contents_ring [OF ok'] contents_ring [OF assms]
      using True length_ring [OF assms] by (simp add: take_Suc_conv_app_nth)
    moreover have "push_back cb c = Inr ?cb" using False True ok by (simp add: push_back_def)
    ultimately show ?thesis using False True ok' by (simp add: cb_rel_def)
  next
    case full: False
    then have n: "?n = ?c" using ok by simp
    let ?cb = "cb\<lparr>buffer := (buffer cb)[?s := c], buffer_start := (?s + 1) mod ?c\<rparr>"
    have ok': "cb_ok ?cb" using assms False by (simp add: cb_ok_def)
    have "ring ?cb = tl (ring cb) @ [c]" using rotate_Suc_update [OF ok(4), of ?s c] ok by (simp add: ring_def)
    then have "contents ?cb = tl (contents cb) @ [c]"
      unfolding contents_ring [OF ok'] contents_ring [OF assms] using n False length_ring [OF assms] by simp
    moreover have "push_back cb c = Inr ?cb" using False full ok n by (simp add: push_back_def)
    ultimately show ?thesis using False full ok' by (simp add: cb_rel_def)
  qed
qed

lemma rotate_pred:
  assumes "xs \<noteq> []" and "s < length xs"
  shows "rotate (s + length xs - 1) xs = last (rotate s xs) # butlast (rotate s xs)"
proof -
  let ?r = "rotate s xs"
  have ne: "?r \<noteq> []" using assms(1) by simp
  have "rotate (s + length xs - 1) xs = rotate (length xs - 1) ?r" using assms by (simp add: rotate_rotate add.commute)
  also have "\<dots> = drop (length ?r - 1) ?r @ take (length ?r - 1) ?r" using assms by (simp add: rotate_drop_take)
  also have "\<dots> = last ?r # butlast ?r" using ne by (metis append_butlast_last_id append_Cons append_Nil append_eq_conv_conj butlast_conv_take length_butlast)
  finally show ?thesis .
qed

lemma push_front_ok:
  assumes "cb_ok cb"
  shows "\<exists>cb'. push_front cb c = Inr cb' \<and> cb_rel cb' (cb_spec (Push_front c) (capacity cb, contents cb))"
proof (cases "capacity cb = 0")
  case True
  then show ?thesis using assms by (simp add: push_front_def cb_rel_def)
next
  case False
  let ?s = "buffer_start cb" and ?c = "capacity cb" and ?n = "size_of cb"
  let ?j = "(?s + ?c - 1) mod ?c"
  have ok: "?s < ?c" "?n \<le> ?c" "length (buffer cb) = ?c" "buffer cb \<noteq> []" "?j < ?c" using assms False by (auto simp: cb_ok_def)
  let ?cb = "cb\<lparr>buffer := (buffer cb)[?j := c], buffer_start := ?j, size_of := (if ?n \<noteq> ?c then ?n + 1 else ?n)\<rparr>"
  have ok': "cb_ok ?cb" using assms False ok by (simp add: cb_ok_def)
  have "ring ?cb = (rotate ?j (buffer cb))[0 := c]" using rotate_update [of 0 "buffer cb" ?j c] ok by (simp add: ring_def)
  also have "rotate ?j (buffer cb) = last (ring cb) # butlast (ring cb)"
    using rotate_pred [OF ok(4), of ?s] ok rotate_conv_mod [of "?s + ?c - 1" "buffer cb"] by (simp add: ring_def)
  finally have r: "ring ?cb = c # butlast (ring cb)" by simp
  have "contents ?cb = c # (if ?n < ?c then contents cb else butlast (contents cb))"
    unfolding contents_ring [OF ok'] contents_ring [OF assms]
    using r ok length_ring [OF assms] by (cases "?n = ?c") (auto simp: take_butlast)
  moreover have "push_front cb c = Inr ?cb" using False ok by (simp add: push_front_def)
  ultimately show ?thesis using False ok' by (auto simp: cb_rel_def)
qed

lemma pop_back_ok:
  assumes "cb_ok cb" and "contents cb \<noteq> []"
  shows "\<exists>cb'. pop_back cb = Inr cb' \<and> cb_rel cb' (cb_spec Pop_back (capacity cb, contents cb))"
proof -
  have n: "0 < size_of cb" using assms(2) by (simp add: contents_def)
  let ?cb = "cb\<lparr>size_of := size_of cb - 1\<rparr>"
  have ok': "cb_ok ?cb" using assms(1) by (auto simp: cb_ok_def)
  have "ring ?cb = ring cb" by (simp add: ring_def)
  then have "contents ?cb = butlast (contents cb)"
    unfolding contents_ring [OF ok'] contents_ring [OF assms(1)]
    using n length_ring [OF assms(1)] assms(1) by (simp add: butlast_take cb_ok_def)
  moreover have "pop_back cb = Inr ?cb" using n assms(1) by (simp add: pop_back_def cb_ok_def)
  ultimately show ?thesis using ok' by (simp add: cb_rel_def)
qed

lemma pop_front_ok:
  assumes "cb_ok cb" and "contents cb \<noteq> []"
  shows "\<exists>cb'. pop_front cb = Inr cb' \<and> cb_rel cb' (cb_spec Pop_front (capacity cb, contents cb))"
proof -
  have n: "0 < size_of cb" using assms(2) by (simp add: contents_def)
  let ?s = "buffer_start cb" and ?c = "capacity cb"
  have ok: "?s < ?c" "length (buffer cb) = ?c" using assms(1) n by (auto simp: cb_ok_def)
  let ?cb = "cb\<lparr>size_of := size_of cb - 1, buffer_start := (?s + 1) mod ?c\<rparr>"
  have ok': "cb_ok ?cb" using assms(1) ok by (auto simp: cb_ok_def)
  have "ring ?cb = rotate1 (ring cb)" using ok rotate_conv_mod [of "Suc ?s" "buffer cb"] by (simp add: ring_def)
  then have "contents ?cb = tl (contents cb)"
    unfolding contents_ring [OF ok'] contents_ring [OF assms(1)]
    using n length_ring [OF assms(1)] assms(1) ok by (cases "ring cb") (auto simp: take_Cons' cb_ok_def)
  moreover have "pop_front cb = Inr ?cb" using n assms(1) ok by (simp add: pop_front_def cb_ok_def)
  ultimately show ?thesis using ok' by (simp add: cb_rel_def)
qed

lemma set_capacity_ok:
  assumes "cb_ok cb" and "n < 2 ^ 63"
  shows "\<exists>cb'. set_capacity junk cb n = Inr cb' \<and> cb_rel cb' (cb_spec (Set_capacity n) (capacity cb, contents cb))"
proof -
  let ?s = "buffer_start cb" and ?c = "capacity cb" and ?b = "buffer cb" and ?J = "map junk [0..<n]"
  define ns where "ns = min (size_of cb) n"
  define f where "f = min ns (?c - ?s)"
  have ok: "?s \<le> ?c" "size_of cb \<le> ?c" "length ?b = ?c" "?c < 2 ^ 63" using assms by (auto simp: cb_ok_def)
  have le: "f \<le> ?c - ?s" "f \<le> ns" "ns \<le> n" "ns \<le> size_of cb" "f = ns \<or> f = ?c - ?s"
    by (simp_all add: f_def ns_def min_def)
  then have fl: "?s + f \<le> ?c" "f \<le> ns" "ns \<le> n" "ns \<le> ?c" "f = ns \<or> f = ?c - ?s \<and> ns - f \<le> ?s"
    using ok(1,2) by auto
  define buf1 where "buf1 = take f (drop ?s ?b) @ drop f ?J"
  define buf2 where "buf2 = take f buf1 @ take (ns - f) ?b @ drop ns buf1"
  have l: "length (take f (drop ?s ?b)) = f" "length buf1 = n" using ok(3) fl by (auto simp: buf1_def)
  have m1: "memmove ?J 0 ?b ?s f = Inr buf1" using ok(3) fl by (simp add: memmove_def buf1_def)
  have m2: "memmove buf1 f ?b 0 (ns - f) = Inr buf2" using ok(3) l fl by (simp add: memmove_def buf2_def)
  have eq: "\<not> f < ns \<Longrightarrow> buf2 = buf1" using fl(2) by (simp add: buf2_def)
  let ?cb = "\<lparr>buffer = buf2, buffer_start = 0, capacity = n, size_of = ns\<rparr>"
  have "sub64 ?c ?s = ?c - ?s" using ok by simp
  then have "set_capacity junk cb n = Inr ?cb"
    unfolding set_capacity_def Let_def ns_def [symmetric] using m1 m2 eq by (simp add: f_def [symmetric])
  moreover have l2: "length buf2 = n" using l ok(3) fl by (simp add: buf2_def)
  then have ok': "cb_ok ?cb" using fl assms(2) by (auto simp: cb_ok_def)
  moreover have "contents ?cb = take n (contents cb)"
  proof -
    have "contents ?cb = take ns buf2" unfolding contents_ring [OF ok'] by (simp add: ring_def)
    also have "\<dots> = take f (drop ?s ?b) @ take (ns - f) ?b" using l fl ok(3) by (simp add: buf2_def buf1_def)
    also have "\<dots> = take ns (drop ?s ?b @ take ?s ?b)" using ok(3) fl by (auto simp: min_absorb1)
    also have "drop ?s ?b @ take ?s ?b = ring cb"
      using assms(1) by (cases "?c = 0") (auto simp: ring_def rotate_drop_take cb_ok_def)
    also have "take ns (ring cb) = take n (contents cb)" unfolding contents_ring [OF assms(1)] ns_def by (simp add: min.commute)
    finally show ?thesis .
  qed
  ultimately show ?thesis by (simp add: cb_rel_def)
qed

lemma nth_fill_n:
  assumes "pos + n \<le> length xs"
  shows "\<exists>ys. fill_n xs pos n x = Inr ys \<and> length ys = length xs \<and>
    (\<forall>i < length xs. ys ! i = (if pos \<le> i \<and> i < pos + n then x else xs ! i))"
  using assms by (auto simp: fill_n_def nth_append)

lemma fill_region:
  fixes s c m n i :: nat
  assumes "s < c" and "m < n" and "n \<le> c" and "i < n"
  defines "a \<equiv> (s + m) mod c" and "j \<equiv> (s + i) mod c"
  defines "f \<equiv> min (n - m) (c - a)"
  shows "m \<le> i \<longleftrightarrow> a \<le> j \<and> j < a + f \<or> j < n - m - f"
proof -
  have "a = (if s + m < c then s + m else s + m - c)" "j = (if s + i < c then s + i else s + i - c)"
    unfolding a_def j_def using assms(1-4) by (simp_all add: mod_wrap)
  then show ?thesis unfolding f_def using assms(1-4) by (auto simp: min_def split: if_splits)
qed

lemma resize_fill_ok:
  assumes "cb_ok cb" and "size_of cb < n" and "n \<le> capacity cb"
  shows "\<exists>cb'. resize junk cb n x = Inr cb' \<and> cb_rel cb' (capacity cb, contents cb @ replicate (n - size_of cb) x)"
proof -
  let ?s = "buffer_start cb" and ?c = "capacity cb" and ?b = "buffer cb" and ?m = "size_of cb"
  define a where "a = (?s + ?m) mod ?c"
  define q where "q = n - ?m"
  define f where "f = min q (?c - a)"
  have ok: "?s < ?c" "length ?b = ?c" "a < ?c" "?c < 2 ^ 63" "0 < ?c" using assms by (auto simp: cb_ok_def a_def)
  have fq: "f \<le> q" "f \<le> ?c - a" "q \<le> ?c" using assms(3) by (simp_all add: f_def q_def)
  then have af: "a + f \<le> ?c" "q - f \<le> ?c" using ok(3) by linarith+
  obtain buf1 where b1: "fill_n ?b a f x = Inr buf1" "length buf1 = ?c"
      "\<And>i. i < ?c \<Longrightarrow> buf1 ! i = (if a \<le> i \<and> i < a + f then x else ?b ! i)"
    using nth_fill_n [of a f ?b x] ok af by auto
  obtain buf2 where b2: "fill_n buf1 0 (q - f) x = Inr buf2" "length buf2 = ?c"
      "\<And>i. i < ?c \<Longrightarrow> buf2 ! i = (if i < q - f then x else buf1 ! i)"
    using nth_fill_n [of 0 "q - f" buf1 x] b1(2) af by auto
  have eq: "buf2 = buf1" if "\<not> f < q" using that fq(1) b1(2) b2(1) by (simp add: fill_n_def)
  let ?cb = "cb\<lparr>buffer := buf2, size_of := n\<rparr>"
  have "sub64 ?c a = ?c - a" using ok by simp
  then have "resize junk cb n x = Inr ?cb"
    using b1(1) b2(1) eq ok assms
    by (simp add: resize_def Let_def a_def [symmetric] q_def [symmetric] f_def [symmetric])
  moreover have "cb_ok ?cb" using assms b2(2) by (simp add: cb_ok_def)
  moreover have "contents ?cb = contents cb @ replicate q x"
  proof (rule nth_equalityI)
    fix i assume "i < length (contents ?cb)"
    then have i: "i < n" by simp
    have "(?s + i) mod ?c < ?c" using ok(5) by simp
    then have "contents ?cb ! i = (if ?m \<le> i then x else ?b ! ((?s + i) mod ?c))"
      using fill_region [OF ok(1) assms(2,3) i] b1(3) b2(3) i unfolding a_def [symmetric] q_def [symmetric] f_def [symmetric]
      by (auto simp: contents_nth)
    then show "contents ?cb ! i = (contents cb @ replicate q x) ! i"
      using i by (auto simp: nth_append contents_nth q_def)
  qed (use assms(2) in \<open>simp add: q_def\<close>)
  ultimately show ?thesis by (auto simp: cb_rel_def q_def)
qed

lemma resize_ok:
  assumes "cb_ok cb" and "n < 2 ^ 63"
  shows "\<exists>cb'. resize junk cb n x = Inr cb' \<and> cb_rel cb' (cb_spec (Resize n x) (capacity cb, contents cb))"
proof -
  consider "n \<le> size_of cb" | "size_of cb < n" "n \<le> capacity cb" | "capacity cb < n" by linarith
  then show ?thesis
  proof cases
    case 1
    let ?cb = "cb\<lparr>size_of := n\<rparr>"
    have ok': "cb_ok ?cb" using assms 1 by (auto simp: cb_ok_def)
    have "contents ?cb = take n (contents cb)"
      unfolding contents_ring [OF ok'] contents_ring [OF assms(1)] using 1 by (simp add: ring_def min_absorb1)
    then show ?thesis using 1 ok' assms(1) by (auto simp: resize_def cb_rel_def cb_ok_def)
  next
    case 2
    then show ?thesis using resize_fill_ok [OF assms(1) 2] by simp
  next
    case 3
    obtain cb1 where cb1: "set_capacity junk cb n = Inr cb1" "cb_ok cb1" "capacity cb1 = n" "contents cb1 = take n (contents cb)"
      using set_capacity_ok [OF assms, of junk] by (auto simp: cb_rel_def)
    have le: "size_of cb \<le> capacity cb" using assms(1) by (simp add: cb_ok_def)
    then have c: "contents cb1 = contents cb" "size_of cb1 = size_of cb" using cb1(4) 3 length_contents [of cb1] by auto
    obtain cb2 where cb2: "resize junk cb1 n x = Inr cb2" "cb_rel cb2 (n, contents cb @ replicate (n - size_of cb) x)"
      using resize_fill_ok [OF cb1(2), of n junk x] cb1(3) c le 3 by auto
    have "resize junk cb n x = resize junk cb1 n x" using cb1 c le 3 by (simp add: resize_def)
    then show ?thesis using cb2 le 3 by simp
  qed
qed

lemma simple_ops_ok:
  assumes "cb_ok cb"
  shows "\<exists>cb'. clear cb = Inr cb' \<and> cb_rel cb' (capacity cb, [])"
    and "\<exists>cb'. linearize cb = Inr cb' \<and> cb_rel cb' (capacity cb, contents cb)"
    and "i < size_of cb \<Longrightarrow> \<exists>cb'. assign_index cb i x = Inr cb' \<and> cb_rel cb' (capacity cb, (contents cb)[i := x])"
proof -
  show "\<exists>cb'. clear cb = Inr cb' \<and> cb_rel cb' (capacity cb, [])"
    using assms by (auto simp: clear_def cb_rel_def cb_ok_def contents_def)
  let ?s = "buffer_start cb" and ?c = "capacity cb" and ?b = "buffer cb"
  have s: "?s \<le> length ?b" "length ?b = ?c" using assms by (auto simp: cb_ok_def)
  let ?cb = "cb\<lparr>buffer := drop ?s ?b @ take ?s ?b, buffer_start := 0\<rparr>"
  have ok': "cb_ok ?cb" using assms by (auto simp: cb_ok_def)
  have "ring ?cb = ring cb" using assms by (cases "?c = 0") (auto simp: ring_def rotate_drop_take cb_ok_def)
  then have "contents ?cb = contents cb" by (simp add: contents_ring [OF assms] contents_ring [OF ok'])
  then show "\<exists>cb'. linearize cb = Inr cb' \<and> cb_rel cb' (?c, contents cb)"
    using s ok' by (auto simp: linearize_def rotate_cells_def cb_rel_def)
  assume i: "i < size_of cb"
  let ?cb2 = "cb\<lparr>buffer := ?b[(?s + i) mod ?c := x]\<rparr>"
  have c: "0 < ?c" "i < ?c" using i assms by (auto simp: cb_ok_def)
  have ok2: "cb_ok ?cb2" using assms by (simp add: cb_ok_def)
  have "ring ?cb2 = (ring cb)[i := x]" using rotate_update [of i ?b ?s x] c s by (simp add: ring_def)
  then have "contents ?cb2 = (contents cb)[i := x]"
    unfolding contents_ring [OF assms] contents_ring [OF ok2] by (simp add: take_update_swap)
  then show "\<exists>cb'. assign_index cb i x = Inr cb' \<and> cb_rel cb' (?c, (contents cb)[i := x])"
    using c s ok2 by (auto simp: assign_index_def cb_rel_def)
qed

lemma rotate_to_ok:
  assumes "cb_ok cb" and "k < size_of cb" and "size_of cb = capacity cb"
  shows "\<exists>cb'. rotate_to cb (int k) = Inr cb' \<and> cb_rel cb' (capacity cb, drop k (contents cb) @ take k (contents cb))"
proof -
  let ?b = "buffer cb" and ?s = "buffer_start cb"
  have l: "length ?b = capacity cb" "k < length ?b" using assms by (auto simp: cb_ok_def)
  let ?cb = "cb\<lparr>buffer := drop k ?b @ take k ?b\<rparr>"
  have ok': "cb_ok ?cb" using assms by (auto simp: cb_ok_def)
  have r: "drop k ?b @ take k ?b = rotate k ?b" using l by (simp add: rotate_drop_take)
  have "ring ?cb = rotate k (ring cb)" by (simp add: ring_def r rotate_rotate add.commute)
  then have "contents ?cb = rotate k (contents cb)"
    unfolding contents_ring [OF assms(1)] contents_ring [OF ok'] using assms(3) length_ring [OF assms(1)] by simp
  then show ?thesis using l ok' assms by (auto simp: rotate_to_def rotate_cells_def cb_rel_def rotate_drop_take)
qed

text \<open>Insertion moves the cells behind the position one place on around the ring.\<close>

lemma insert_shift_ok:
  assumes "length buf = c" and "a < c" and "q < c"
  shows "\<exists>buf'. insert_shift buf c a q = Inr buf' \<and> length buf' = c \<and>
    (\<forall>k < c. 0 < k \<longrightarrow> buf' ! ((a + k) mod c) = buf ! (if k \<le> q then (a + k - 1) mod c else (a + k) mod c))"
proof -
  define f where "f = min q (c - a - 1)"
  have f: "f \<le> q" "f \<le> c - a - 1" "f < q \<Longrightarrow> f = c - a - 1" by (auto simp: f_def)
  define g where "g = (\<lambda>buf :: string. if f < q then
    bindR (memmove buf 1 buf 0 (q - f - 1)) (\<lambda>buf1. bindR (arr_get buf1 (c - 1)) (\<lambda>x. arr_set buf1 0 x)) else Inr buf)"
  have "\<exists>buf2. g buf = Inr buf2 \<and> length buf2 = c \<and>
    (\<forall>j < c. buf2 ! j = (if f < q \<and> j = 0 then buf ! (c - 1) else if f < q \<and> j < q - f then buf ! (j - 1) else buf ! j))"
  proof (cases "f < q")
    case True
    then have n: "1 + (q - f - 1) < c" using f assms by auto
    obtain buf1 where m: "memmove buf 1 buf 0 (q - f - 1) = Inr buf1" using memmove_in [of 0 "q - f - 1" buf 1 buf] n assms by auto
    note nth1 = nth_memmove [OF m]
    have "buf1 ! (c - 1) = buf ! (c - 1)" using nth1(2) [of "c - 1"] n assms by auto
    moreover have "g buf = Inr (buf1[0 := buf1 ! (c - 1)])" using True m nth1(1) assms by (simp add: g_def)
    moreover have "buf1[0 := x] ! j = (if j = 0 then x else if j < q - f then buf ! (j - 1) else buf ! j)" if "j < c" for j x
      using nth1(1) nth1(2) [of j] that assms True by (auto simp: nth_list_update)
    ultimately show ?thesis using True nth1(1) assms(1) by auto
  qed (use assms in \<open>simp add: g_def\<close>)
  then obtain buf2 where b2: "g buf = Inr buf2" "length buf2 = c"
    "\<And>j. j < c \<Longrightarrow> buf2 ! j = (if f < q \<and> j = 0 then buf ! (c - 1) else if f < q \<and> j < q - f then buf ! (j - 1) else buf ! j)"
    by auto
  have "a + 1 + f \<le> c" using f(2) assms(2) by linarith
  then obtain buf' where m: "memmove buf2 (a + 1) buf2 a f = Inr buf'"
    using memmove_in [of a f buf2 "a + 1" buf2] b2(2) by auto
  note nth' = nth_memmove [OF m]
  have ins: "insert_shift buf c a q = Inr buf'"
    unfolding insert_shift_def Let_def f_def [symmetric] using b2(1) m by (simp add: g_def)
  have "buf' ! ((a + k) mod c) = buf ! (if k \<le> q then (a + k - 1) mod c else (a + k) mod c)" if k: "0 < k" "k < c" for k
  proof (cases "a + k < c")
    case True
    then have e: "(a + k) mod c = a + k" "(a + k - 1) mod c = a + k - 1" by auto
    have o: "\<not> (f < q \<and> j < q - f)" if "a \<le> j" for j using f(3) that assms by auto
    have o1: "\<not> (f < q \<and> a + k - 1 < q - f)" using o [of "a + k - 1"] k by simp
    have "k \<le> f \<longleftrightarrow> k \<le> q" using True f by (cases "f < q") auto
    then show ?thesis unfolding e
      using nth'(2) [of "a + k"] b2(2) b2(3) [of "a + k"] b2(3) [of "a + k - 1"] True k o [of "a + k"] o1 assms(2)
      by (auto split: if_splits)
  next
    case False
    then have j: "(a + k) mod c = a + k - c" using mod_wrap [of a c k] k assms by simp
    have j1: "(a + k - 1) mod c = (if a + k = c then c - 1 else a + k - c - 1)"
      using mod_wrap [of a c "k - 1"] k assms False by auto
    have "buf' ! (a + k - c) = buf2 ! (a + k - c)" using nth'(2) [of "a + k - c"] b2(2) False k assms by auto
    moreover have "k \<le> q \<longleftrightarrow> f < q \<and> a + k - c < q - f" using False f k assms by auto
    ultimately show ?thesis unfolding j j1 using b2(3) [of "a + k - c"] False k assms(2) by auto
  qed
  then show ?thesis using ins nth'(1) b2(2) by auto
qed

lemma insert_at_ok:
  assumes "cb_ok cb" and "p \<le> size_of cb" and "0 < capacity cb" and "size_of cb = capacity cb \<longrightarrow> 0 < p"
  shows "\<exists>cb'. insert_at cb (int p) x = Inr cb' \<and> cb_rel cb' (cb_spec (Insert p x) (capacity cb, contents cb))"
proof -
  let ?s = "buffer_start cb" and ?c = "capacity cb" and ?b = "buffer cb" and ?n = "size_of cb"
  define a where "a = (?s + p) mod ?c"
  let ?q = "?n - p"
  have ok: "?s < ?c" "length ?b = ?c" "?n \<le> ?c" "?c < 2 ^ 63" "a < ?c" "?q < ?c" using assms by (auto simp: cb_ok_def a_def)
  obtain buf where b: "insert_shift ?b ?c a ?q = Inr buf" "length buf = ?c"
      "\<And>k. k < ?c \<Longrightarrow> 0 < k \<Longrightarrow> buf ! ((a + k) mod ?c) = ?b ! (if k \<le> ?q then (a + k - 1) mod ?c else (a + k) mod ?c)"
    using insert_shift_ok [of ?b ?c a ?q] ok by auto
  let ?b' = "buf[a := x]"
  have wr: "nat ((int ?n - int p) mod 2 ^ 64) = ?q" "nat ((int ?s + int p) mod 2 ^ 64) mod ?c = a"
    using sub64_le [of p ?n] ok assms(2) by (simp_all add: sub64_def a_def nat_mod_distrib nat_add_distrib)
  let ?xs = "contents cb"
  let ?ys = "take p ?xs @ x # drop p ?xs"
  have am: "(a + k) mod ?c = (?s + p + k) mod ?c" for k by (simp add: a_def mod_add_left_eq)
  have val: "?b' ! ((?s + L) mod ?c) = ?ys ! L" if L: "L \<le> ?n" "?n = ?c \<Longrightarrow> 0 < L" for L
  proof (cases "L < p")
    case True
    let ?k = "?c - p + L"
    have k: "0 < ?k" "?k < ?c" "\<not> ?k \<le> ?q" using True ok assms(2) L by (cases "?n = ?c"; auto)+
    have e: "(a + ?k) mod ?c = (?s + L) mod ?c"
    proof -
      have "?s + p + ?k = ?s + L + ?c" using assms(2) ok(3) by simp
      then show ?thesis unfolding am by (simp only: mod_add_self2)
    qed
    have ne: "(?s + L) mod ?c \<noteq> a" using mod_add_inj [of ?s L ?c p] mod_add_inj [of ?s L ?c 0] True ok assms(2) L
      by (cases "p = ?c") (auto simp: a_def)
    have "?b' ! ((?s + L) mod ?c) = ?b ! ((?s + L) mod ?c)" using b(3) [OF k(2,1)] k(3) e ne by simp
    then show ?thesis using True L assms(2) by (simp add: nth_append contents_nth)
  next
    case False
    let ?k = "L - p"
    have e: "(a + ?k) mod ?c = (?s + L) mod ?c" using am [of ?k] False by simp
    have k: "?k < ?c" "?k \<le> ?q" using L False ok assms by auto
    show ?thesis
    proof (cases "?k = 0")
      case True
      then have "(?s + L) mod ?c = a" "L = p" using False by (auto simp: a_def)
      then show ?thesis using b(2) ok assms(2) by (simp add: nth_append)
    next
      case k0: False
      have ne: "(?s + L) mod ?c \<noteq> a" using mod_add_inj [of a ?k ?c 0] k k0 ok e by auto
      have "(a + ?k - 1) mod ?c = (?s + (L - 1)) mod ?c" using am [of "?k - 1"] k0 by simp
      then have "?b' ! ((?s + L) mod ?c) = ?b ! ((?s + (L - 1)) mod ?c)" using b(3) [OF k(1)] k(2) k0 e ne by simp
      then show ?thesis using k0 L assms(2) by (auto simp: nth_append contents_nth nth_Cons')
    qed
  qed
  show ?thesis
  proof (cases "?n = ?c")
    case False
    let ?cb = "cb\<lparr>buffer := ?b', size_of := ?n + 1\<rparr>"
    have "insert_at cb (int p) x = Inr ?cb" using wr b(1,2) ok assms(3) False by (simp add: insert_at_def Let_def)
    moreover have "cb_ok ?cb" using assms(1,3) False b(2) by (auto simp: cb_ok_def)
    moreover have "contents ?cb = ?ys"
      by (rule nth_equalityI) (use assms(2) val False in \<open>auto simp: contents_nth\<close>)
    ultimately show ?thesis using False ok(3) by (auto simp: cb_rel_def Let_def)
  next
    case True
    let ?cb = "cb\<lparr>buffer := ?b', buffer_start := (?s + 1) mod ?c\<rparr>"
    have "insert_at cb (int p) x = Inr ?cb" using wr b(1,2) ok assms(3,4) True by (simp add: insert_at_def Let_def)
    moreover have "cb_ok ?cb" using assms(1,3) b(2) by (simp add: cb_ok_def)
    moreover have "contents ?cb = tl ?ys"
    proof (rule nth_equalityI)
      fix i assume "i < length (contents ?cb)"
      then have i: "i < ?n" by simp
      have "contents ?cb ! i = ?b' ! ((?s + Suc i) mod ?c)" using i by (simp add: contents_nth mod_add_left_eq)
      also have "\<dots> = ?ys ! Suc i" using i by (intro val) auto
      finally show "contents ?cb ! i = tl ?ys ! i" using i assms(2) by (simp add: nth_tl)
    qed (use assms(2) in simp)
    ultimately show ?thesis using True assms(4) by (auto simp: cb_rel_def Let_def)
  qed
qed

lemma sub64_self [simp]: "sub64 a a = 0"
  by (simp add: sub64_def)

lemma erase_tail_ok:
  assumes "cb_ok cb" and "i \<le> size_of cb"
  shows "erase cb i (size_of cb) = Inr (cb\<lparr>size_of := i\<rparr>)"
proof (cases "i = size_of cb")
  case False
  then have c: "0 < capacity cb" "length (buffer cb) = capacity cb" "size_of cb < 2 ^ 64" using assms by (auto simp: cb_ok_def)
  have m: "memmove (buffer cb) p (buffer cb) q 0 = Inr (buffer cb)" if "p < capacity cb" "q < capacity cb" for p q
    using that c(2) by (simp add: memmove_def)
  have "sub64 (size_of cb) (sub64 (size_of cb) i) = i" using assms(2) c(3) by simp
  then show ?thesis using False c(1) by (simp add: erase_def erase_near_def erase_far_def m)
qed (simp add: erase_def)

lemma truncate_ok:
  assumes "cb_ok cb" and "i \<le> size_of cb"
  shows "cb_rel (cb\<lparr>size_of := i\<rparr>) (capacity cb, take i (contents cb))"
proof -
  have ok': "cb_ok (cb\<lparr>size_of := i\<rparr>)" using assms by (auto simp: cb_ok_def)
  have "ring (cb\<lparr>size_of := i\<rparr>) = ring cb" by (simp add: ring_def)
  then have "contents (cb\<lparr>size_of := i\<rparr>) = take i (contents cb)"
    unfolding contents_ring [OF ok'] contents_ring [OF assms(1)] using assms(2) by simp
  then show ?thesis using ok' by (simp add: cb_rel_def)
qed

lemma copy_full_ok:
  assumes "cb_ok cb" and "size_of cb = capacity cb"
  shows "CircularBuffer_copy junk cb = Inr cb"
  using assms by (cases cb) (simp add: CircularBuffer_copy_def memmove_def cb_ok_def)

text \<open>Where the elements do not wrap around the ring, \<open>erase\<close> is right for every range.\<close>

lemma erase_unwrapped_ok:
  assumes "cb_ok cb" and "i < j" and "j < size_of cb" and "buffer_start cb + size_of cb \<le> capacity cb"
  shows "\<exists>cb'. erase cb i j = Inr cb' \<and> cb_rel cb' (capacity cb, take i (contents cb) @ drop j (contents cb))"
proof -
  let ?s = "buffer_start cb" and ?n = "size_of cb" and ?c = "capacity cb" and ?b = "buffer cb"
  have c: "0 < ?c" "length ?b = ?c" "?c < 2 ^ 63" using assms by (auto simp: cb_ok_def)
  have pos: "(?s + j) mod ?c = ?s + j" "(?s + i) mod ?c = ?s + i" using assms by auto
  have room: "?s + j + (?n - j) \<le> length ?b" "?s + i + (?n - j) \<le> length ?b" using assms(2-4) c(2) by linarith+
  obtain b' where b': "memmove ?b (?s + i) ?b (?s + j) (?n - j) = Inr b'" using memmove_in [OF room] by blast
  let ?cb = "cb\<lparr>buffer := b', size_of := ?n - (j - i)\<rparr>"
  have "min (?n - j) (?c - (?s + j)) = ?n - j" using assms(3,4) by simp
  then have run: "erase cb i j = Inr ?cb"
    using b' c assms(2,3) pos by (simp add: erase_def erase_near_def Let_def)
  have "length b' = ?c" using nth_memmove(1) [OF b'] c(2) by simp
  then have ok': "cb_ok ?cb" using assms(1) by (auto simp: cb_ok_def)
  have "contents ?cb = take i (contents cb) @ drop j (contents cb)"
  proof (rule nth_equalityI)
    show "length (contents ?cb) = length (take i (contents cb) @ drop j (contents cb))" using assms(2,3) by simp
    fix k assume "k < length (contents ?cb)"
    then have k: "k < ?n - (j - i)" by simp
    then have "contents ?cb ! k = b' ! (?s + k)" using assms(2-4) by (simp add: contents_nth)
    also have "\<dots> = (if ?s + i \<le> ?s + k \<and> ?s + k < ?s + i + (?n - j) then ?b ! (?s + j + (?s + k - (?s + i))) else ?b ! (?s + k))"
      using nth_memmove(2) [OF b', of "?s + k"] k assms(2-4) c(2) by simp
    also have "\<dots> = (take i (contents cb) @ drop j (contents cb)) ! k"
      using k assms(2-4) by (auto simp: nth_append contents_nth add.assoc)
    finally show "contents ?cb ! k = (take i (contents cb) @ drop j (contents cb)) ! k" .
  qed
  then show ?thesis using run ok' by (simp add: cb_rel_def)
qed

lemma cb_step_refines:
  assumes "cb_rel cb s" and "cb_pre op s"
  shows "\<exists>cb'. cb_step junk op cb = Inr cb' \<and> cb_rel cb' (cb_spec op s)"
proof -
  have ok: "cb_ok cb" and s: "s = (capacity cb, contents cb)" using assms(1) by (auto simp: cb_rel_def prod_eq_iff)
  show ?thesis
  proof (cases op)
    case (Push_back c)
    then show ?thesis unfolding s by (simp only: cb_step.simps) (rule push_back_ok [OF ok])
  next
    case (Push_front c)
    then show ?thesis unfolding s by (simp only: cb_step.simps) (rule push_front_ok [OF ok])
  next
    case Pop_back
    then show ?thesis using pop_back_ok [OF ok] assms(2) s by simp
  next
    case Pop_front
    then show ?thesis using pop_front_ok [OF ok] assms(2) s by simp
  next
    case (Insert i c)
    then show ?thesis using insert_at_ok [OF ok, of i c] assms(2) s by simp
  next
    case (Resize n c)
    then show ?thesis using resize_ok [OF ok, of n junk c] assms(2) s by simp
  next
    case (Set_capacity n)
    then show ?thesis using set_capacity_ok [OF ok, of n junk] assms(2) s by simp
  next
    case (Rotate i)
    then show ?thesis using rotate_to_ok [OF ok, of i] assms(2) s by simp
  next
    case (Store i c)
    then show ?thesis using simple_ops_ok(3) [OF ok, of i c] assms(2) s by simp
  next
    case (Erase i j)
    then consider "i = j" | "i \<le> size_of cb" "j = size_of cb" using assms(2) s by fastforce
    then show ?thesis
    proof cases
      case 1
      then show ?thesis using Erase assms(1) s by (simp add: erase_def)
    next
      case 2
      then show ?thesis using Erase erase_tail_ok [OF ok, of i] truncate_ok [OF ok, of i] s by simp
    qed
  next
    case Copy
    then show ?thesis using copy_full_ok [OF ok, of junk] assms s by (simp add: assign_def swap_def)
  qed (use simple_ops_ok(1,2) [OF ok] s in simp_all)
qed

interpretation circular: data_refinement "cb_step junk" cb_spec cb_pre cb_rel for junk
  by unfold_locales (rule cb_step_refines)

lemma empty_rel: "cb_rel CircularBuffer_empty (0, [])"
  by (simp add: cb_rel_def cb_ok_def CircularBuffer_empty_def contents_def)

text \<open>C20: any sequence of operations on a new buffer, each called where \<open>cb_pre\<close> holds, faults nowhere,
  never touches a cell outside the ring and leaves exactly the elements and the capacity that the same
  operations give on a list bounded by its capacity, whatever fresh memory holds.  \<open>cb_pre\<close> is narrower than the
  documentation: it leaves out inserting at the front of a full buffer, rotating or copying a buffer that is not full,
  and erasing elements before the last, for which the code does not keep its documentation.\<close>

theorem circular_buffer_refines_list:
  assumes "circular.run_pre ops (0, [])"
  shows "\<exists>cb. circular.run junk ops CircularBuffer_empty = Inr cb \<and> cb_ok cb \<and>
    capacity cb = fst (circular.run_spec ops (0, [])) \<and> contents cb = snd (circular.run_spec ops (0, []))"
  using circular.run_refines [OF empty_rel assms, of junk] by (auto simp: cb_rel_def)

theorem circular_buffer_refines_list_witness:
  "\<exists>cb. circular.run (\<lambda>i. CHR ''?'') [Set_capacity 3, Push_back CHR ''a'', Push_back CHR ''b'', Push_front CHR ''c'',
      Push_back CHR ''d'', Insert 1 CHR ''e'', Pop_front] CircularBuffer_empty = Inr cb \<and> cb_ok cb \<and>
    capacity cb = fst (circular.run_spec [Set_capacity 3, Push_back CHR ''a'', Push_back CHR ''b'', Push_front CHR ''c'',
      Push_back CHR ''d'', Insert 1 CHR ''e'', Pop_front] (0, [])) \<and>
    contents cb = snd (circular.run_spec [Set_capacity 3, Push_back CHR ''a'', Push_back CHR ''b'', Push_front CHR ''c'',
      Push_back CHR ''d'', Insert 1 CHR ''e'', Pop_front] (0, []))"
  by (rule circular_buffer_refines_list) simp

section \<open>Reading and comparing\<close>

lemma index_ok:
  assumes "cb_ok cb" and "i < size_of cb"
  shows "index cb i = Inr (contents cb ! i)"
proof -
  have "0 < capacity cb" "length (buffer cb) = capacity cb" using assms by (auto simp: cb_ok_def)
  then show ?thesis using assms(2) by (simp add: index_def contents_nth)
qed

text \<open>C21: \<open>at\<close> gives the element where there is one and throws its message exactly where the position is not
  below the size.\<close>

theorem checked_at_total:
  assumes "cb_ok cb"
  shows "checked_at cb i =
    Inr (if i < length (contents cb) then Inr (contents cb ! i)
         else Inl (''CircularBuffer: i (which is '' @ show_nat i @ '') >= this->size() (which is ('' @
                   show_nat (length (contents cb)) @ '')''))"
  using index_ok [OF assms] by (simp add: checked_at_def)

theorem checked_at_total_witness:
  "checked_at CircularBuffer_empty 3 =
    Inr (if 3 < length (contents CircularBuffer_empty) then Inr (contents CircularBuffer_empty ! 3)
         else Inl (''CircularBuffer: i (which is '' @ show_nat 3 @ '') >= this->size() (which is ('' @
                   show_nat (length (contents CircularBuffer_empty)) @ '')''))"
  by (rule checked_at_total) (simp add: cb_ok_def CircularBuffer_empty_def)

lemma equal_loop_ok:
  assumes "cb_ok a" and "cb_ok b" and "size_of a = i + n" and "size_of b = i + n"
  shows "equal_loop a b i n = Inr (drop i (contents a) = drop i (contents b))"
  using assms(3,4)
proof (induction n arbitrary: i)
  case (Suc n)
  then have "drop i (contents a) = contents a ! i # drop (Suc i) (contents a)"
      "drop i (contents b) = contents b ! i # drop (Suc i) (contents b)"
    by (simp_all add: Cons_nth_drop_Suc)
  then show ?case using Suc index_ok [OF assms(1), of i] index_ok [OF assms(2), of i] by simp
qed simp

lemma equal_buffers_ok: "cb_ok a \<Longrightarrow> cb_ok b \<Longrightarrow> equal_buffers a b = Inr (contents a = contents b)"
proof (cases "size_of a = size_of b")
  case False
  then have "contents a \<noteq> contents b" using length_contents [of a] length_contents [of b] by metis
  then show ?thesis using False by (simp add: equal_buffers_def)
qed (simp add: equal_buffers_def equal_loop_ok)

lemma constructors_ok:
  assumes "n < 2 ^ 63"
  shows "\<exists>cb. CircularBuffer_cap junk n = Inr cb \<and> cb_rel cb (n, [])"
    and "\<exists>cb. CircularBuffer_fill junk n x = Inr cb \<and> cb_rel cb (n, replicate n x)"
proof -
  have ok: "cb_ok CircularBuffer_empty" "capacity CircularBuffer_empty = 0" "contents CircularBuffer_empty = []"
    using empty_rel by (auto simp: cb_rel_def)
  then show c: "\<exists>cb. CircularBuffer_cap junk n = Inr cb \<and> cb_rel cb (n, [])"
    using set_capacity_ok [OF ok(1) assms, of junk] by (simp add: CircularBuffer_cap_def)
  then obtain cb where cb: "CircularBuffer_cap junk n = Inr cb" "cb_ok cb" "capacity cb = n" "contents cb = []"
    by (auto simp: cb_rel_def)
  then show "\<exists>cb. CircularBuffer_fill junk n x = Inr cb \<and> cb_rel cb (n, replicate n x)"
    using resize_ok [OF cb(2) assms, of junk x] by (simp add: CircularBuffer_fill_def)
qed

section \<open>Where the code differs from its documentation\<close>

text \<open>\<open>back()\<close> reads the cell behind the last element.\<close>

lemma back_reads_next_cell:
  "back_elem \<lparr>buffer = ''ab'', buffer_start = 0, capacity = 2, size_of = 1\<rparr> = Inr CHR ''b''"
  by (simp add: back_elem_def)

text \<open>\<open>insert(0, x)\<close> into a full buffer whose start is its last cell loses the first element and keeps the last.\<close>

lemma insert_front_full_wrong:
  "insert_at \<lparr>buffer = ''bca'', buffer_start = 2, capacity = 3, size_of = 3\<rparr> 0 CHR ''x'' =
     Inr \<lparr>buffer = ''cbx'', buffer_start = 2, capacity = 3, size_of = 3\<rparr>"
  by code_simp

text \<open>\<open>erase\<close> of a wrapped buffer writes behind the ring.\<close>

lemma erase_writes_outside:
  "erase \<lparr>buffer = ''ghabcdef'', buffer_start = 2, capacity = 8, size_of = 8\<rparr> 1 2 = Inl Undefined"
  by (simp add: erase_def erase_near_def memmove_def sub64_def)

text \<open>A copy has fewer cells than its capacity says, so that appending to it writes outside them.\<close>

lemma copy_then_push_back_faults:
  "bindR (CircularBuffer_copy (\<lambda>i. CHR ''?'') \<lparr>buffer = ''ab'', buffer_start = 0, capacity = 2, size_of = 1\<rparr>)
     (\<lambda>cb. push_back cb CHR ''c'') = Inl Undefined"
  by (simp add: CircularBuffer_copy_def memmove_def push_back_def arr_set_def)

end
