(* ===== verification/Dining_Stepwise.thy ===== *)
theory Dining_Stepwise
  imports C_Prelude
begin

text \<open>
  \<open>CSharpLabs/DiningPhilosophersProblem\<close>, the stepwise simulation: philosophers and forks as objects of a table,
  named by their index, and one \<open>NextStep\<close> of every philosopher and every fork per step.  The table manager
  gives philosopher \<open>i\<close> the forks \<open>i\<close> and \<open>i + 1\<close> modulo their number.  A failed \<open>Debug.Assert\<close> is a fault.  The
  generator of random numbers is a function from the number of draws to the value drawn.
  The constructor of the simulation never returns in coordinator mode (\<open>coordinator_never_starts\<close>); \<open>Run\<close> in that mode
  shows what the coordinator's methods would do at a table whose philosophers have subscribed to it.
\<close>

section \<open>Forks\<close>

datatype ForkState = Available | Taken | InUse

record StepwiseFork =
  fork_state :: ForkState
  takenBy :: "nat option"
  AvailableTime :: nat
  TakenTime :: nat
  InUseTime :: nat

definition new_fork :: StepwiseFork where
  "new_fork = \<lparr>fork_state = Available, takenBy = None, AvailableTime = 0, TakenTime = 0, InUseTime = 0\<rparr>"

definition IsAvailable :: "StepwiseFork \<Rightarrow> bool" where
  "IsAvailable f \<longleftrightarrow> fork_state f = Available"

definition Take :: "StepwiseFork \<Rightarrow> nat \<Rightarrow> StepwiseFork res" where
  "Take f p = assertR (fork_state f = Available) (assertR (takenBy f = None) (Inr (f\<lparr>takenBy := Some p, fork_state := Taken\<rparr>)))"

definition TryTake :: "StepwiseFork \<Rightarrow> nat \<Rightarrow> (bool \<times> StepwiseFork) res" where
  "TryTake f p = (if fork_state f \<noteq> Available then Inr (False, f) else bindR (Take f p) (\<lambda>f'. Inr (True, f')))"

definition Use :: "StepwiseFork \<Rightarrow> nat \<Rightarrow> StepwiseFork res" where
  "Use f p = assertR (fork_state f = Taken) (assertR (takenBy f = Some p) (Inr (f\<lparr>fork_state := InUse\<rparr>)))"

definition Put :: "StepwiseFork \<Rightarrow> StepwiseFork res" where
  "Put f = assertR (takenBy f \<noteq> None) (assertR (fork_state f = InUse \<or> fork_state f = Taken)
     (Inr (f\<lparr>takenBy := None, fork_state := Available\<rparr>)))"

definition Fork_NextStep :: "StepwiseFork \<Rightarrow> StepwiseFork" where
  "Fork_NextStep f =
     (case fork_state f of
        Available \<Rightarrow> f\<lparr>AvailableTime := AvailableTime f + 1\<rparr>
      | Taken \<Rightarrow> f\<lparr>TakenTime := TakenTime f + 1\<rparr>
      | InUse \<Rightarrow> f\<lparr>InUseTime := InUseTime f + 1\<rparr>)"

section \<open>Philosophers\<close>

datatype State = Thinking | Hungry | Eating | WaitingLeftFork | WaitingRightFork | TakingLeftFork | TakingRightFork

record StepwisePhilosopher =
  CurrentState :: State
  stepsTillStateChange :: int
  WaitingTime :: int
  Eaten :: nat
  HasLeftFork :: bool
  HasRightFork :: bool
  Id :: nat
  leftFork :: nat
  rightFork :: nat

record Table =
  philosophers :: "StepwisePhilosopher list"
  forks :: "StepwiseFork list"
  draws :: nat

datatype Decision = Naive | ResourceHierarchy | Coordinator

datatype Action = TakeLeft | TakeRight | ReleaseLeft | ReleaseRight

definition WaitsLeftFork :: "StepwisePhilosopher \<Rightarrow> bool" where
  "WaitsLeftFork p \<longleftrightarrow> CurrentState p = WaitingLeftFork \<or> CurrentState p = TakingLeftFork"

definition WaitsRightFork :: "StepwisePhilosopher \<Rightarrow> bool" where
  "WaitsRightFork p \<longleftrightarrow> CurrentState p = WaitingRightFork \<or> CurrentState p = TakingRightFork"

text \<open>\<open>random.Next(lo, hi)\<close>: from \<open>lo\<close> up to but not including \<open>hi\<close>.\<close>

definition random_Next :: "(nat \<Rightarrow> nat) \<Rightarrow> nat \<Rightarrow> int \<Rightarrow> int \<Rightarrow> int" where
  "random_Next rng k lo hi = lo + int (rng k) mod (hi - lo)"

definition phil :: "Table \<Rightarrow> nat \<Rightarrow> StepwisePhilosopher" where
  "phil t i = philosophers t ! i"

definition set_phil :: "Table \<Rightarrow> nat \<Rightarrow> StepwisePhilosopher \<Rightarrow> Table" where
  "set_phil t i p = t\<lparr>philosophers := (philosophers t)[i := p]\<rparr>"

definition set_fork :: "Table \<Rightarrow> nat \<Rightarrow> StepwiseFork \<Rightarrow> Table" where
  "set_fork t f v = t\<lparr>forks := (forks t)[f := v]\<rparr>"

definition BecomeThinking :: "(nat \<Rightarrow> nat) \<Rightarrow> Table \<Rightarrow> nat \<Rightarrow> Table res" where
  "BecomeThinking rng t i =
     assertR (stepsTillStateChange (phil t i) \<le> 0)
       (Inr ((set_phil t i ((phil t i)\<lparr>stepsTillStateChange := random_Next rng (draws t) 3 11, CurrentState := Thinking\<rparr>))
          \<lparr>draws := draws t + 1\<rparr>))"

definition BecomeEating :: "(nat \<Rightarrow> nat) \<Rightarrow> Table \<Rightarrow> nat \<Rightarrow> Table res" where
  "BecomeEating rng t i =
     assertR (stepsTillStateChange (phil t i) \<le> 0)
       (let t1 = (set_phil t i ((phil t i)\<lparr>stepsTillStateChange := random_Next rng (draws t) 4 6, CurrentState := Eating\<rparr>))
              \<lparr>draws := draws t + 1\<rparr> in
        bindR (Use (forks t1 ! leftFork (phil t1 i)) i) (\<lambda>f.
        let t2 = set_fork t1 (leftFork (phil t1 i)) f in
        bindR (Use (forks t2 ! rightFork (phil t2 i)) i) (\<lambda>g.
        let t3 = set_fork t2 (rightFork (phil t2 i)) g in
        Inr (set_phil t3 i ((phil t3 i)\<lparr>Eaten := Eaten (phil t3 i) + 1\<rparr>)))))"

definition BecomeHungry :: "Table \<Rightarrow> nat \<Rightarrow> Table res" where
  "BecomeHungry t i =
     assertR (stepsTillStateChange (phil t i) \<le> 0) (Inr (set_phil t i ((phil t i)\<lparr>CurrentState := Hungry\<rparr>)))"

definition TakeLeftFork :: "Table \<Rightarrow> nat \<Rightarrow> Table res" where
  "TakeLeftFork t i =
     (let p = phil t i; f = leftFork p in
      assertR (CurrentState p = Hungry \<or> CurrentState p = WaitingLeftFork)
        (if IsAvailable (forks t ! f) then
           bindR (Take (forks t ! f) i) (\<lambda>v.
           Inr (set_fork (set_phil t i (p\<lparr>CurrentState := TakingLeftFork, stepsTillStateChange := 2, WaitingTime := WaitingTime p + 2\<rparr>)) f v))
         else Inr (set_phil t i (p\<lparr>CurrentState := WaitingLeftFork, stepsTillStateChange := 0\<rparr>))))"

definition TakeRightFork :: "Table \<Rightarrow> nat \<Rightarrow> Table res" where
  "TakeRightFork t i =
     (let p = phil t i; f = rightFork p in
      assertR (CurrentState p = Hungry \<or> CurrentState p = WaitingRightFork)
        (if IsAvailable (forks t ! f) then
           bindR (Take (forks t ! f) i) (\<lambda>v.
           Inr (set_fork (set_phil t i (p\<lparr>CurrentState := TakingRightFork, stepsTillStateChange := 2, WaitingTime := WaitingTime p + 2\<rparr>)) f v))
         else Inr (set_phil t i (p\<lparr>CurrentState := WaitingRightFork, stepsTillStateChange := 0\<rparr>))))"

definition TryTakeLeftFork :: "Table \<Rightarrow> nat \<Rightarrow> (bool \<times> Table) res" where
  "TryTakeLeftFork t i =
     (let p = phil t i; f = leftFork p in
      assertR (CurrentState p = Hungry \<or> CurrentState p = WaitingLeftFork)
        (bindR (TryTake (forks t ! f) i) (\<lambda>(success, v).
         if \<not> success then Inr (False, t)
         else Inr (True, set_fork (set_phil t i (p\<lparr>CurrentState := TakingLeftFork, stepsTillStateChange := 2, WaitingTime := WaitingTime p + 2\<rparr>)) f v))))"

definition TryTakeRightFork :: "Table \<Rightarrow> nat \<Rightarrow> (bool \<times> Table) res" where
  "TryTakeRightFork t i =
     (let p = phil t i; f = rightFork p in
      assertR (CurrentState p = Hungry \<or> CurrentState p = WaitingRightFork)
        (bindR (TryTake (forks t ! f) i) (\<lambda>(success, v).
         if \<not> success then Inr (False, t)
         else Inr (True, set_fork (set_phil t i (p\<lparr>CurrentState := TakingRightFork, stepsTillStateChange := 2, WaitingTime := WaitingTime p + 2\<rparr>)) f v))))"

definition PutLeftFork :: "Table \<Rightarrow> nat \<Rightarrow> Table res" where
  "PutLeftFork t i =
     (let p = phil t i; f = leftFork p in
      assertR (CurrentState p = Hungry \<or> CurrentState p = Eating)
        (assertR (\<not> IsAvailable (forks t ! f))
           (bindR (Put (forks t ! f)) (\<lambda>v.
            Inr (set_fork (set_phil t i (p\<lparr>HasLeftFork := False, CurrentState := Hungry, stepsTillStateChange := 0\<rparr>)) f v)))))"

definition PutRightFork :: "Table \<Rightarrow> nat \<Rightarrow> Table res" where
  "PutRightFork t i =
     (let p = phil t i; f = rightFork p in
      assertR (CurrentState p = Hungry \<or> CurrentState p = Eating)
        (assertR (\<not> IsAvailable (forks t ! f))
           (bindR (Put (forks t ! f)) (\<lambda>v.
            Inr (set_fork (set_phil t i (p\<lparr>HasRightFork := False, CurrentState := Hungry, stepsTillStateChange := 0\<rparr>)) f v)))))"

section \<open>Strategies and the coordinator\<close>

definition Naive_DoAction :: "Table \<Rightarrow> nat \<Rightarrow> Table res" where
  "Naive_DoAction t i =
     (if \<not> HasLeftFork (phil t i) then TakeLeftFork t i
      else if \<not> HasRightFork (phil t i) then TakeRightFork t i else Inr t)"

definition TakeLeftRight :: "Table \<Rightarrow> nat \<Rightarrow> Table res" where
  "TakeLeftRight t i =
     (if \<not> HasLeftFork (phil t i) then TakeLeftFork t i
      else if HasRightFork (phil t i) then Inr t else TakeRightFork t i)"

definition TakeRightLeft :: "Table \<Rightarrow> nat \<Rightarrow> Table res" where
  "TakeRightLeft t i =
     (if \<not> HasRightFork (phil t i) then TakeRightFork t i
      else if HasLeftFork (phil t i) then Inr t else TakeLeftFork t i)"

definition Hierarchy_DoAction :: "Table \<Rightarrow> nat \<Rightarrow> Table res" where
  "Hierarchy_DoAction t i = (if Id (phil t i) = 0 then TakeLeftRight t i else TakeRightLeft t i)"

definition OnCoordinatorAction :: "Table \<Rightarrow> nat \<Rightarrow> nat \<Rightarrow> Action \<Rightarrow> Table res" where
  "OnCoordinatorAction t i target act =
     (if target \<noteq> i then Inr t
      else case act of
             TakeLeft \<Rightarrow> TakeLeftFork t i
           | TakeRight \<Rightarrow> TakeRightFork t i
           | ReleaseLeft \<Rightarrow> PutLeftFork t i
           | ReleaseRight \<Rightarrow> PutRightFork t i)"

text \<open>The event reaches every subscribed philosopher, in the order of the table.\<close>

fun notify :: "Table \<Rightarrow> nat list \<Rightarrow> nat \<Rightarrow> Action \<Rightarrow> Table res" where
  "notify t [] target act = Inr t"
| "notify t (i # is) target act = bindR (OnCoordinatorAction t i target act) (\<lambda>t'. notify t' is target act)"

definition Invoke :: "Table \<Rightarrow> nat \<Rightarrow> Action \<Rightarrow> Table res" where
  "Invoke t target act = notify t [0..<length (philosophers t)] target act"

definition Coordinator_TakeLeftRight :: "Table \<Rightarrow> nat \<Rightarrow> Table res" where
  "Coordinator_TakeLeftRight t i =
     (if \<not> HasLeftFork (phil t i) then Invoke t i TakeLeft
      else if HasRightFork (phil t i) then Inr t else Invoke t i TakeRight)"

definition Coordinator_TakeRightLeft :: "Table \<Rightarrow> nat \<Rightarrow> Table res" where
  "Coordinator_TakeRightLeft t i =
     (if \<not> HasRightFork (phil t i) then Invoke t i TakeRight
      else if HasLeftFork (phil t i) then Inr t else Invoke t i TakeLeft)"

definition DeclareHungry :: "Table \<Rightarrow> nat \<Rightarrow> Table res" where
  "DeclareHungry t i = (if Id (phil t i) = 0 then Coordinator_TakeLeftRight t i else Coordinator_TakeRightLeft t i)"

definition DoAction :: "Decision \<Rightarrow> Table \<Rightarrow> nat \<Rightarrow> Table res" where
  "DoAction mode t i =
     (case mode of Naive \<Rightarrow> Naive_DoAction t i | ResourceHierarchy \<Rightarrow> Hierarchy_DoAction t i | Coordinator \<Rightarrow> DeclareHungry t i)"

section \<open>The simulation\<close>

definition add_waiting :: "Table \<Rightarrow> nat \<Rightarrow> Table" where
  "add_waiting t i = set_phil t i ((phil t i)\<lparr>WaitingTime := WaitingTime (phil t i) + 1\<rparr>)"

definition NextStep :: "(nat \<Rightarrow> nat) \<Rightarrow> Decision \<Rightarrow> Table \<Rightarrow> nat \<Rightarrow> (bool \<times> Table) res" where
  "NextStep rng mode t0 i =
     (let t = set_phil t0 i ((phil t0 i)\<lparr>stepsTillStateChange := stepsTillStateChange (phil t0 i) - 1\<rparr>) in
      if stepsTillStateChange (phil t i) > 0 then Inr (False, t)
      else
        bindR (case CurrentState (phil t i) of
                 Thinking \<Rightarrow> BecomeHungry t i
               | Hungry \<Rightarrow>
                   let t1 = add_waiting t i in
                   if HasLeftFork (phil t1 i) \<and> HasRightFork (phil t1 i) then BecomeEating rng t1 i else DoAction mode t1 i
               | WaitingLeftFork \<Rightarrow> TakeLeftFork (add_waiting t i) i
               | WaitingRightFork \<Rightarrow> TakeRightFork (add_waiting t i) i
               | TakingLeftFork \<Rightarrow> BecomeHungry (set_phil t i ((phil t i)\<lparr>HasLeftFork := True\<rparr>)) i
               | TakingRightFork \<Rightarrow> BecomeHungry (set_phil t i ((phil t i)\<lparr>HasRightFork := True\<rparr>)) i
               | Eating \<Rightarrow> bindR (PutLeftFork t i) (\<lambda>t1. bindR (PutRightFork t1 i) (\<lambda>t2. BecomeThinking rng t2 i)))
          (\<lambda>t'. Inr (True, t')))"

fun step_philosophers :: "(nat \<Rightarrow> nat) \<Rightarrow> Decision \<Rightarrow> nat list \<Rightarrow> bool \<times> Table \<Rightarrow> (bool \<times> Table) res" where
  "step_philosophers rng mode [] (changed, t) = Inr (changed, t)"
| "step_philosophers rng mode (i # is) (changed, t) =
     bindR (NextStep rng mode t i) (\<lambda>(c, t'). step_philosophers rng mode is (changed \<or> c, t'))"

definition Run_step :: "(nat \<Rightarrow> nat) \<Rightarrow> Decision \<Rightarrow> Table \<Rightarrow> Table res" where
  "Run_step rng mode t =
     bindR (step_philosophers rng mode [0..<length (philosophers t)] (False, t)) (\<lambda>(changed, t').
     Inr (t'\<lparr>forks := map Fork_NextStep (forks t')\<rparr>))"

text \<open>\<open>Run\<close> without a display.\<close>

fun Run :: "(nat \<Rightarrow> nat) \<Rightarrow> Decision \<Rightarrow> nat \<Rightarrow> Table \<Rightarrow> Table res" where
  "Run rng mode 0 t = Inr t"
| "Run rng mode (Suc n) t = bindR (Run_step rng mode t) (Run rng mode n)"

definition new_philosopher :: "(nat \<Rightarrow> nat) \<Rightarrow> nat \<Rightarrow> nat \<Rightarrow> nat \<Rightarrow> nat \<Rightarrow> StepwisePhilosopher" where
  "new_philosopher rng k i l r =
     \<lparr>CurrentState = Thinking, stepsTillStateChange = random_Next rng k 3 11, WaitingTime = 0, Eaten = 0,
      HasLeftFork = False, HasRightFork = False, Id = i, leftFork = l, rightFork = r\<rparr>"

definition StepwiseTableManager :: "(nat \<Rightarrow> nat) \<Rightarrow> nat \<Rightarrow> Table" where
  "StepwiseTableManager rng n =
     \<lparr>philosophers = map (\<lambda>i. new_philosopher rng i i (i mod n) ((i + 1) mod n)) [0..<n],
      forks = replicate n new_fork, draws = n\<rparr>"

text \<open>\<open>SetCoordinator\<close> of the table manager calls itself once for every philosopher; \<open>None\<close> if it never returns.\<close>

partial_function (option) SetCoordinator :: "nat \<Rightarrow> unit option" where
  "SetCoordinator n = (if n = 0 then Some () else SetCoordinator n)"

text \<open>The constructor: the table, or \<open>None\<close> if it never returns.\<close>

definition StepwiseSimulation :: "(nat \<Rightarrow> nat) \<Rightarrow> Decision \<Rightarrow> nat \<Rightarrow> Table option" where
  "StepwiseSimulation rng mode n =
     (if mode = Coordinator then map_option (\<lambda>_. StepwiseTableManager rng n) (SetCoordinator n)
      else Some (StepwiseTableManager rng n))"

definition DeadlockDetector_Check :: "Table \<Rightarrow> bool" where
  "DeadlockDetector_Check t \<longleftrightarrow>
     list_all (\<lambda>p. WaitsLeftFork p \<or> WaitsRightFork p) (philosophers t) \<and>
     list_all (\<lambda>p. \<not> HasLeftFork p \<or> \<not> HasRightFork p) (philosophers t)"

section \<open>The invariant\<close>

definition holdsL :: "StepwisePhilosopher \<Rightarrow> bool" where
  "holdsL p \<longleftrightarrow> HasLeftFork p \<or> CurrentState p = TakingLeftFork"

definition holdsR :: "StepwisePhilosopher \<Rightarrow> bool" where
  "holdsR p \<longleftrightarrow> HasRightFork p \<or> CurrentState p = TakingRightFork"

definition phil_ok :: "StepwisePhilosopher \<Rightarrow> bool" where
  "phil_ok p \<longleftrightarrow>
     (let s = stepsTillStateChange p; l = HasLeftFork p; r = HasRightFork p in
      case CurrentState p of
        Thinking \<Rightarrow> \<not> l \<and> \<not> r \<and> 1 \<le> s \<and> s \<le> 10
      | Hungry \<Rightarrow> s \<le> 0
      | Eating \<Rightarrow> l \<and> r \<and> 1 \<le> s \<and> s \<le> 5
      | WaitingLeftFork \<Rightarrow> \<not> l \<and> s \<le> 0
      | WaitingRightFork \<Rightarrow> \<not> r \<and> s \<le> 0
      | TakingLeftFork \<Rightarrow> \<not> l \<and> 1 \<le> s \<and> s \<le> 2
      | TakingRightFork \<Rightarrow> \<not> r \<and> 1 \<le> s \<and> s \<le> 2)"

text \<open>Philosopher 0 takes the left fork first, the others the right one, except with the naive strategy.\<close>

definition order_ok :: "Decision \<Rightarrow> nat \<Rightarrow> StepwisePhilosopher \<Rightarrow> bool" where
  "order_ok mode i p \<longleftrightarrow> mode = Naive \<or>
     (if i = 0 then HasRightFork p \<or> WaitsRightFork p \<longrightarrow> HasLeftFork p
      else HasLeftFork p \<or> WaitsLeftFork p \<longrightarrow> HasRightFork p)"

text \<open>A fork between the philosopher \<open>pl\<close> whose left one it is and the philosopher \<open>pr\<close> whose right one it is.\<close>

definition fork_matches :: "StepwiseFork \<Rightarrow> StepwisePhilosopher \<Rightarrow> StepwisePhilosopher \<Rightarrow> nat \<Rightarrow> nat \<Rightarrow> bool" where
  "fork_matches F pl pr il ir \<longleftrightarrow> \<not> (holdsL pl \<and> holdsR pr) \<and>
     (if holdsL pl then takenBy F = Some il \<and> fork_state F = (if CurrentState pl = Eating then InUse else Taken)
      else if holdsR pr then takenBy F = Some ir \<and> fork_state F = (if CurrentState pr = Eating then InUse else Taken)
      else takenBy F = None \<and> fork_state F = Available)"

definition succ_of :: "nat \<Rightarrow> nat \<Rightarrow> nat" where
  "succ_of n i = (if Suc i = n then 0 else Suc i)"

definition pred_of :: "nat \<Rightarrow> nat \<Rightarrow> nat" where
  "pred_of n i = (if i = 0 then n - 1 else i - 1)"

definition table_ok :: "Decision \<Rightarrow> nat \<Rightarrow> Table \<Rightarrow> bool" where
  "table_ok mode n t \<longleftrightarrow> 2 \<le> n \<and> length (philosophers t) = n \<and> length (forks t) = n \<and>
     (\<forall>i < n. Id (phil t i) = i \<and> leftFork (phil t i) = i \<and> rightFork (phil t i) = succ_of n i \<and>
        phil_ok (phil t i) \<and> order_ok mode i (phil t i) \<and>
        fork_matches (forks t ! i) (phil t i) (phil t (pred_of n i)) i (pred_of n i))"

lemma succ_pred:
  assumes "2 \<le> n" and "i < n"
  shows "succ_of n i < n" "pred_of n i < n" "pred_of n (succ_of n i) = i" "succ_of n i \<noteq> i" "pred_of n i \<noteq> i"
    "k < n \<Longrightarrow> pred_of n k = i \<Longrightarrow> k = succ_of n i"
  using assms by (auto simp: succ_of_def pred_of_def split: if_splits)

lemma phil_set [simp]:
  "i < length (philosophers t) \<Longrightarrow> phil (set_phil t i p) k = (if k = i then p else phil t k)"
  "phil (set_fork t f v) k = phil t k" "phil (t\<lparr>draws := d\<rparr>) k = phil t k"
  by (auto simp: phil_def set_phil_def set_fork_def nth_list_update)

lemma table_set [simp]:
  "forks (set_phil t i p) = forks t" "philosophers (set_fork t f v) = philosophers t"
  "philosophers (set_phil t i p) = (philosophers t)[i := p]" "forks (set_fork t f v) = (forks t)[f := v]"
  "draws (set_phil t i p) = draws t" "draws (set_fork t f v) = draws t"
  by (auto simp: set_phil_def set_fork_def)

lemma set_phil_twice [simp]: "set_phil (set_phil t i p) i q = set_phil t i q"
  by (simp add: set_phil_def)

text \<open>Replacing one philosopher and its two forks.\<close>

lemma table_ok_update:
  assumes "table_ok mode n t" and "i < n" and "philosophers t' = (philosophers t)[i := p']"
    and "forks t' = (forks t)[i := F', succ_of n i := G']"
    and "Id p' = i" "leftFork p' = i" "rightFork p' = succ_of n i" "phil_ok p'" "order_ok mode i p'"
    and "fork_matches F' p' (phil t (pred_of n i)) i (pred_of n i)"
    and "fork_matches G' (phil t (succ_of n i)) p' (succ_of n i) i"
  shows "table_ok mode n t'"
proof -
  have n: "2 \<le> n" "length (philosophers t) = n" "length (forks t) = n" using assms(1) by (auto simp: table_ok_def)
  note sp = succ_pred [OF n(1) assms(2)]
  have ph: "phil t' k = (if k = i then p' else phil t k)" if "k < n" for k
    using assms(2,3) n that by (simp add: phil_def nth_list_update)
  have fk: "forks t' ! k = (if k = succ_of n i then G' else if k = i then F' else forks t ! k)" if "k < n" for k
    using assms(2,4) n that sp(1,4) by (simp add: nth_list_update)
  have "fork_matches (forks t' ! k) (phil t' k) (phil t' (pred_of n k)) k (pred_of n k)" if "k < n" for k
  proof -
    consider "k = i" | "k = succ_of n i" | "k \<noteq> i" "k \<noteq> succ_of n i" by blast
    then show ?thesis
    proof cases
      case 1
      then show ?thesis using assms(10) ph [OF assms(2)] ph [OF sp(2)] fk [OF assms(2)] sp(1-5) by simp
    next
      case 2
      then show ?thesis using assms(11) ph [OF assms(2)] ph [OF sp(1)] fk [OF sp(1)] sp(1-5) by simp
    next
      case 3
      then have "pred_of n k \<noteq> i" "pred_of n k < n" using sp(6) [OF that] succ_pred(2) [OF n(1) that] by auto
      moreover have "fork_matches (forks t ! k) (phil t k) (phil t (pred_of n k)) k (pred_of n k)"
        using assms(1) that by (simp add: table_ok_def)
      ultimately show ?thesis using 3 ph [OF that] ph [of "pred_of n k"] fk [OF that] by simp
    qed
  qed
  moreover have "length (philosophers t') = n" "length (forks t') = n" using assms(3,4) n by simp_all
  moreover have "Id (phil t' k) = k \<and> leftFork (phil t' k) = k \<and> rightFork (phil t' k) = succ_of n k \<and>
      phil_ok (phil t' k) \<and> order_ok mode k (phil t' k)" if "k < n" for k
    using assms(1,5-9) ph [OF that] that by (cases "k = i") (simp_all add: table_ok_def)
  ultimately show ?thesis using n(1) by (simp add: table_ok_def)
qed

section \<open>One step of one philosopher\<close>

definition blocked :: "Table \<Rightarrow> nat \<Rightarrow> bool" where
  "blocked t i \<longleftrightarrow> CurrentState (phil t i) = WaitingLeftFork \<and> \<not> IsAvailable (forks t ! leftFork (phil t i)) \<or>
     CurrentState (phil t i) = WaitingRightFork \<and> \<not> IsAvailable (forks t ! rightFork (phil t i))"

text \<open>How far a philosopher is from eating; an eating one has to become hungry again.\<close>

definition distance :: "StepwisePhilosopher \<Rightarrow> nat" where
  "distance p =
     (case CurrentState p of
        Thinking \<Rightarrow> 9 + nat (stepsTillStateChange p)
      | Hungry \<Rightarrow> if HasLeftFork p \<and> HasRightFork p then 1 else if HasLeftFork p \<or> HasRightFork p then 5 else 9
      | Eating \<Rightarrow> 19 + nat (stepsTillStateChange p)
      | WaitingLeftFork \<Rightarrow> if HasRightFork p then 4 else 8
      | WaitingRightFork \<Rightarrow> if HasLeftFork p then 4 else 8
      | TakingLeftFork \<Rightarrow> (if HasRightFork p then 1 else 5) + nat (stepsTillStateChange p)
      | TakingRightFork \<Rightarrow> (if HasLeftFork p then 1 else 5) + nat (stepsTillStateChange p))"

definition core :: "StepwisePhilosopher \<Rightarrow> State \<times> bool \<times> bool" where
  "core p = (CurrentState p, HasLeftFork p, HasRightFork p)"

text \<open>What a step does: the philosopher starts a meal, or gets closer to one, or nothing changes because it is blocked.\<close>

definition progress :: "Table \<Rightarrow> nat \<Rightarrow> StepwisePhilosopher \<Rightarrow> bool" where
  "progress t i p' \<longleftrightarrow> Eaten p' = Suc (Eaten (phil t i)) \<or>
     Eaten p' = Eaten (phil t i) \<and> (distance p' < distance (phil t i) \<or>
       blocked t i \<and> distance p' = distance (phil t i) \<and> core p' = core (phil t i))"

definition stepped :: "Decision \<Rightarrow> nat \<Rightarrow> Table \<Rightarrow> nat \<Rightarrow> Table \<Rightarrow> bool" where
  "stepped mode n t i t' \<longleftrightarrow> (\<exists>p' F' G'. philosophers t' = (philosophers t)[i := p'] \<and>
     forks t' = (forks t)[i := F', succ_of n i := G'] \<and>
     Id p' = i \<and> leftFork p' = i \<and> rightFork p' = succ_of n i \<and> phil_ok p' \<and> order_ok mode i p' \<and>
     fork_matches F' p' (phil t (pred_of n i)) i (pred_of n i) \<and>
     fork_matches G' (phil t (succ_of n i)) p' (succ_of n i) i \<and> progress t i p' \<and>
     (blocked t i \<longrightarrow> F' = forks t ! i \<and> G' = forks t ! succ_of n i))"

lemma random_range: "lo < hi \<Longrightarrow> lo \<le> random_Next rng k lo hi \<and> random_Next rng k lo hi < hi"
proof -
  assume "lo < hi"
  then have "int (rng k) mod (hi - lo) < hi - lo" "0 \<le> int (rng k) mod (hi - lo)" by simp_all
  then show ?thesis unfolding random_Next_def by linarith
qed

lemma steppedI:
  assumes "philosophers t' = (philosophers t)[i := p']" and "forks t' = (forks t)[i := F', succ_of n i := G']"
    and "Id p' = i" "leftFork p' = i" "rightFork p' = succ_of n i" "phil_ok p'" "order_ok mode i p'"
    and "fork_matches F' p' (phil t (pred_of n i)) i (pred_of n i)"
    and "fork_matches G' (phil t (succ_of n i)) p' (succ_of n i) i" and "progress t i p'"
    and "blocked t i \<longrightarrow> F' = forks t ! i \<and> G' = forks t ! succ_of n i"
  shows "stepped mode n t i t'"
  using assms unfolding stepped_def by blast

lemma forks_left: "i \<noteq> j \<Longrightarrow> fs[i := F, j := fs ! j] = fs[i := F]"
  by (metis list_update_id list_update_swap)

lemma forks_right: "fs[i := fs ! i, j := G] = fs[j := G]"
  by simp

text \<open>What \<open>table_ok\<close> says of the philosopher whose turn it is and of its forks.\<close>

lemma table_ok_local:
  assumes "table_ok mode n t" and "i < n"
  shows "2 \<le> n" "i < length (philosophers t)" "Id (phil t i) = i" "leftFork (phil t i) = i" "rightFork (phil t i) = succ_of n i"
    "phil_ok (phil t i)" "order_ok mode i (phil t i)" "succ_of n i \<noteq> i" "i < length (forks t)" "succ_of n i < length (forks t)"
    "fork_matches (forks t ! i) (phil t i) (phil t (pred_of n i)) i (pred_of n i)"
    "fork_matches (forks t ! succ_of n i) (phil t (succ_of n i)) (phil t i) (succ_of n i) i"
  using assms succ_pred(1,4) [of n i] succ_pred(3) [of n i]
  by (auto simp: table_ok_def dest: spec [of _ "succ_of n i"])

lemma NextStep_counting:
  assumes "table_ok mode n t" and "i < n" and "stepsTillStateChange (phil t i) > 1"
  shows "\<exists>b t'. NextStep rng mode t i = Inr (b, t') \<and> stepped mode n t i t'"
proof -
  note l = table_ok_local [OF assms(1,2)]
  let ?p = "(phil t i)\<lparr>stepsTillStateChange := stepsTillStateChange (phil t i) - 1\<rparr>"
  have "NextStep rng mode t i = Inr (False, set_phil t i ?p)" using l assms(3) by (simp add: NextStep_def)
  moreover have "stepped mode n t i (set_phil t i ?p)"
  proof (rule steppedI [where F' = "forks t ! i" and G' = "forks t ! succ_of n i" and p' = ?p])
    show "phil_ok ?p" using l(6) assms(3) by (auto simp: phil_ok_def Let_def split: State.splits)
    show "order_ok mode i ?p" using l(7) by (auto simp: order_ok_def WaitsLeftFork_def WaitsRightFork_def)
    show "fork_matches (forks t ! i) ?p (phil t (pred_of n i)) i (pred_of n i)" using l(11) by (simp add: fork_matches_def holdsL_def)
    show "fork_matches (forks t ! succ_of n i) (phil t (succ_of n i)) ?p (succ_of n i) i" using l(12) by (simp add: fork_matches_def holdsR_def)
    show "progress t i ?p" using l(6) assms(3)
      by (auto simp: progress_def distance_def phil_ok_def Let_def split: State.splits)
  qed (use l in simp_all)
  ultimately show ?thesis by blast
qed

text \<open>Taking a fork: \<open>p\<close> is the philosopher when \<open>TakeLeftFork\<close> or \<open>TakeRightFork\<close> is called.\<close>

lemma TakeLeftFork_stepped:
  assumes "table_ok mode n t" and "i < n" and "p = (phil t i)\<lparr>stepsTillStateChange := s, WaitingTime := w\<rparr>"
    and "CurrentState p = Hungry \<or> CurrentState p = WaitingLeftFork" and "\<not> HasLeftFork p"
    and "mode \<noteq> Naive \<longrightarrow> i \<noteq> 0 \<longrightarrow> HasRightFork p"
  shows "\<exists>t'. TakeLeftFork (set_phil t i p) i = Inr t' \<and> stepped mode n t i t'"
proof -
  note l = table_ok_local [OF assms(1,2)]
  have np: "\<not> holdsL (phil t i)" using assms(3-5) by (auto simp: holdsL_def)
  show ?thesis
  proof (cases "IsAvailable (forks t ! i)")
    case True
    let ?p = "p\<lparr>CurrentState := TakingLeftFork, stepsTillStateChange := 2, WaitingTime := WaitingTime p + 2\<rparr>"
    let ?F = "(forks t ! i)\<lparr>takenBy := Some i, fork_state := Taken\<rparr>"
    let ?t = "set_fork (set_phil t i ?p) i ?F"
    have nr: "\<not> holdsR (phil t (pred_of n i))" "takenBy (forks t ! i) = None" "fork_state (forks t ! i) = Available"
      using l(11) np True by (auto simp: fork_matches_def IsAvailable_def split: if_splits)
    have "TakeLeftFork (set_phil t i p) i = Inr ?t"
      using l assms(3,4) True nr by (simp add: TakeLeftFork_def Take_def Let_def)
    moreover have "stepped mode n t i ?t"
    proof (rule steppedI [where F' = ?F and G' = "forks t ! succ_of n i" and p' = ?p])
      show "phil_ok ?p" using assms(5) by (simp add: phil_ok_def)
      show "order_ok mode i ?p"
        using l(7) assms(3,5,6) by (auto simp: order_ok_def WaitsLeftFork_def WaitsRightFork_def)
      show "fork_matches ?F ?p (phil t (pred_of n i)) i (pred_of n i)" using nr by (simp add: fork_matches_def holdsL_def)
      show "fork_matches (forks t ! succ_of n i) (phil t (succ_of n i)) ?p (succ_of n i) i"
        using l(12) assms(3,4) by (auto simp: fork_matches_def holdsR_def)
      show "progress t i ?p" using l(6) assms(3-5) by (auto simp: progress_def distance_def phil_ok_def)
      show "blocked t i \<longrightarrow> ?F = forks t ! i \<and> forks t ! succ_of n i = forks t ! succ_of n i"
        using assms(3,4) True l(4) by (auto simp: blocked_def)
    qed (use l assms(3) in \<open>simp_all add: forks_left\<close>)
    ultimately show ?thesis by blast
  next
    case False
    let ?p = "p\<lparr>CurrentState := WaitingLeftFork, stepsTillStateChange := 0\<rparr>"
    let ?t = "set_phil t i ?p"
    have "TakeLeftFork (set_phil t i p) i = Inr ?t"
      using l assms(3,4) False by (simp add: TakeLeftFork_def Let_def)
    moreover have "stepped mode n t i ?t"
    proof (rule steppedI [where F' = "forks t ! i" and G' = "forks t ! succ_of n i" and p' = ?p])
      show "phil_ok ?p" using assms(5) by (simp add: phil_ok_def)
      show "order_ok mode i ?p"
        using l(7) assms(3,5,6) by (auto simp: order_ok_def WaitsLeftFork_def WaitsRightFork_def)
      show "fork_matches (forks t ! i) ?p (phil t (pred_of n i)) i (pred_of n i)"
        using l(11) np assms(5) by (auto simp: fork_matches_def holdsL_def)
      show "fork_matches (forks t ! succ_of n i) (phil t (succ_of n i)) ?p (succ_of n i) i"
        using l(12) assms(3,4) by (auto simp: fork_matches_def holdsR_def)
      show "progress t i ?p" using l(4,6) assms(3-5) False
        by (auto simp: progress_def distance_def phil_ok_def blocked_def core_def)
    qed (use l assms(3) in simp_all)
    ultimately show ?thesis by blast
  qed
qed

lemma TakeRightFork_stepped:
  assumes "table_ok mode n t" and "i < n" and "p = (phil t i)\<lparr>stepsTillStateChange := s, WaitingTime := w\<rparr>"
    and "CurrentState p = Hungry \<or> CurrentState p = WaitingRightFork" and "\<not> HasRightFork p"
    and "mode \<noteq> Naive \<longrightarrow> i = 0 \<longrightarrow> HasLeftFork p"
  shows "\<exists>t'. TakeRightFork (set_phil t i p) i = Inr t' \<and> stepped mode n t i t'"
proof -
  note l = table_ok_local [OF assms(1,2)]
  have np: "\<not> holdsR (phil t i)" using assms(3-5) by (auto simp: holdsR_def)
  show ?thesis
  proof (cases "IsAvailable (forks t ! succ_of n i)")
    case True
    let ?p = "p\<lparr>CurrentState := TakingRightFork, stepsTillStateChange := 2, WaitingTime := WaitingTime p + 2\<rparr>"
    let ?G = "(forks t ! succ_of n i)\<lparr>takenBy := Some i, fork_state := Taken\<rparr>"
    let ?t = "set_fork (set_phil t i ?p) (succ_of n i) ?G"
    have nr: "\<not> holdsL (phil t (succ_of n i))" "takenBy (forks t ! succ_of n i) = None" "fork_state (forks t ! succ_of n i) = Available"
      using l(12) np True by (auto simp: fork_matches_def IsAvailable_def split: if_splits)
    have "TakeRightFork (set_phil t i p) i = Inr ?t"
      using l assms(3,4) True nr by (simp add: TakeRightFork_def Take_def Let_def)
    moreover have "stepped mode n t i ?t"
    proof (rule steppedI [where F' = "forks t ! i" and G' = ?G and p' = ?p])
      show "phil_ok ?p" using assms(5) by (simp add: phil_ok_def)
      show "order_ok mode i ?p"
        using l(7) assms(3,5,6) by (auto simp: order_ok_def WaitsLeftFork_def WaitsRightFork_def)
      show "fork_matches (forks t ! i) ?p (phil t (pred_of n i)) i (pred_of n i)"
        using l(11) assms(3,4) by (auto simp: fork_matches_def holdsL_def)
      show "fork_matches ?G (phil t (succ_of n i)) ?p (succ_of n i) i" using nr by (simp add: fork_matches_def holdsR_def)
      show "progress t i ?p" using l(6) assms(3-5) by (auto simp: progress_def distance_def phil_ok_def)
      show "blocked t i \<longrightarrow> forks t ! i = forks t ! i \<and> ?G = forks t ! succ_of n i"
        using assms(3,4) True l(5) by (auto simp: blocked_def)
    qed (use l assms(3) in \<open>simp_all add: forks_right\<close>)
    ultimately show ?thesis by blast
  next
    case False
    let ?p = "p\<lparr>CurrentState := WaitingRightFork, stepsTillStateChange := 0\<rparr>"
    let ?t = "set_phil t i ?p"
    have "TakeRightFork (set_phil t i p) i = Inr ?t"
      using l assms(3,4) False by (simp add: TakeRightFork_def Let_def)
    moreover have "stepped mode n t i ?t"
    proof (rule steppedI [where F' = "forks t ! i" and G' = "forks t ! succ_of n i" and p' = ?p])
      show "phil_ok ?p" using assms(5) by (simp add: phil_ok_def)
      show "order_ok mode i ?p"
        using l(7) assms(3,5,6) by (auto simp: order_ok_def WaitsLeftFork_def WaitsRightFork_def)
      show "fork_matches (forks t ! i) ?p (phil t (pred_of n i)) i (pred_of n i)"
        using l(11) assms(3,4) by (auto simp: fork_matches_def holdsL_def)
      show "fork_matches (forks t ! succ_of n i) (phil t (succ_of n i)) ?p (succ_of n i) i"
        using l(12) np assms(5) by (auto simp: fork_matches_def holdsR_def)
      show "progress t i ?p" using l(5,6) assms(3-5) False
        by (auto simp: progress_def distance_def phil_ok_def blocked_def core_def)
    qed (use l assms(3) in simp_all)
    ultimately show ?thesis by blast
  qed
qed

text \<open>An event acts on its target only.\<close>

lemma notify_others: "target \<notin> set is \<Longrightarrow> notify t is target act = Inr t"
  by (induction "is") (auto simp: OnCoordinatorAction_def)

lemma Invoke_target:
  assumes "i < length (philosophers t)"
  shows "Invoke t i act = OnCoordinatorAction t i i act"
proof -
  have split: "[0..<length (philosophers t)] = [0..<i] @ i # [Suc i..<length (philosophers t)]"
    using assms upt_add_eq_append [of 0 i "length (philosophers t) - i"] upt_conv_Cons [of i "length (philosophers t)"] by simp
  have app: "notify u (js @ ks) i act = bindR (notify u js i act) (\<lambda>u'. notify u' ks i act)" for u js ks
    by (induction js arbitrary: u) (auto simp: bindR_assoc)
  have "notify u [Suc i..<length (philosophers t)] i act = Inr u" for u by (rule notify_others) simp
  then show ?thesis unfolding Invoke_def split by (simp add: app notify_others)
qed

lemma DoAction_stepped:
  assumes "table_ok mode n t" and "i < n" and "p = (phil t i)\<lparr>stepsTillStateChange := s, WaitingTime := w\<rparr>"
    and "CurrentState p = Hungry" and "\<not> (HasLeftFork p \<and> HasRightFork p)"
  shows "\<exists>t'. DoAction mode (set_phil t i p) i = Inr t' \<and> stepped mode n t i t'"
proof -
  note l = table_ok_local [OF assms(1,2)]
  have ph: "phil (set_phil t i p) i = p" "Id p = i" using l assms(3) by simp_all
  have ord: "mode \<noteq> Naive \<Longrightarrow> (if i = 0 then HasRightFork p \<longrightarrow> HasLeftFork p else HasLeftFork p \<longrightarrow> HasRightFork p)"
    using l(7) assms(3) by (auto simp: order_ok_def)
  note L = TakeLeftFork_stepped [OF assms(1-3)] and R = TakeRightFork_stepped [OF assms(1-3)]
  have inv: "Invoke (set_phil t i p) i act = OnCoordinatorAction (set_phil t i p) i i act" for act
    using l(2) by (intro Invoke_target) simp
  show ?thesis
  proof (cases mode)
    case Naive
    then show ?thesis using L R ph assms(4,5) by (auto simp: DoAction_def Naive_DoAction_def)
  next
    case ResourceHierarchy
    then show ?thesis using L R ph ord assms(4,5)
      by (auto simp: DoAction_def Hierarchy_DoAction_def TakeLeftRight_def TakeRightLeft_def split: if_splits)
  next
    case Coordinator
    then show ?thesis using L R ph ord assms(4,5) inv [of TakeLeft] inv [of TakeRight]
      by (auto simp: DoAction_def DeclareHungry_def Coordinator_TakeLeftRight_def Coordinator_TakeRightLeft_def
          OnCoordinatorAction_def split: if_splits)
  qed
qed

lemma became_hungry_stepped:
  assumes "table_ok mode n t" and "i < n" and "CurrentState (phil t i) \<in> {Thinking, TakingLeftFork, TakingRightFork}"
    and "stepsTillStateChange (phil t i) \<le> 1"
  defines "p \<equiv> (phil t i)\<lparr>stepsTillStateChange := stepsTillStateChange (phil t i) - 1,
      HasLeftFork := HasLeftFork (phil t i) \<or> CurrentState (phil t i) = TakingLeftFork,
      HasRightFork := HasRightFork (phil t i) \<or> CurrentState (phil t i) = TakingRightFork, CurrentState := Hungry\<rparr>"
  shows "stepped mode n t i (set_phil t i p)"
proof -
  note l = table_ok_local [OF assms(1,2)]
  show ?thesis
  proof (rule steppedI [where F' = "forks t ! i" and G' = "forks t ! succ_of n i" and p' = p])
    show "phil_ok p" using assms(4) by (simp add: p_def phil_ok_def)
    show "order_ok mode i p" using l(7) assms(3) by (auto simp: p_def order_ok_def WaitsLeftFork_def WaitsRightFork_def)
    show "fork_matches (forks t ! i) p (phil t (pred_of n i)) i (pred_of n i)"
      using l(11) assms(3) by (auto simp: p_def fork_matches_def holdsL_def)
    show "fork_matches (forks t ! succ_of n i) (phil t (succ_of n i)) p (succ_of n i) i"
      using l(12) assms(3) by (auto simp: p_def fork_matches_def holdsR_def)
    show "progress t i p" using l(6) assms(3,4) by (auto simp: p_def progress_def distance_def phil_ok_def Let_def)
  qed (use l in \<open>simp_all add: p_def\<close>)
qed

lemma BecomeEating_stepped:
  assumes "table_ok mode n t" and "i < n" and "p = (phil t i)\<lparr>stepsTillStateChange := s, WaitingTime := w\<rparr>"
    and "CurrentState p = Hungry" and "HasLeftFork p \<and> HasRightFork p" and "s \<le> 0"
  shows "\<exists>t'. BecomeEating rng (set_phil t i p) i = Inr t' \<and> stepped mode n t i t'"
proof -
  note l = table_ok_local [OF assms(1,2)]
  let ?F = "(forks t ! i)\<lparr>fork_state := InUse\<rparr>" and ?G = "(forks t ! succ_of n i)\<lparr>fork_state := InUse\<rparr>"
  let ?r = "random_Next rng (draws t) 4 6"
  let ?p = "p\<lparr>stepsTillStateChange := ?r, CurrentState := Eating, Eaten := Suc (Eaten p)\<rparr>"
  let ?t = "set_phil (set_fork (set_fork ((set_phil t i (p\<lparr>stepsTillStateChange := ?r, CurrentState := Eating\<rparr>))\<lparr>draws := draws t + 1\<rparr>) i ?F)
    (succ_of n i) ?G) i ?p"
  have r: "4 \<le> ?r" "?r < 6" using random_range [of 4 6 rng "draws t"] by auto
  have held: "takenBy (forks t ! i) = Some i" "fork_state (forks t ! i) = Taken" "\<not> holdsR (phil t (pred_of n i))"
      "takenBy (forks t ! succ_of n i) = Some i" "fork_state (forks t ! succ_of n i) = Taken" "\<not> holdsL (phil t (succ_of n i))"
    using l(11,12) assms(3-5) by (auto simp: fork_matches_def holdsL_def holdsR_def)
  have "BecomeEating rng (set_phil t i p) i = Inr ?t"
    using l held assms(3,6) by (simp add: BecomeEating_def Use_def Let_def)
  moreover have "stepped mode n t i ?t"
  proof (rule steppedI [where F' = ?F and G' = ?G and p' = ?p])
    show "phil_ok ?p" using assms(5) r by (simp add: phil_ok_def)
    show "order_ok mode i ?p" using assms(5) by (simp add: order_ok_def)
    show "fork_matches ?F ?p (phil t (pred_of n i)) i (pred_of n i)" using held assms(5) by (simp add: fork_matches_def holdsL_def)
    show "fork_matches ?G (phil t (succ_of n i)) ?p (succ_of n i) i" using held assms(5) by (simp add: fork_matches_def holdsR_def)
    show "progress t i ?p" using assms(3) by (simp add: progress_def)
    show "blocked t i \<longrightarrow> ?F = forks t ! i \<and> ?G = forks t ! succ_of n i" using assms(3,4) by (auto simp: blocked_def)
  qed (use l assms(3) in simp_all)
  ultimately show ?thesis by blast
qed

lemma Eating_stepped:
  assumes "table_ok mode n t" and "i < n" and "p = (phil t i)\<lparr>stepsTillStateChange := s\<rparr>" and "CurrentState p = Eating"
  shows "\<exists>t'. bindR (PutLeftFork (set_phil t i p) i) (\<lambda>t1. bindR (PutRightFork t1 i) (\<lambda>t2. BecomeThinking rng t2 i)) = Inr t' \<and>
    stepped mode n t i t'"
proof -
  note l = table_ok_local [OF assms(1,2)]
  let ?F = "(forks t ! i)\<lparr>takenBy := None, fork_state := Available\<rparr>"
  let ?G = "(forks t ! succ_of n i)\<lparr>takenBy := None, fork_state := Available\<rparr>"
  let ?r = "random_Next rng (draws t) 3 11"
  let ?q = "p\<lparr>HasLeftFork := False, CurrentState := Hungry, stepsTillStateChange := 0\<rparr>"
  let ?q2 = "?q\<lparr>HasRightFork := False, CurrentState := Hungry, stepsTillStateChange := 0\<rparr>"
  let ?p = "?q2\<lparr>stepsTillStateChange := ?r, CurrentState := Thinking\<rparr>"
  let ?t1 = "set_fork (set_phil t i ?q) i ?F"
  let ?t2 = "set_fork (set_phil ?t1 i ?q2) (succ_of n i) ?G"
  let ?t = "(set_phil ?t2 i ?p)\<lparr>draws := draws t + 1\<rparr>"
  have r: "3 \<le> ?r" "?r < 11" using random_range [of 3 11 rng "draws t"] by auto
  have has: "HasLeftFork (phil t i)" "HasRightFork (phil t i)" "1 \<le> stepsTillStateChange (phil t i)"
    using l(6) assms(3,4) by (auto simp: phil_ok_def Let_def)
  then have held: "takenBy (forks t ! i) = Some i" "fork_state (forks t ! i) = InUse" "\<not> holdsR (phil t (pred_of n i))"
      "takenBy (forks t ! succ_of n i) = Some i" "fork_state (forks t ! succ_of n i) = InUse" "\<not> holdsL (phil t (succ_of n i))"
    using l(11,12) assms(3,4) by (auto simp: fork_matches_def holdsL_def holdsR_def)
  have p1: "PutLeftFork (set_phil t i p) i = Inr ?t1"
    using l held assms(3,4) by (simp add: PutLeftFork_def Put_def Let_def IsAvailable_def)
  have p2: "PutRightFork ?t1 i = Inr ?t2"
    using l held assms(3,4) by (simp add: PutRightFork_def Put_def Let_def IsAvailable_def)
  have p3: "BecomeThinking rng ?t2 i = Inr ?t" using l by (simp add: BecomeThinking_def)
  have "stepped mode n t i ?t"
  proof (rule steppedI [where F' = ?F and G' = ?G and p' = ?p])
    show "phil_ok ?p" using r by (simp add: phil_ok_def)
    show "order_ok mode i ?p" by (simp add: order_ok_def WaitsLeftFork_def WaitsRightFork_def)
    show "fork_matches ?F ?p (phil t (pred_of n i)) i (pred_of n i)" using held by (simp add: fork_matches_def holdsL_def)
    show "fork_matches ?G (phil t (succ_of n i)) ?p (succ_of n i) i" using held by (simp add: fork_matches_def holdsR_def)
    have "nat ?r \<le> 10" "1 \<le> nat (stepsTillStateChange (phil t i))" using r has(3) by linarith+
    then show "progress t i ?p" using assms(3,4) by (simp add: progress_def distance_def)
    show "blocked t i \<longrightarrow> ?F = forks t ! i \<and> ?G = forks t ! succ_of n i" using assms(3,4) by (auto simp: blocked_def)
  qed (use l assms(3) in simp_all)
  then show ?thesis using p1 p2 p3 by simp
qed

lemma NextStep_stepped:
  assumes "table_ok mode n t" and "i < n"
  shows "\<exists>b t'. NextStep rng mode t i = Inr (b, t') \<and> stepped mode n t i t'"
proof (cases "stepsTillStateChange (phil t i) > 1")
  case True
  then show ?thesis by (rule NextStep_counting [OF assms])
next
  case False
  note l = table_ok_local [OF assms]
  let ?s = "stepsTillStateChange (phil t i) - 1" and ?w = "WaitingTime (phil t i) + 1"
  let ?p = "(phil t i)\<lparr>stepsTillStateChange := ?s\<rparr>"
  let ?q = "(phil t i)\<lparr>stepsTillStateChange := ?s, WaitingTime := ?w\<rparr>"
  have aw: "add_waiting (set_phil t i ?p) i = set_phil t i ?q" using l(2) by (simp add: add_waiting_def)
  note hungry = became_hungry_stepped [OF assms, unfolded not_less [symmetric]]
  have ok: "phil_ok (phil t i)" by (rule l(6))
  show ?thesis
  proof (cases "CurrentState (phil t i)")
    case Thinking
    then have "NextStep rng mode t i = Inr (True, set_phil t i (?p\<lparr>CurrentState := Hungry\<rparr>))"
      using l False by (simp add: NextStep_def BecomeHungry_def)
    moreover have "stepped mode n t i (set_phil t i (?p\<lparr>CurrentState := Hungry\<rparr>))"
      using hungry Thinking False by simp
    ultimately show ?thesis by blast
  next
    case Hungry
    show ?thesis
    proof (cases "HasLeftFork ?q \<and> HasRightFork ?q")
      case True
      obtain t' where "BecomeEating rng (set_phil t i ?q) i = Inr t'" "stepped mode n t i t'"
        using BecomeEating_stepped [OF assms refl _ True] Hungry False by auto
      then show ?thesis using l False Hungry True aw by (auto simp: NextStep_def)
    next
      case nf: False
      obtain t' where "DoAction mode (set_phil t i ?q) i = Inr t'" "stepped mode n t i t'"
        using DoAction_stepped [OF assms refl _ nf] Hungry by auto
      then show ?thesis using l False Hungry nf aw by (auto simp: NextStep_def)
    qed
  next
    case Eating
    then show ?thesis using l False Eating_stepped [OF assms refl, of ?s rng] by (auto simp: NextStep_def)
  next
    case WaitingLeftFork
    have "mode \<noteq> Naive \<longrightarrow> i \<noteq> 0 \<longrightarrow> HasRightFork ?q" using l(7) WaitingLeftFork by (auto simp: order_ok_def WaitsLeftFork_def)
    moreover have "\<not> HasLeftFork ?q" using ok WaitingLeftFork by (simp add: phil_ok_def)
    ultimately obtain t' where "TakeLeftFork (set_phil t i ?q) i = Inr t'" "stepped mode n t i t'"
      using TakeLeftFork_stepped [OF assms refl, of ?w ?s] WaitingLeftFork by auto
    then show ?thesis using l False WaitingLeftFork aw by (auto simp: NextStep_def)
  next
    case WaitingRightFork
    have "mode \<noteq> Naive \<longrightarrow> i = 0 \<longrightarrow> HasLeftFork ?q" using l(7) WaitingRightFork by (auto simp: order_ok_def WaitsRightFork_def)
    moreover have "\<not> HasRightFork ?q" using ok WaitingRightFork by (simp add: phil_ok_def)
    ultimately obtain t' where "TakeRightFork (set_phil t i ?q) i = Inr t'" "stepped mode n t i t'"
      using TakeRightFork_stepped [OF assms refl, of ?w ?s] WaitingRightFork by auto
    then show ?thesis using l False WaitingRightFork aw by (auto simp: NextStep_def)
  next
    case TakingLeftFork
    then have "NextStep rng mode t i = Inr (True, set_phil t i (?p\<lparr>HasLeftFork := True, CurrentState := Hungry\<rparr>))"
      using l False by (simp add: NextStep_def BecomeHungry_def)
    moreover have "stepped mode n t i (set_phil t i (?p\<lparr>HasLeftFork := True, CurrentState := Hungry\<rparr>))"
      using hungry TakingLeftFork False by simp
    ultimately show ?thesis by blast
  next
    case TakingRightFork
    then have "NextStep rng mode t i = Inr (True, set_phil t i (?p\<lparr>HasRightFork := True, CurrentState := Hungry\<rparr>))"
      using l False by (simp add: NextStep_def BecomeHungry_def)
    moreover have "stepped mode n t i (set_phil t i (?p\<lparr>HasRightFork := True, CurrentState := Hungry\<rparr>))"
      using hungry TakingRightFork False by simp
    ultimately show ?thesis by blast
  qed
qed

lemma stepped_ok:
  assumes "table_ok mode n t" and "i < n" and "stepped mode n t i t'"
  shows "table_ok mode n t'"
  using assms(3) table_ok_update [OF assms(1,2)] unfolding stepped_def by blast

section \<open>A round\<close>

definition total_distance :: "Table \<Rightarrow> nat" where
  "total_distance t = sum_list (map distance (philosophers t))"

definition total_eaten :: "Table \<Rightarrow> nat" where
  "total_eaten t = sum_list (map Eaten (philosophers t))"

definition view :: "Table \<Rightarrow> (State \<times> bool \<times> bool) list \<times> StepwiseFork list" where
  "view t = (map core (philosophers t), forks t)"

lemma sum_list_map_update:
  fixes f :: "'a \<Rightarrow> nat"
  assumes "i < length xs"
  shows "sum_list (map f (xs[i := x])) + f (xs ! i) = sum_list (map f xs) + f x"
  using assms by (induction xs arbitrary: i) (auto split: nat.splits simp: nth_Cons)

lemma blocked_view:
  assumes "table_ok mode n t" and "table_ok mode n u" and "view t = view u" and "i < n"
  shows "blocked t i = blocked u i"
proof -
  have len: "length (philosophers t) = n" "length (philosophers u) = n" using assms(1,2) by (auto simp: table_ok_def)
  have "map core (philosophers t) = map core (philosophers u)" "forks t = forks u" using assms(3) by (auto simp: view_def)
  then have "core (phil t i) = core (phil u i)" "forks t = forks u"
    using len assms(4) by (metis (no_types, lifting) nth_map phil_def)+
  then show ?thesis using table_ok_local(4,5) [OF assms(1,4)] table_ok_local(4,5) [OF assms(2,4)] by (simp add: blocked_def core_def)
qed

lemma stepped_measure:
  assumes "table_ok mode n t" and "i < n" and "stepped mode n t i t'"
  shows "total_eaten t < total_eaten t' \<or> total_eaten t' = total_eaten t \<and>
    (total_distance t' < total_distance t \<or> total_distance t' = total_distance t \<and> blocked t i \<and> view t' = view t)"
proof -
  note l = table_ok_local [OF assms(1,2)]
  obtain p' F' G' where st: "philosophers t' = (philosophers t)[i := p']" "forks t' = (forks t)[i := F', succ_of n i := G']"
      "progress t i p'" "blocked t i \<longrightarrow> F' = forks t ! i \<and> G' = forks t ! succ_of n i"
    using assms(3) unfolding stepped_def by blast
  have E: "total_eaten t' + Eaten (phil t i) = total_eaten t + Eaten p'"
    using sum_list_map_update [OF l(2), of Eaten p'] st(1) by (simp add: total_eaten_def phil_def)
  have D: "total_distance t' + distance (phil t i) = total_distance t + distance p'"
    using sum_list_map_update [OF l(2), of distance p'] st(1) by (simp add: total_distance_def phil_def)
  have V: "view t' = view t" if "blocked t i" "core p' = core (phil t i)"
  proof -
    have "map core ((philosophers t)[i := p']) = (map core (philosophers t))[i := map core (philosophers t) ! i]"
      using that(2) l(2) by (simp add: map_update phil_def)
    then show ?thesis using st(1,2,4) that(1) by (simp add: view_def)
  qed
  show ?thesis using st(3) E D V unfolding progress_def by auto
qed

lemma step_philosophers_ok:
  assumes "table_ok mode n t" and "\<forall>i \<in> set is. i < n"
  shows "\<exists>b' t'. step_philosophers rng mode is (b, t) = Inr (b', t') \<and> table_ok mode n t' \<and>
    (total_eaten t < total_eaten t' \<or> total_eaten t' = total_eaten t \<and>
      (total_distance t' < total_distance t \<or>
       total_distance t' = total_distance t \<and> view t' = view t \<and> (\<forall>i \<in> set is. blocked t i)))"
  using assms
proof (induction "is" arbitrary: b t)
  case (Cons i js)
  then have i: "i < n" by simp
  obtain c t1 where t1: "NextStep rng mode t i = Inr (c, t1)" "stepped mode n t i t1"
    using NextStep_stepped [OF Cons.prems(1) i] by blast
  note ok1 = stepped_ok [OF Cons.prems(1) i t1(2)] and m1 = stepped_measure [OF Cons.prems(1) i t1(2)]
  obtain b' t' where t': "step_philosophers rng mode js (b \<or> c, t1) = Inr (b', t')" "table_ok mode n t'"
      "total_eaten t1 < total_eaten t' \<or> total_eaten t' = total_eaten t1 \<and>
        (total_distance t' < total_distance t1 \<or>
         total_distance t' = total_distance t1 \<and> view t' = view t1 \<and> (\<forall>i \<in> set js. blocked t1 i))"
    using Cons.IH [OF ok1, of "b \<or> c"] Cons.prems(2) by auto
  have bl: "\<forall>k \<in> set js. blocked t1 k = blocked t k" if "view t1 = view t"
    using blocked_view [OF ok1 Cons.prems(1) that] Cons.prems(2) by simp
  have le: "total_eaten t1 \<le> total_eaten t'" "total_eaten t' = total_eaten t1 \<Longrightarrow> total_distance t' \<le> total_distance t1"
    using t'(3) by linarith+
  have "total_eaten t < total_eaten t' \<or> total_eaten t' = total_eaten t \<and>
      (total_distance t' < total_distance t \<or>
       total_distance t' = total_distance t \<and> view t' = view t \<and> (\<forall>k \<in> set (i # js). blocked t k))"
    using m1
  proof (elim disjE conjE)
    assume "total_eaten t1 = total_eaten t" "total_distance t1 < total_distance t"
    then show ?thesis using le by linarith
  next
    assume eq: "total_eaten t1 = total_eaten t" "total_distance t1 = total_distance t" "blocked t i" "view t1 = view t"
    then show ?thesis using t'(3) bl [OF eq(4)] by auto
  qed (use le in linarith)
  then show ?case using t1(1) t'(1,2) by auto
qed simp

lemma fork_time_ok:
  assumes "table_ok mode n t"
  shows "table_ok mode n (t\<lparr>forks := map Fork_NextStep (forks t)\<rparr>)"
proof -
  have "fork_state (Fork_NextStep f) = fork_state f" "takenBy (Fork_NextStep f) = takenBy f" for f
    by (simp_all add: Fork_NextStep_def split: ForkState.splits)
  then have "fork_matches (Fork_NextStep f) pl pr il ir = fork_matches f pl pr il ir" for f pl pr il ir
    by (simp add: fork_matches_def)
  then show ?thesis using assms by (simp add: table_ok_def phil_def)
qed

text \<open>The forks of philosopher 0 are never all the others wait for: not everybody is blocked.\<close>

lemma not_all_blocked:
  assumes "table_ok mode n t" and "mode \<noteq> Naive"
  shows "\<exists>i < n. \<not> blocked t i"
proof (rule ccontr)
  assume "\<not> (\<exists>i < n. \<not> blocked t i)"
  then have bl: "\<And>i. i < n \<Longrightarrow> blocked t i" by blast
  have n: "2 \<le> n" using assms(1) by (simp add: table_ok_def)
  have w: "CurrentState (phil t i) = WaitingLeftFork \<and> \<not> HasLeftFork (phil t i) \<and> fork_state (forks t ! i) \<noteq> Available \<or>
      CurrentState (phil t i) = WaitingRightFork \<and> \<not> HasRightFork (phil t i) \<and> fork_state (forks t ! succ_of n i) \<noteq> Available" if "i < n" for i
    using bl [OF that] table_ok_local(4-6) [OF assms(1) that] by (auto simp: blocked_def IsAvailable_def phil_ok_def)
  have hold: "holdsL (phil t i) = HasLeftFork (phil t i)" "holdsR (phil t i) = HasRightFork (phil t i)" if "i < n" for i
    using w [OF that] by (auto simp: holdsL_def holdsR_def)
  have ord: "i = 0 \<Longrightarrow> HasRightFork (phil t i) \<or> CurrentState (phil t i) = WaitingRightFork \<Longrightarrow> HasLeftFork (phil t i)"
      "i \<noteq> 0 \<Longrightarrow> HasLeftFork (phil t i) \<or> CurrentState (phil t i) = WaitingLeftFork \<Longrightarrow> HasRightFork (phil t i)" if "i < n" for i
    using table_ok_local(7) [OF assms(1) that] assms(2) by (auto simp: order_ok_def WaitsLeftFork_def WaitsRightFork_def)
  have taken: "HasLeftFork (phil t i) \<or> HasRightFork (phil t (pred_of n i))" if "i < n" "fork_state (forks t ! i) \<noteq> Available" for i
    using table_ok_local(11) [OF assms(1) that(1)] that hold [OF that(1)] hold [OF succ_pred(2) [OF n that(1)]]
    by (auto simp: fork_matches_def split: if_splits)
  have others: "CurrentState (phil t i) = WaitingLeftFork" "HasRightFork (phil t i)" if "i < n" "i \<noteq> 0" "HasRightFork (phil t i)" for i
    using w [OF that(1)] that by auto
  have zero: "CurrentState (phil t 0) = WaitingLeftFork" "fork_state (forks t ! 0) \<noteq> Available" "\<not> HasLeftFork (phil t 0)"
  proof -
    have "\<not> HasLeftFork (phil t 1)" using w [of 1] ord(2) [of 1] n by auto
    moreover have "succ_of n 0 = 1" "pred_of n 1 = 0" using n by (auto simp: succ_of_def pred_of_def)
    ultimately have "CurrentState (phil t 0) \<noteq> WaitingRightFork"
      using w [of 0] taken [of 1] n by auto
    then show "CurrentState (phil t 0) = WaitingLeftFork" "fork_state (forks t ! 0) \<noteq> Available" "\<not> HasLeftFork (phil t 0)"
      using w [of 0] n by auto
  qed
  have chain: "HasRightFork (phil t (n - 1 - k))" if "k < n" for k
    using that
  proof (induction k)
    case 0
    then show ?case using taken [of 0] zero n by (simp add: pred_of_def)
  next
    case (Suc k)
    let ?i = "n - 1 - k"
    have i: "?i < n" "?i \<noteq> 0" "pred_of n ?i = n - 1 - Suc k" using Suc.prems by (auto simp: pred_of_def)
    have "HasRightFork (phil t ?i)" using Suc by simp
    from others [OF i(1,2) this] have "\<not> HasLeftFork (phil t ?i)" "fork_state (forks t ! ?i) \<noteq> Available" using w [OF i(1)] by auto
    then show ?case using taken [OF i(1)] i(3) by simp
  qed
  from chain [of "n - 1"] have "HasRightFork (phil t 0)" using n by simp
  then show False using ord(1) [of 0] zero(3) n by simp
qed

lemma Run_step_ok:
  assumes "table_ok mode n t"
  shows "\<exists>t'. Run_step rng mode t = Inr t' \<and> table_ok mode n t' \<and> total_eaten t \<le> total_eaten t' \<and>
    (mode \<noteq> Naive \<longrightarrow> total_eaten t < total_eaten t' \<or> total_distance t' < total_distance t)"
proof -
  have len: "length (philosophers t) = n" using assms by (simp add: table_ok_def)
  obtain b t' where t': "step_philosophers rng mode [0..<n] (False, t) = Inr (b, t')" "table_ok mode n t'"
      "total_eaten t < total_eaten t' \<or> total_eaten t' = total_eaten t \<and>
        (total_distance t' < total_distance t \<or>
         total_distance t' = total_distance t \<and> view t' = view t \<and> (\<forall>i \<in> set [0..<n]. blocked t i))"
    using step_philosophers_ok [OF assms, of "[0..<n]" rng False] by auto
  let ?t = "t'\<lparr>forks := map Fork_NextStep (forks t')\<rparr>"
  have "Run_step rng mode t = Inr ?t" using t'(1) len by (simp add: Run_step_def)
  moreover have "total_eaten ?t = total_eaten t'" "total_distance ?t = total_distance t'"
    by (simp_all add: total_eaten_def total_distance_def)
  ultimately show ?thesis using t'(3) fork_time_ok [OF t'(2)] not_all_blocked [OF assms] by auto
qed

lemma Run_ok:
  assumes "table_ok mode n t"
  shows "\<exists>t'. Run rng mode k t = Inr t' \<and> table_ok mode n t' \<and> total_eaten t \<le> total_eaten t'"
  using assms
proof (induction k arbitrary: t)
  case (Suc k)
  then obtain t1 where t1: "Run_step rng mode t = Inr t1" "table_ok mode n t1" "total_eaten t \<le> total_eaten t1"
    using Run_step_ok by blast
  with Suc.IH [OF t1(2)] show ?case by (auto intro: order_trans)
qed simp

lemma Run_eats:
  assumes "table_ok mode n t" and "mode \<noteq> Naive" and "total_distance t < k"
  shows "\<exists>t'. Run rng mode k t = Inr t' \<and> total_eaten t < total_eaten t'"
  using assms
proof (induction k arbitrary: t)
  case (Suc k)
  obtain t1 where t1: "Run_step rng mode t = Inr t1" "table_ok mode n t1" "total_eaten t \<le> total_eaten t1"
      "total_eaten t < total_eaten t1 \<or> total_distance t1 < total_distance t"
    using Run_step_ok [OF Suc.prems(1)] Suc.prems(2) by blast
  show ?case
  proof (cases "total_eaten t < total_eaten t1")
    case True
    then show ?thesis using t1(1) Run_ok [OF t1(2), of rng k] by auto
  next
    case False
    then have "total_distance t1 < k" using t1(4) Suc.prems(3) by auto
    from Suc.IH [OF t1(2) Suc.prems(2) this] show ?thesis using t1(1,3) by auto
  qed
qed simp

lemma distance_bound: "phil_ok p \<Longrightarrow> distance p \<le> 24"
  by (auto simp: phil_ok_def distance_def Let_def split: State.splits)

lemma total_distance_bound:
  assumes "table_ok mode n t"
  shows "total_distance t \<le> 24 * n"
proof -
  have len: "length (philosophers t) = n" using assms by (simp add: table_ok_def)
  have "\<forall>p \<in> set (philosophers t). distance p \<le> 24"
    using assms distance_bound by (auto simp: table_ok_def phil_def in_set_conv_nth)
  then have "total_distance t \<le> sum_list (map (\<lambda>p. 24) (philosophers t))"
    unfolding total_distance_def by (intro sum_list_mono) simp
  then show ?thesis using len by (simp add: sum_list_triv)
qed

lemma new_table_ok: "2 \<le> n \<Longrightarrow> table_ok mode n (StepwiseTableManager rng n)"
proof -
  assume n: "2 \<le> n"
  have ph: "phil (StepwiseTableManager rng n) i = new_philosopher rng i i i (succ_of n i)" if "i < n" for i
    using that n by (auto simp: phil_def StepwiseTableManager_def succ_of_def)
  have ok: "phil_ok (new_philosopher rng k i l r)" for k i l r
    using random_range [of 3 11 rng k] by (simp add: new_philosopher_def phil_ok_def)
  have ord: "order_ok mode i (new_philosopher rng k i l r)" for k i l r
    by (simp add: new_philosopher_def order_ok_def WaitsLeftFork_def WaitsRightFork_def)
  have fm: "fork_matches new_fork (new_philosopher rng k i l r) (new_philosopher rng k' i' l' r') a b" for k i l r k' i' l' r' a b
    by (simp add: new_philosopher_def fork_matches_def holdsL_def holdsR_def new_fork_def)
  have len: "length (philosophers (StepwiseTableManager rng n)) = n" "forks (StepwiseTableManager rng n) = replicate n new_fork"
    by (simp_all add: StepwiseTableManager_def)
  show ?thesis
    unfolding table_ok_def len
    using n ok ord fm succ_pred(2) [OF n] by (simp add: ph) (simp add: new_philosopher_def)
qed

section \<open>Properties\<close>

text \<open>C22: with at least two philosophers, any strategy or the coordinator, any random numbers and any number of steps, no
  assertion of the simulation fails, and a philosopher who eats holds both forks while none of the neighbours eats.\<close>

theorem philosophers_exclude_each_other:
  assumes "2 \<le> n"
  shows "\<exists>t. Run rng mode k (StepwiseTableManager rng n) = Inr t \<and>
    (\<forall>i < n. CurrentState (philosophers t ! i) = Eating \<longrightarrow>
       takenBy (forks t ! i) = Some i \<and> takenBy (forks t ! ((i + 1) mod n)) = Some i \<and>
       CurrentState (philosophers t ! ((i + 1) mod n)) \<noteq> Eating)"
proof -
  obtain t where t: "Run rng mode k (StepwiseTableManager rng n) = Inr t" "table_ok mode n t"
    using Run_ok [OF new_table_ok [OF assms], of rng mode k rng] by blast
  have "takenBy (forks t ! i) = Some i \<and> takenBy (forks t ! ((i + 1) mod n)) = Some i \<and>
      CurrentState (philosophers t ! ((i + 1) mod n)) \<noteq> Eating"
    if i: "i < n" and e: "CurrentState (philosophers t ! i) = Eating" for i
  proof -
    note l = table_ok_local [OF t(2) i]
    have sm: "(i + 1) mod n = succ_of n i" using i by (simp add: succ_of_def)
    have h: "holdsL (phil t i)" "holdsR (phil t i)" using l(6) e by (auto simp: phil_ok_def holdsL_def holdsR_def phil_def Let_def)
    then have nh: "\<not> holdsL (phil t (succ_of n i))" using l(12) by (simp add: fork_matches_def)
    have "CurrentState (phil t (succ_of n i)) \<noteq> Eating"
      using nh table_ok_local(6) [OF t(2) succ_pred(1) [OF assms i]] by (auto simp: phil_ok_def holdsL_def Let_def)
    then show ?thesis unfolding sm using l(11,12) h nh by (simp add: fork_matches_def phil_def)
  qed
  then show ?thesis using t(1) by blast
qed

theorem philosophers_exclude_each_other_witness:
  "\<exists>t. Run (\<lambda>k. k) Naive 30 (StepwiseTableManager (\<lambda>k. k) 5) = Inr t \<and>
    (\<forall>i < 5. CurrentState (philosophers t ! i) = Eating \<longrightarrow>
       takenBy (forks t ! i) = Some i \<and> takenBy (forks t ! ((i + 1) mod 5)) = Some i \<and>
       CurrentState (philosophers t ! ((i + 1) mod 5)) \<noteq> Eating)"
  by (rule philosophers_exclude_each_other) simp

text \<open>C23: with the resource hierarchy the table never starves: whatever has happened in \<open>k\<close> steps of a new simulation with at
  least two philosophers, within the next \<open>24 * n + 1\<close> steps somebody starts another meal.\<close>

theorem philosophers_keep_eating:
  assumes "2 \<le> n"
  shows "\<exists>t0 t t'. StepwiseSimulation rng ResourceHierarchy n = Some t0 \<and> Run rng ResourceHierarchy k t0 = Inr t \<and>
    Run rng ResourceHierarchy (24 * n + 1) t = Inr t' \<and> total_eaten t < total_eaten t'"
proof -
  obtain t where t: "Run rng ResourceHierarchy k (StepwiseTableManager rng n) = Inr t" "table_ok ResourceHierarchy n t"
    using Run_ok [OF new_table_ok [OF assms], of rng ResourceHierarchy k rng] by blast
  have "total_distance t < 24 * n + 1" using total_distance_bound [OF t(2)] by simp
  then show ?thesis using Run_eats [OF t(2)] t(1) by (fastforce simp: StepwiseSimulation_def)
qed

theorem philosophers_keep_eating_witness:
  "\<exists>t0 t t'. StepwiseSimulation (\<lambda>k. 0) ResourceHierarchy 5 = Some t0 \<and> Run (\<lambda>k. 0) ResourceHierarchy 100 t0 = Inr t \<and>
    Run (\<lambda>k. 0) ResourceHierarchy (24 * 5 + 1) t = Inr t' \<and> total_eaten t < total_eaten t'"
  by (rule philosophers_keep_eating) simp

text \<open>C24: the deadlock detector misses no deadlock: if after any number of steps every philosopher waits for a fork that
  somebody else holds, it reports one.\<close>

theorem deadlock_is_detected:
  assumes "2 \<le> n" and "Run rng mode k (StepwiseTableManager rng n) = Inr t" and "\<forall>i < n. blocked t i"
  shows "DeadlockDetector_Check t"
proof -
  have ok: "table_ok mode n t" using Run_ok [OF new_table_ok [OF assms(1)], of rng mode k rng] assms(2) by auto
  then have len: "length (philosophers t) = n" by (simp add: table_ok_def)
  have "(WaitsLeftFork p \<or> WaitsRightFork p) \<and> (\<not> HasLeftFork p \<or> \<not> HasRightFork p)" if p: "p \<in> set (philosophers t)" for p
  proof -
    obtain i where i: "i < n" "p = phil t i" using p len by (auto simp: in_set_conv_nth phil_def)
    have "blocked t i" "phil_ok p" using assms(3) i table_ok_local(6) [OF ok i(1)] by auto
    then show ?thesis using i(2) by (auto simp: blocked_def phil_ok_def WaitsLeftFork_def WaitsRightFork_def)
  qed
  then show ?thesis by (auto simp: DeadlockDetector_Check_def list_all_iff)
qed

text \<open>Two naive philosophers who think equally long are in such a deadlock after nine steps.\<close>

lemma naive_deadlock:
  "case Run (\<lambda>k. 0) Naive 9 (StepwiseTableManager (\<lambda>k. 0) 2) of
     Inl e \<Rightarrow> False | Inr t \<Rightarrow> blocked t 0 \<and> blocked t 1"
  by code_simp

theorem deadlock_is_detected_witness:
  "\<exists>t. Run (\<lambda>k. 0) Naive 9 (StepwiseTableManager (\<lambda>k. 0) 2) = Inr t \<and> DeadlockDetector_Check t"
proof -
  obtain t where t: "Run (\<lambda>k. 0) Naive 9 (StepwiseTableManager (\<lambda>k. 0) 2) = Inr t" "blocked t 0" "blocked t 1"
    using naive_deadlock by (auto split: sum.splits)
  have "\<forall>i < 2. blocked t i" using t(2,3) by (auto simp: less_2_cases_iff)
  from deadlock_is_detected [OF _ t(1) this] t(1) show ?thesis by simp
qed

section \<open>Where the code goes wrong\<close>

text \<open>The detector also fires while everybody is still taking a fork, although nobody is blocked for ever.\<close>

lemma false_alarm:
  "case Run (\<lambda>k. 0) ResourceHierarchy 5 (StepwiseTableManager (\<lambda>k. 0) 3) of
     Inl e \<Rightarrow> False | Inr t \<Rightarrow> DeadlockDetector_Check t \<and> \<not> blocked t 0"
  by code_simp

text \<open>Setting a coordinator at a table with philosophers never returns.\<close>

lemma SetCoordinator_diverges: "0 < n \<Longrightarrow> SetCoordinator n = None"
proof -
  have "n = 0" if "SetCoordinator n = Some y" for n y
    using that by (rule SetCoordinator.raw_induct [rotated]) (auto split: if_splits)
  then show "0 < n \<Longrightarrow> SetCoordinator n = None" by (cases "SetCoordinator n") auto
qed

lemma coordinator_never_starts: "0 < n \<Longrightarrow> StepwiseSimulation rng Coordinator n = None"
  by (simp add: StepwiseSimulation_def SetCoordinator_diverges)

end
