(* ===== verification/Shared_Queue.thy ===== *)
theory Shared_Queue
  imports C_Heap C_Stdio Data_Refinement
begin

text \<open>
  \<open>OS-Labs/10-sync/queue.h\<close>, \<open>queue.c\<close> and \<open>queue-example.c\<close>: a bounded queue of \<open>int\<close> as a singly linked list with
  statistics, called by one thread.  The statements of \<open>queue_add\<close> and \<open>queue_get\<close> that touch the structure are
  definitions of their own, since the versions of the queue for several threads interleave at their boundaries.
  The operations are proved to refine a list bounded by \<open>max_count\<close>; every node and the queue
  itself are freed exactly once.
\<close>

section \<open>Definitions\<close>

record qnode_t =
  val :: int
  next_qnode :: ptr

text \<open>\<open>queue_mem\<close> tells whether the memory of the structure itself is allocated.\<close>

record queue_t =
  queue_mem :: block
  qnodes :: "qnode_t heap"
  first_q :: ptr
  last_q :: ptr
  qcount :: int
  max_count :: int
  add_attempts :: int
  get_attempts :: int
  add_count :: int
  get_count :: int

text \<open>The result of a \<open>long\<close> operation, and \<open>abort\<close> after a message.\<close>

definition ckd_long :: "int \<Rightarrow> int res" where
  "ckd_long v = (if - (2 ^ 63) \<le> v \<and> v < 2 ^ 63 then Inr v else Inl Undefined)"

definition abort_with :: "string \<Rightarrow> 'a res" where
  "abort_with msg = Inl (Exit 134 msg)"

definition newline :: string where
  "newline = [CHR 0x0A]"

definition fresh_queue :: "int \<Rightarrow> queue_t" where
  "fresh_queue mc = \<lparr>queue_mem = Live, qnodes = empty_heap, first_q = None, last_q = None, qcount = 0, max_count = mc,
     add_attempts = 0, get_attempts = 0, add_count = 0, get_count = 0\<rparr>"

text \<open>The outcome of \<open>malloc\<close> and the error number of \<open>pthread_create\<close> (0: none) come from the system.\<close>

definition queue_init :: "(int \<Rightarrow> string) \<Rightarrow> bool \<Rightarrow> int \<Rightarrow> int \<Rightarrow> queue_t res" where
  "queue_init strerror q_ok err mc =
     (if \<not> q_ok then abort_with (''Cannot allocate memory for a queue'' @ newline)
      else if err \<noteq> 0 then abort_with (''queue_init: pthread_create() failed: '' @ strerror err @ newline)
      else Inr (fresh_queue mc))"

text \<open>The statements of \<open>queue_add\<close>.\<close>

definition attempt_add :: "queue_t \<Rightarrow> queue_t res" where
  "attempt_add q = deref (queue_mem q) (bindR (ckd_long (add_attempts q + 1)) (\<lambda>v. Inr (q\<lparr>add_attempts := v\<rparr>)))"

definition new_node :: "mem \<Rightarrow> queue_t \<Rightarrow> int \<Rightarrow> (ptr \<times> mem \<times> queue_t) res" where
  "new_node mem q v =
     (case alloc mem of (ok, mem') \<Rightarrow>
        if \<not> ok then abort_with (''Cannot allocate memory for new node'' @ newline)
        else (case h_alloc (qnodes q) \<lparr>val = v, next_qnode = None\<rparr> of (a, h) \<Rightarrow>
                Inr (Some a, mem', q\<lparr>qnodes := h\<rparr>)))"

definition link_first :: "queue_t \<Rightarrow> ptr \<Rightarrow> queue_t" where
  "link_first q new = q\<lparr>first_q := new, last_q := new\<rparr>"

definition link_next :: "queue_t \<Rightarrow> ptr \<Rightarrow> queue_t res" where
  "link_next q new =
     bindR (h_load (qnodes q) (last_q q)) (\<lambda>n.
     bindR (h_store (qnodes q) (last_q q) (n\<lparr>next_qnode := new\<rparr>)) (\<lambda>h. Inr (q\<lparr>qnodes := h\<rparr>)))"

definition move_last :: "queue_t \<Rightarrow> queue_t res" where
  "move_last q = bindR (h_load (qnodes q) (last_q q)) (\<lambda>n. Inr (q\<lparr>last_q := next_qnode n\<rparr>))"

definition count_up :: "queue_t \<Rightarrow> queue_t res" where
  "count_up q = bindR (ckd (qcount q + 1)) (\<lambda>v. Inr (q\<lparr>qcount := v\<rparr>))"

definition added :: "queue_t \<Rightarrow> queue_t res" where
  "added q = bindR (ckd_long (add_count q + 1)) (\<lambda>v. Inr (q\<lparr>add_count := v\<rparr>))"

definition queue_add :: "mem \<Rightarrow> queue_t \<Rightarrow> int \<Rightarrow> (int \<times> mem \<times> queue_t) res" where
  "queue_add mem q v =
     bindR (attempt_add q) (\<lambda>q.
     assertR (qcount q \<le> max_count q)
     (if qcount q = max_count q then Inr (0, mem, q)
      else bindR (new_node mem q v) (\<lambda>(new, mem, q).
           bindR (if first_q q = None then Inr (link_first q new) else bindR (link_next q new) move_last) (\<lambda>q.
           bindR (count_up q) (\<lambda>q.
           bindR (added q) (\<lambda>q. Inr (1, mem, q)))))))"

text \<open>The statements of \<open>queue_get\<close>.\<close>

definition attempt_get :: "queue_t \<Rightarrow> queue_t res" where
  "attempt_get q = deref (queue_mem q) (bindR (ckd_long (get_attempts q + 1)) (\<lambda>v. Inr (q\<lparr>get_attempts := v\<rparr>)))"

definition read_val :: "queue_t \<Rightarrow> ptr \<Rightarrow> int res" where
  "read_val q tmp = bindR (h_load (qnodes q) tmp) (\<lambda>n. Inr (val n))"

definition unlink_first :: "queue_t \<Rightarrow> queue_t res" where
  "unlink_first q = bindR (h_load (qnodes q) (first_q q)) (\<lambda>n. Inr (q\<lparr>first_q := next_qnode n\<rparr>))"

definition free_node :: "queue_t \<Rightarrow> ptr \<Rightarrow> queue_t res" where
  "free_node q tmp = bindR (h_free (qnodes q) tmp) (\<lambda>h. Inr (q\<lparr>qnodes := h\<rparr>))"

definition count_down :: "queue_t \<Rightarrow> queue_t res" where
  "count_down q = bindR (ckd (qcount q - 1)) (\<lambda>v. Inr (q\<lparr>qcount := v\<rparr>))"

definition taken :: "queue_t \<Rightarrow> queue_t res" where
  "taken q = bindR (ckd_long (get_count q + 1)) (\<lambda>v. Inr (q\<lparr>get_count := v\<rparr>))"

text \<open>The second component is the new content of \<open>*val\<close>.\<close>

definition queue_get :: "queue_t \<Rightarrow> int \<Rightarrow> (int \<times> int \<times> queue_t) res" where
  "queue_get q v =
     bindR (attempt_get q) (\<lambda>q.
     assertR (0 \<le> qcount q)
     (if qcount q = 0 then Inr (0, v, q)
      else let tmp = first_q q in
           bindR (read_val q tmp) (\<lambda>v.
           bindR (unlink_first q) (\<lambda>q.
           bindR (free_node q tmp) (\<lambda>q.
           bindR (count_down q) (\<lambda>q.
           bindR (taken q) (\<lambda>q. Inr (1, v, q))))))))"

function free_nodes :: "qnode_t heap \<Rightarrow> ptr \<Rightarrow> qnode_t heap res" where
  "free_nodes h n =
     (if n = None then Inr h
      else bindR (h_load h n) (\<lambda>nd.
           bindR (h_free h n) (\<lambda>h'. free_nodes h' (next_qnode nd))))"
  by pat_completeness auto
termination
  by (relation "measure (\<lambda>(h, n). length (cells h))") (auto simp: h_free_shrinks)

declare free_nodes.simps [simp del]

text \<open>The results of \<open>pthread_cancel\<close> and \<open>pthread_join\<close> come from the system; what is left are the nodes still
  allocated and the pointer, which dangles.\<close>

definition queue_destroy :: "int \<Rightarrow> int \<Rightarrow> string \<Rightarrow> queue_t \<Rightarrow> queue_t res" where
  "queue_destroy cancelled joined err q =
     deref (queue_mem q)
     (if cancelled = -1 \<or> joined = -1 then abort_with (''Falied to cancel qmonitor thread: '' @ err)
      else bindR (free_nodes (qnodes q) (first_q q)) (\<lambda>h.
           bindR (free_block (queue_mem q)) (\<lambda>b. Inr (q\<lparr>queue_mem := b, qnodes := h\<rparr>))))"

definition queue_print_stats :: "queue_t \<Rightarrow> string" where
  "queue_print_stats q =
     ''queue stats: current size '' @ show_int (qcount q) @
     ''; attempts: ('' @ show_int (add_attempts q) @ '' '' @ show_int (get_attempts q) @ '' '' @
       show_int (add_attempts q - get_attempts q) @
     ''); counts ('' @ show_int (add_count q) @ '' '' @ show_int (get_count q) @ '' '' @
       show_int (add_count q - get_count q) @ '')'' @ newline"

text \<open>\<open>queue-example.c\<close>: the two loops of \<open>main\<close> and the lines they print.\<close>

fun example_add :: "mem \<Rightarrow> queue_t \<Rightarrow> int list \<Rightarrow> (string \<times> mem \<times> queue_t) res" where
  "example_add mem q [] = Inr ([], mem, q)"
| "example_add mem q (i # is) =
     bindR (queue_add mem q i) (\<lambda>(ok, mem, q).
     bindR (example_add mem q is) (\<lambda>(out, mem, q').
     Inr (''ok '' @ show_int ok @ '': add value '' @ show_int i @ newline @ queue_print_stats q @ out, mem, q')))"

primrec example_get :: "queue_t \<Rightarrow> nat \<Rightarrow> (string \<times> queue_t) res" where
  "example_get q 0 = Inr ([], q)"
| "example_get q (Suc k) =
     bindR (queue_get q (-1)) (\<lambda>(ok, v, q).
     bindR (example_get q k) (\<lambda>(out, q').
     Inr (''ok: '' @ show_int ok @ '': get value '' @ show_int v @ newline @ queue_print_stats q @ out, q')))"

definition example_main :: "(int \<Rightarrow> string) \<Rightarrow> bool \<Rightarrow> int \<Rightarrow> mem \<Rightarrow> int \<Rightarrow> int \<Rightarrow> string \<Rightarrow> (string \<times> queue_t) res" where
  "example_main strerror q_ok err mem cancelled joined msg =
     bindR (queue_init strerror q_ok err 1000) (\<lambda>q.
     bindR (example_add mem q [0..9]) (\<lambda>(out, mem, q).
     bindR (example_get q 12) (\<lambda>(out', q).
     bindR (queue_destroy cancelled joined msg q) (\<lambda>q. Inr (out @ out', q)))))"

section \<open>The representation\<close>

text \<open>\<open>nseg h p as xs\<close>: from \<open>p\<close> the nodes at \<open>as\<close> follow each other, hold \<open>xs\<close> and end with NULL.\<close>

fun nseg :: "qnode_t heap \<Rightarrow> ptr \<Rightarrow> nat list \<Rightarrow> int list \<Rightarrow> bool" where
  "nseg h p [] [] \<longleftrightarrow> p = None"
| "nseg h p (a # as) (x # xs) \<longleftrightarrow>
     p = Some a \<and> (\<exists>n. lookup h a = Some n \<and> val n = x \<and> nseg h (next_qnode n) as xs)"
| "nseg h p _ _ \<longleftrightarrow> False"

lemma nseg_Nil [simp]: "nseg h p [] xs \<longleftrightarrow> p = None \<and> xs = []" "nseg h p as [] \<longleftrightarrow> p = None \<and> as = []"
  by (cases xs; simp) (cases as; simp)

lemma nseg_None [simp]: "nseg h None as xs \<longleftrightarrow> as = [] \<and> xs = []"
  by (cases "(h, None :: ptr, as, xs)" rule: nseg.cases) auto

lemma nseg_length: "nseg h p as xs \<Longrightarrow> length as = length xs"
  by (induction h p as xs rule: nseg.induct) auto

lemma nseg_allocated: "nseg h p as xs \<Longrightarrow> a \<in> set as \<Longrightarrow> lookup h a \<noteq> None"
  by (induction h p as xs rule: nseg.induct) auto

lemma nseg_frame:
  "nseg h p as xs \<Longrightarrow> (\<And>a. a \<in> set as \<Longrightarrow> lookup h' a = lookup h a) \<Longrightarrow> nseg h' p as xs"
  by (induction h p as xs rule: nseg.induct) auto

lemma nseg_last:
  "nseg h p as xs \<Longrightarrow> as \<noteq> [] \<Longrightarrow> \<exists>n. lookup h (last as) = Some n \<and> next_qnode n = None"
  by (induction h p as xs rule: nseg.induct) auto

lemma nseg_snoc:
  assumes "nseg h p as xs" and "as \<noteq> []" and "distinct as" and "lookup h (last as) = Some b"
    and "lookup h a = Some n" and "next_qnode n = None" and "a \<notin> set as"
    and "lookup h' = (lookup h)(last as \<mapsto> b\<lparr>next_qnode := Some a\<rparr>)"
  shows "nseg h' p (as @ [a]) (xs @ [val n])"
  using assms
proof (induction h p as xs rule: nseg.induct)
  case (2 h p c as x xs)
  then show ?case by (cases "as = []") (auto split: if_splits)
qed auto

text \<open>The nodes of a queue are those of its chain and the set \<open>ex\<close> of nodes that are being linked or unlinked.\<close>

definition qrep :: "queue_t \<Rightarrow> nat set \<Rightarrow> nat list \<Rightarrow> int list \<Rightarrow> bool" where
  "qrep q ex as xs \<longleftrightarrow> queue_mem q = Live \<and> heap_ok (qnodes q) \<and> nseg (qnodes q) (first_q q) as xs \<and> distinct as \<and>
     {a. lookup (qnodes q) a \<noteq> None} = set as \<union> ex \<and> ex \<inter> set as = {}"

lemma qrep_simps [simp]:
  "qrep (q\<lparr>last_q := l\<rparr>) ex as xs = qrep q ex as xs" "qrep (q\<lparr>qcount := c\<rparr>) ex as xs = qrep q ex as xs"
  "qrep (q\<lparr>add_attempts := c\<rparr>) ex as xs = qrep q ex as xs" "qrep (q\<lparr>get_attempts := c\<rparr>) ex as xs = qrep q ex as xs"
  "qrep (q\<lparr>add_count := c\<rparr>) ex as xs = qrep q ex as xs" "qrep (q\<lparr>get_count := c\<rparr>) ex as xs = qrep q ex as xs"
  by (simp_all add: qrep_def)

lemma qrep_fresh [simp]: "qrep (fresh_queue mc) {} [] []"
  by (simp add: qrep_def fresh_queue_def)

lemma qrep_first: "qrep q ex as xs \<Longrightarrow> first_q q = (if as = [] then None else Some (hd as))"
  by (cases as; cases xs) (auto simp: qrep_def)

lemma qrep_length: "qrep q ex as xs \<Longrightarrow> length as = length xs"
  by (auto simp: qrep_def dest: nseg_length)

lemma qrep_alloc: "qrep q ex as xs \<Longrightarrow> lookup (qnodes q) b \<noteq> None \<longleftrightarrow> b \<in> set as \<or> b \<in> ex"
  by (auto simp: qrep_def set_eq_iff)

text \<open>What each statement does to the chain.\<close>

lemma new_node_ok:
  assumes "qrep q {} as xs" and "new_node mem q v = Inr (new, mem', q')"
  shows "\<exists>a. new = Some a \<and> qrep q' {a} as xs \<and> lookup (qnodes q') a = Some \<lparr>val = v, next_qnode = None\<rparr> \<and>
           (\<exists>h. q' = q\<lparr>qnodes := h\<rparr>)"
proof -
  obtain a h where h: "h_alloc (qnodes q) \<lparr>val = v, next_qnode = None\<rparr> = (a, h)" by fastforce
  then have r: "new = Some a" "q' = q\<lparr>qnodes := h\<rparr>"
    using assms(2) by (auto simp: new_node_def abort_with_def split: prod.splits if_splits)
  have ok: "heap_ok (qnodes q)" using assms(1) by (simp add: qrep_def)
  note l = h_alloc_ok [OF ok h]
  have "a \<notin> set as" using qrep_alloc [OF assms(1), of a] l(1) by auto
  moreover have "nseg h (first_q q) as xs"
  proof (rule nseg_frame [of "qnodes q"])
    show "nseg (qnodes q) (first_q q) as xs" using assms(1) by (simp add: qrep_def)
    show "lookup h b = lookup (qnodes q) b" if "b \<in> set as" for b using that calculation by (auto simp: l(2))
  qed
  moreover have "{b. lookup h b \<noteq> None} = insert a {b. lookup (qnodes q) b \<noteq> None}" unfolding l(2) by auto
  ultimately have "qrep q' {a} as xs" using assms(1) l(3) unfolding r qrep_def by simp
  moreover have "lookup (qnodes q') a = Some \<lparr>val = v, next_qnode = None\<rparr>" unfolding r by (simp add: l(2))
  ultimately show ?thesis using r by blast
qed

lemma new_node_fault: "new_node mem q v = Inl f \<Longrightarrow> f = Exit 134 (''Cannot allocate memory for new node'' @ newline)"
  by (auto simp: new_node_def abort_with_def split: prod.splits if_splits)

lemma link_first_ok:
  assumes "qrep q {a} [] []" and "lookup (qnodes q) a = Some n" and "next_qnode n = None"
  shows "qrep (link_first q (Some a)) {} [a] [val n]"
  using assms by (auto simp: qrep_def link_first_def)

lemma link_next_ok:
  assumes "qrep q {a} as xs" and "as \<noteq> []" and "last_q q = Some (last as)"
    and "lookup (qnodes q) a = Some n" and "next_qnode n = None"
  shows "\<exists>h. link_next q (Some a) = Inr (q\<lparr>qnodes := h\<rparr>) \<and> qrep (q\<lparr>qnodes := h\<rparr>) {} (as @ [a]) (xs @ [val n])"
proof -
  have ok: "heap_ok (qnodes q)" "nseg (qnodes q) (first_q q) as xs" "distinct as" "a \<notin> set as"
    "{b. lookup (qnodes q) b \<noteq> None} = insert a (set as)" "queue_mem q = Live"
    using assms(1) by (auto simp: qrep_def)
  obtain b where b: "lookup (qnodes q) (last as) = Some b" using nseg_last [OF ok(2) assms(2)] by blast
  obtain h where h: "h_store (qnodes q) (Some (last as)) (b\<lparr>next_qnode := Some a\<rparr>) = Inr h"
    "lookup h = (lookup (qnodes q))(last as \<mapsto> b\<lparr>next_qnode := Some a\<rparr>)" "heap_ok h"
    using h_store_ok [OF b, of "b\<lparr>next_qnode := Some a\<rparr>"] ok(1) by blast
  have "nseg h (first_q q) (as @ [a]) (xs @ [val n])"
    by (rule nseg_snoc [OF ok(2) assms(2) ok(3) b assms(4,5) ok(4) h(2)])
  moreover have "{c. lookup h c \<noteq> None} = {c. lookup (qnodes q) c \<noteq> None}" using h(2) b by auto
  ultimately have "qrep (q\<lparr>qnodes := h\<rparr>) {} (as @ [a]) (xs @ [val n])" using h(3) ok(3-6) by (simp add: qrep_def)
  moreover have "link_next q (Some a) = Inr (q\<lparr>qnodes := h\<rparr>)" using h(1) b assms(3) by (simp add: link_next_def)
  ultimately show ?thesis by blast
qed

lemma nseg_snoc_next:
  "nseg h p (as @ [a]) xs \<Longrightarrow> as \<noteq> [] \<Longrightarrow> \<exists>n. lookup h (last as) = Some n \<and> next_qnode n = Some a"
proof (induction as arbitrary: p xs)
  case (Cons c as)
  then show ?case by (cases xs; cases "as = []"; cases "tl xs") auto
qed simp

lemma move_last_ok:
  assumes "qrep q {} (as @ [a]) xs" and "as \<noteq> []" and "last_q q = Some (last as)"
  shows "move_last q = Inr (q\<lparr>last_q := Some a\<rparr>)"
  using assms nseg_snoc_next [of "qnodes q" "first_q q" as a xs] by (auto simp: move_last_def qrep_def)

lemma read_val_ok: "qrep q ex (a # as) (x # xs) \<Longrightarrow> read_val q (Some a) = Inr x"
  by (auto simp: read_val_def qrep_def)

lemma unlink_first_ok:
  assumes "qrep q {} (a # as) (x # xs)"
  shows "\<exists>p. unlink_first q = Inr (q\<lparr>first_q := p\<rparr>) \<and> qrep (q\<lparr>first_q := p\<rparr>) {a} as xs"
  using assms by (auto simp: unlink_first_def qrep_def)

lemma free_node_ok:
  assumes "qrep q {a} as xs"
  shows "\<exists>h. free_node q (Some a) = Inr (q\<lparr>qnodes := h\<rparr>) \<and> qrep (q\<lparr>qnodes := h\<rparr>) {} as xs"
proof -
  obtain w where w: "lookup (qnodes q) a = Some w" using assms by (auto simp: qrep_def)
  obtain h where h: "h_free (qnodes q) (Some a) = Inr h" "lookup h = (lookup (qnodes q))(a := None)" "heap_ok h"
    using h_free_ok [OF w] assms by (auto simp: qrep_def)
  have "nseg h (first_q q) as xs"
  proof (rule nseg_frame [of "qnodes q"])
    show "nseg (qnodes q) (first_q q) as xs" using assms by (simp add: qrep_def)
    show "lookup h b = lookup (qnodes q) b" if "b \<in> set as" for b using that assms by (auto simp: h(2) qrep_def)
  qed
  moreover have "{c. lookup h c \<noteq> None} = {c. lookup (qnodes q) c \<noteq> None} - {a}" using h(2) by auto
  ultimately have "qrep (q\<lparr>qnodes := h\<rparr>) {} as xs" using h(3) assms by (auto simp: qrep_def)
  moreover have "free_node q (Some a) = Inr (q\<lparr>qnodes := h\<rparr>)" using h(1) by (simp add: free_node_def)
  ultimately show ?thesis by blast
qed

lemma free_nodes_ok:
  assumes "qrep q {} as xs"
  shows "\<exists>h. free_nodes (qnodes q) (first_q q) = Inr h \<and> (\<forall>a. lookup h a = None)"
  using assms
proof (induction as arbitrary: q xs)
  case Nil
  then show ?case by (auto simp: qrep_def free_nodes.simps)
next
  case (Cons a as)
  then obtain x ys where xs: "xs = x # ys" by (cases xs) (auto simp: qrep_def)
  then obtain n where n: "first_q q = Some a" "lookup (qnodes q) a = Some n"
    using Cons.prems by (auto simp: qrep_def)
  have u: "unlink_first q = Inr (q\<lparr>first_q := next_qnode n\<rparr>)" using n by (simp add: unlink_first_def)
  then have "qrep (q\<lparr>first_q := next_qnode n\<rparr>) {a} as ys" using unlink_first_ok Cons.prems xs by fastforce
  from free_node_ok [OF this] obtain h where h: "h_free (qnodes q) (Some a) = Inr h"
      "qrep (q\<lparr>first_q := next_qnode n, qnodes := h\<rparr>) {} as ys"
    by (auto simp: free_node_def)
  from Cons.IH [OF h(2)] show ?case using n h(1) by (simp add: free_nodes.simps [of "qnodes q"])
qed

lemma queue_destroy_ok:
  assumes "qrep q {} as xs" and "cancelled \<noteq> -1" and "joined \<noteq> -1"
  shows "\<exists>q'. queue_destroy cancelled joined err q = Inr q' \<and> (\<forall>a. lookup (qnodes q') a = None) \<and> queue_mem q' = Freed"
proof -
  have "queue_mem q = Live" using assms(1) by (simp add: qrep_def)
  then show ?thesis using free_nodes_ok [OF assms(1)] assms(2,3) by (auto simp: queue_destroy_def)
qed

section \<open>The queue refines a bounded list\<close>

datatype queue_op = Add int | Get

text \<open>The state of a client: the queue, and the result codes and values it has got so far, newest last.\<close>

fun queue_step :: "queue_op \<Rightarrow> queue_t \<times> (int \<times> int) list \<Rightarrow> (queue_t \<times> (int \<times> int) list) res" where
  "queue_step (Add v) (q, rs) = bindR (queue_add [] q v) (\<lambda>(ok, _, q). Inr (q, rs @ [(ok, v)]))"
| "queue_step Get (q, rs) = bindR (queue_get q (-1)) (\<lambda>(ok, v, q). Inr (q, rs @ [(ok, v)]))"

text \<open>The specification: a list of at most \<open>m\<close> elements; the first component counts the operations.\<close>

fun queue_spec :: "queue_op \<Rightarrow> nat \<times> nat \<times> int list \<times> (int \<times> int) list \<Rightarrow> nat \<times> nat \<times> int list \<times> (int \<times> int) list" where
  "queue_spec (Add v) (n, m, xs, rs) =
     (if length xs = m then (n + 1, m, xs, rs @ [(0, v)]) else (n + 1, m, xs @ [v], rs @ [(1, v)]))"
| "queue_spec Get (n, m, xs, rs) =
     (case xs of [] \<Rightarrow> (n + 1, m, [], rs @ [(0, -1)]) | x # ys \<Rightarrow> (n + 1, m, ys, rs @ [(1, x)]))"

fun queue_pre :: "queue_op \<Rightarrow> nat \<times> nat \<times> int list \<times> (int \<times> int) list \<Rightarrow> bool" where
  "queue_pre op (n, m, xs, rs) \<longleftrightarrow> n < 2 ^ 63 - 1"

definition queue_ok :: "queue_t \<Rightarrow> nat \<Rightarrow> int list \<Rightarrow> bool" where
  "queue_ok q m xs \<longleftrightarrow> (\<exists>as. qrep q {} as xs \<and> (as \<noteq> [] \<longrightarrow> last_q q = Some (last as))) \<and>
     qcount q = int (length xs) \<and> max_count q = int m \<and> length xs \<le> m \<and> m < 2 ^ 31"

definition stats_ok :: "queue_t \<Rightarrow> nat \<Rightarrow> bool" where
  "stats_ok q n \<longleftrightarrow> 0 \<le> get_count q \<and> get_count q \<le> get_attempts q \<and> get_attempts q \<le> int n \<and>
     0 \<le> add_count q \<and> add_count q \<le> add_attempts q \<and> add_attempts q \<le> int n"

fun queue_rel :: "queue_t \<times> (int \<times> int) list \<Rightarrow> nat \<times> nat \<times> int list \<times> (int \<times> int) list \<Rightarrow> bool" where
  "queue_rel (q, rs') (n, m, xs, rs) \<longleftrightarrow> queue_ok q m xs \<and> stats_ok q n \<and> rs' = rs"

lemma queue_add_ok:
  assumes "queue_ok q m xs" and "stats_ok q n" and "n < 2 ^ 63 - 1"
  shows "\<exists>q'. queue_add [] q v = Inr (if length xs = m then 0 else 1, [], q') \<and> stats_ok q' (n + 1) \<and>
           queue_ok q' m (if length xs = m then xs else xs @ [v])"
proof -
  obtain as where as: "qrep q {} as xs" "as \<noteq> [] \<Longrightarrow> last_q q = Some (last as)"
    and c: "qcount q = int (length xs)" "max_count q = int m" "length xs \<le> m" "m < 2 ^ 31"
    using assms(1) by (auto simp: queue_ok_def)
  define q1 where "q1 = q\<lparr>add_attempts := add_attempts q + 1\<rparr>"
  have at: "attempt_add q = Inr q1" using assms(2,3) as(1) by (auto simp: attempt_add_def qrep_def ckd_long_def stats_ok_def q1_def)
  show ?thesis
  proof (cases "length xs = m")
    case True
    have "queue_add [] q v = Inr (0, [], q1)" using True at c by (simp add: queue_add_def q1_def)
    moreover have "stats_ok q1 (n + 1)" "queue_ok q1 m xs"
      using assms as by (auto simp: stats_ok_def queue_ok_def q1_def)
    ultimately show ?thesis using True by auto
  next
    case False
    obtain new q2 where nn: "new_node [] q1 v = Inr (new, [], q2)"
      by (cases "h_alloc (qnodes q1) \<lparr>val = v, next_qnode = None\<rparr>") (simp add: new_node_def alloc_def)
    have r1: "qrep q1 {} as xs" using as(1) by (simp add: q1_def)
    obtain a h where a: "new = Some a" "qrep q2 {a} as xs" "lookup (qnodes q2) a = Some \<lparr>val = v, next_qnode = None\<rparr>"
        "q2 = q1\<lparr>qnodes := h\<rparr>"
      using new_node_ok [OF r1 nn] by blast
    have "\<exists>q3. (if first_q q2 = None then Inr (link_first q2 new) else bindR (link_next q2 new) move_last) = Inr q3 \<and>
        qrep q3 {} (as @ [a]) (xs @ [v]) \<and> last_q q3 = Some a \<and> qcount q3 = qcount q1 \<and> max_count q3 = max_count q1 \<and>
        add_count q3 = add_count q1 \<and> add_attempts q3 = add_attempts q1 \<and> get_count q3 = get_count q1 \<and> get_attempts q3 = get_attempts q1"
    proof (cases "as = []")
      case True
      then have "xs = []" "first_q q2 = None" using qrep_length [OF a(2)] qrep_first [OF a(2)] by auto
      moreover have "qrep (link_first q2 (Some a)) {} [a] [v]"
        using link_first_ok [of q2 a] a(2,3) True calculation by simp
      ultimately show ?thesis using True a(1,4) by (auto simp: link_first_def)
    next
      case False
      then have l: "last_q q2 = Some (last as)" and f: "first_q q2 \<noteq> None"
        using as(2) qrep_first [OF a(2)] by (auto simp: a(4) q1_def)
      obtain h' where h': "link_next q2 (Some a) = Inr (q2\<lparr>qnodes := h'\<rparr>)" "qrep (q2\<lparr>qnodes := h'\<rparr>) {} (as @ [a]) (xs @ [v])"
        using link_next_ok [OF a(2) False l a(3)] by auto
      have "move_last (q2\<lparr>qnodes := h'\<rparr>) = Inr (q2\<lparr>qnodes := h', last_q := Some a\<rparr>)"
        using move_last_ok [OF h'(2) False] l by simp
      then show ?thesis using f h' a(1,4) by auto
    qed
    then obtain q3 where q3: "(if first_q q2 = None then Inr (link_first q2 new) else bindR (link_next q2 new) move_last) = Inr q3"
        "qrep q3 {} (as @ [a]) (xs @ [v])" "last_q q3 = Some a" and e3: "qcount q3 = qcount q1 \<and> max_count q3 = max_count q1 \<and>
        add_count q3 = add_count q1 \<and> add_attempts q3 = add_attempts q1 \<and> get_count q3 = get_count q1 \<and> get_attempts q3 = get_attempts q1"
      by blast
    have f3: "qcount q3 = int (length xs)" "max_count q3 = int m" "add_count q3 = add_count q"
        "add_attempts q3 = add_attempts q + 1" "get_count q3 = get_count q" "get_attempts q3 = get_attempts q"
      using e3 c by (auto simp: q1_def)
    define q4 where "q4 = q3\<lparr>qcount := qcount q3 + 1\<rparr>"
    have q4: "count_up q3 = Inr q4" using f3 c False by (simp add: count_up_def in_int32_def q4_def)
    define q5 where "q5 = q4\<lparr>add_count := add_count q4 + 1\<rparr>"
    have q5: "added q4 = Inr q5" using assms(2,3) f3 by (auto simp: added_def ckd_long_def stats_ok_def q5_def q4_def)
    have "queue_add [] q v = Inr (1, [], q5)"
      using at nn q3(1) q4 q5 c False by (simp add: queue_add_def q1_def)
    moreover have "stats_ok q5 (n + 1)" "queue_ok q5 m (xs @ [v])"
      using assms(2) f3 c False q3(2,3) by (auto simp: stats_ok_def queue_ok_def q5_def q4_def intro!: exI [of _ "as @ [a]"])
    ultimately show ?thesis using False by auto
  qed
qed

lemma queue_get_ok:
  assumes "queue_ok q m xs" and "stats_ok q n" and "n < 2 ^ 63 - 1"
  shows "\<exists>q'. queue_get q v = Inr (if xs = [] then 0 else 1, if xs = [] then v else hd xs, q') \<and> stats_ok q' (n + 1) \<and>
           queue_ok q' m (tl xs)"
proof -
  obtain as where as: "qrep q {} as xs" "as \<noteq> [] \<Longrightarrow> last_q q = Some (last as)"
    and c: "qcount q = int (length xs)" "max_count q = int m" "length xs \<le> m" "m < 2 ^ 31"
    using assms(1) by (auto simp: queue_ok_def)
  define q1 where "q1 = q\<lparr>get_attempts := get_attempts q + 1\<rparr>"
  have at: "attempt_get q = Inr q1" using assms(2,3) as(1) by (auto simp: attempt_get_def qrep_def ckd_long_def stats_ok_def q1_def)
  show ?thesis
  proof (cases xs)
    case Nil
    have "queue_get q v = Inr (0, v, q1)" using Nil at c by (simp add: queue_get_def q1_def)
    moreover have "stats_ok q1 (n + 1)" "queue_ok q1 m []"
      using assms as Nil by (auto simp: stats_ok_def queue_ok_def q1_def)
    ultimately show ?thesis using Nil by auto
  next
    case (Cons x ys)
    then obtain a bs where ab: "as = a # bs" using qrep_length [OF as(1)] by (cases as) auto
    have r1: "qrep q1 {} (a # bs) (x # ys)" using as(1) ab Cons by (simp add: q1_def)
    have f1: "first_q q1 = Some a" using qrep_first [OF r1] by simp
    obtain p where p: "unlink_first q1 = Inr (q1\<lparr>first_q := p\<rparr>)" "qrep (q1\<lparr>first_q := p\<rparr>) {a} bs ys"
      using unlink_first_ok [OF r1] by blast
    obtain h where h: "free_node (q1\<lparr>first_q := p\<rparr>) (Some a) = Inr (q1\<lparr>first_q := p, qnodes := h\<rparr>)"
        "qrep (q1\<lparr>first_q := p, qnodes := h\<rparr>) {} bs ys"
      using free_node_ok [OF p(2)] by auto
    define q4 where "q4 = q1\<lparr>first_q := p, qnodes := h, qcount := qcount q1 - 1\<rparr>"
    have q4: "count_down (q1\<lparr>first_q := p, qnodes := h\<rparr>) = Inr q4"
      using c Cons by (simp add: count_down_def in_int32_def q4_def q1_def)
    define q5 where "q5 = q4\<lparr>get_count := get_count q4 + 1\<rparr>"
    have q5: "taken q4 = Inr q5" using assms(2,3) by (auto simp: taken_def ckd_long_def stats_ok_def q5_def q4_def q1_def)
    have cc: "0 \<le> qcount q1" "qcount q1 \<noteq> 0" using c Cons by (auto simp: q1_def)
    have "queue_get q v = Inr (1, x, q5)"
      using at f1 read_val_ok [OF r1] p(1) h(1) q4 q5 cc by (simp add: queue_get_def)
    moreover have "bs \<noteq> [] \<Longrightarrow> last_q q = Some (last bs)" using as(2) ab by simp
    then have "stats_ok q5 (n + 1)" "queue_ok q5 m ys"
      using assms(2) c Cons h(2) by (auto simp: stats_ok_def queue_ok_def q5_def q4_def q1_def intro!: exI [of _ bs])
    ultimately show ?thesis using Cons by auto
  qed
qed

lemma queue_step_refines:
  assumes "queue_rel c a" and "queue_pre op a"
  shows "\<exists>c'. queue_step op c = Inr c' \<and> queue_rel c' (queue_spec op a)"
proof -
  obtain q rs' where c: "c = (q, rs')" by fastforce
  obtain n m xs rs where a: "a = (n, m, xs, rs)" by (cases a) auto
  show ?thesis
  proof (cases op)
    case (Add v)
    then show ?thesis using queue_add_ok [of q m xs n v] assms c a by (auto split: if_splits)
  next
    case Get
    then show ?thesis using queue_get_ok [of q m xs n "-1"] assms c a by (cases xs) auto
  qed
qed

interpretation bq: data_refinement queue_step queue_spec queue_pre queue_rel
  by unfold_locales (rule queue_step_refines)

lemma run_pre_short: "n + length ops < 2 ^ 63 \<Longrightarrow> bq.run_pre ops (n, m, xs, rs)"
proof (induction ops arbitrary: n xs rs)
  case (Cons op ops)
  have "queue_pre op (n, m, xs, rs)" using Cons.prems by simp
  moreover obtain ys rs' where "queue_spec op (n, m, xs, rs) = (n + 1, m, ys, rs')"
    by (cases op; cases xs; cases "length xs = m") auto
  ultimately show ?case using Cons.IH [of "n + 1" ys rs'] Cons.prems by simp
qed simp

text \<open>C25: any sequence of fewer than \<open>2 ^ 63\<close> additions and removals on a new queue faults nowhere and returns the codes
  and the values that the same operations give on a list bounded by \<open>max_count\<close>; destroying the queue afterwards
  frees each of its nodes and the queue itself, once.\<close>

theorem queue_refines_bounded_list:
  assumes "length ops < 2 ^ 63" and "m < 2 ^ 31" and "cancelled \<noteq> -1" and "joined \<noteq> -1"
  shows "\<exists>q q' n xs rs. bq.run ops (fresh_queue (int m), []) = Inr (q, rs) \<and>
    bq.run_spec ops (0, m, [], []) = (n, m, xs, rs) \<and> qcount q = int (length xs) \<and> length xs \<le> m \<and>
    queue_destroy cancelled joined err q = Inr q' \<and> (\<forall>a. lookup (qnodes q') a = None) \<and> queue_mem q' = Freed"
proof -
  have "queue_ok (fresh_queue (int m)) m []" using assms(2) qrep_fresh by (auto simp: queue_ok_def fresh_queue_def)
  then have "queue_rel (fresh_queue (int m), []) (0, m, [], [])" by (simp add: stats_ok_def fresh_queue_def)
  moreover have "bq.run_pre ops (0, m, [], [])" using run_pre_short [of 0 ops] assms(1) by simp
  ultimately obtain c where c: "bq.run ops (fresh_queue (int m), []) = Inr c" "queue_rel c (bq.run_spec ops (0, m, [], []))"
    using bq.run_refines by blast
  obtain q rs' where q: "c = (q, rs')" by fastforce
  obtain n m' xs rs where sp: "bq.run_spec ops (0, m, [], []) = (n, m', xs, rs)" by (cases "bq.run_spec ops (0, m, [], [])") auto
  have m': "m' = m"
  proof -
    have "fst (snd (bq.run_spec ops a)) = fst (snd a)" for a
    proof (induction ops arbitrary: a)
      case (Cons op ops)
      show ?case using Cons by (cases a; cases op) (auto split: list.splits)
    qed simp
    then show ?thesis using sp by (metis fst_conv snd_conv)
  qed
  obtain as where "qrep q {} as xs" using c(2) q sp by (auto simp: queue_ok_def)
  from queue_destroy_ok [OF this assms(3,4)] obtain q' where "queue_destroy cancelled joined err q = Inr q'"
      "\<forall>a. lookup (qnodes q') a = None" "queue_mem q' = Freed"
    by blast
  then show ?thesis using c q sp m' by (auto simp: queue_ok_def)
qed

theorem queue_refines_bounded_list_witness:
  "\<exists>q q' n xs rs. bq.run [Add 5, Add 6, Get, Add 7, Add 8] (fresh_queue (int 2), []) = Inr (q, rs) \<and>
    bq.run_spec [Add 5, Add 6, Get, Add 7, Add 8] (0, 2, [], []) = (n, 2, xs, rs) \<and> qcount q = int (length xs) \<and>
    length xs \<le> 2 \<and> queue_destroy 0 0 '''' q = Inr q' \<and> (\<forall>a. lookup (qnodes q') a = None) \<and> queue_mem q' = Freed"
  by (rule queue_refines_bounded_list) simp_all

section \<open>The example program\<close>

lemma example_add_ok:
  assumes "queue_ok q m xs" and "stats_ok q n" and "n + length is < 2 ^ 63" and "length xs + length is \<le> m"
  shows "\<exists>out q'. example_add [] q is = Inr (out, [], q') \<and> queue_ok q' m (xs @ is) \<and> stats_ok q' (n + length is)"
  using assms
proof (induction "is" arbitrary: q xs n)
  case (Cons i "is")
  have "length xs \<noteq> m" "n < 2 ^ 63 - 1" using Cons.prems(3,4) by auto
  then obtain q1 where q1: "queue_add [] q i = Inr (1, [], q1)" "stats_ok q1 (n + 1)" "queue_ok q1 m (xs @ [i])"
    using queue_add_ok [OF Cons.prems(1,2), of i] by auto
  obtain out q2 where q2: "example_add [] q1 is = Inr (out, [], q2)" "queue_ok q2 m ((xs @ [i]) @ is)"
      "stats_ok q2 (n + 1 + length is)"
    using Cons.IH [OF q1(3,2)] Cons.prems(3,4) by auto
  then show ?case using q1(1) by auto
qed auto

lemma example_get_ok:
  assumes "queue_ok q m xs" and "stats_ok q n" and "n + k < 2 ^ 63"
  shows "\<exists>out q'. example_get q k = Inr (out, q') \<and> queue_ok q' m (drop k xs) \<and> stats_ok q' (n + k)"
  using assms
proof (induction k arbitrary: q xs n)
  case (Suc k)
  have "n < 2 ^ 63 - 1" using Suc.prems(3) by auto
  then obtain ok v q1 where q1: "queue_get q (-1) = Inr (ok, v, q1)" "stats_ok q1 (n + 1)" "queue_ok q1 m (tl xs)"
    using queue_get_ok [OF Suc.prems(1,2), of "-1"] by blast
  obtain out q2 where q2: "example_get q1 k = Inr (out, q2)" "queue_ok q2 m (drop k (tl xs))" "stats_ok q2 (n + 1 + k)"
    using Suc.IH [OF q1(3,2)] Suc.prems(3) by auto
  then show ?case using q1(1) by (auto simp: drop_Suc)
qed auto

text \<open>\<open>main\<close> of \<open>queue-example.c\<close> ends without a fault and leaves nothing of the queue behind.\<close>

lemma example_main_ok:
  assumes "cancelled \<noteq> -1" and "joined \<noteq> -1"
  shows "\<exists>out q. example_main strerror True 0 [] cancelled joined msg = Inr (out, q) \<and> (\<forall>a. lookup (qnodes q) a = None) \<and>
    queue_mem q = Freed"
proof -
  have q0: "queue_ok (fresh_queue 1000) 1000 []" "stats_ok (fresh_queue 1000) 0"
    using qrep_fresh [of 1000] by (auto simp: queue_ok_def fresh_queue_def stats_ok_def)
  have l: "length [0..9::int] = 10" by simp
  obtain out q1 where q1: "example_add [] (fresh_queue 1000) [0..9] = Inr (out, [], q1)"
      "queue_ok q1 1000 ([] @ [0..9])" "stats_ok q1 (0 + 10)"
    using example_add_ok [OF q0, of "[0..9]"] unfolding l by auto
  obtain out' q2 where q2: "example_get q1 12 = Inr (out', q2)" "queue_ok q2 1000 (drop 12 ([] @ [0..9]))"
    using example_get_ok [OF q1(2,3), of 12] by auto
  then obtain as xs where "qrep q2 {} as xs" by (auto simp: queue_ok_def)
  from queue_destroy_ok [OF this assms] obtain q3 where "queue_destroy cancelled joined msg q2 = Inr q3"
      "\<forall>a. lookup (qnodes q3) a = None" "queue_mem q3 = Freed"
    by blast
  then show ?thesis using q1(1) q2(1) by (simp add: example_main_def queue_init_def)
qed

end
