(* ===== verification/Queue_Threads.thy ===== *)
theory Queue_Threads
  imports Shared_Queue
begin

text \<open>
  \<open>OS-Labs/10-sync/queue-threads.c\<close>: one thread adds 0, 1, 2, \<dots> to a queue, another takes the values and reports any
  that is not the successor of the one before, a third prints statistics.  A state holds the queue, the program counter
  and the locals of each thread and the synchronisation objects; the threads interleave at the statements of
  \<open>queue_add\<close> and \<open>queue_get\<close>.  The four synchronised versions of the queue share the statements that touch the
  structure (\<open>add_stmt\<close>, \<open>get_stmt\<close>) and differ in how they enter and leave them.  The locale \<open>queue_protocol\<close> is the
  contract of such a version, mutual exclusion and a bounded count, from which order, memory safety and the
  absence of error reports follow once for all of them.
\<close>

section \<open>Definitions\<close>

datatype thread = Writer | Reader

text \<open>The statement a thread executes next.\<close>

datatype add_pc = AddStart | AddEnter | AddSem | AddLock | AddTest | AddSleep | AddWake | AddFull
  | AddNew | AddLink | AddLast | AddCount | AddLeave | AddUnlock | AddDone | AddReturn bool

datatype get_pc = GetStart | GetEnter | GetSem | GetLock | GetTest | GetSleep | GetWake | GetEmpty
  | GetFirst | GetVal | GetNext | GetFree | GetCount | GetLeave | GetUnlock | GetDone | GetReturn bool

record sys =
  sq :: queue_t
  smem :: mem
  slock :: "thread option"
  full_sem :: int
  empty_sem :: int
  wpc :: add_pc
  wi :: int
  wnew :: ptr
  rpc :: get_pc
  rval :: int
  expected :: int
  rtmp :: ptr
  sout :: "string list"
  crashed :: "fault option"

text \<open>Mutex and spin lock: taking a lock that is held blocks; releasing a lock of another thread is undefined.\<close>

definition lock_by :: "thread \<Rightarrow> sys \<Rightarrow> sys res option" where
  "lock_by t s = (if slock s = None then Some (Inr (s\<lparr>slock := Some t\<rparr>)) else None)"

definition unlock_by :: "thread \<Rightarrow> sys \<Rightarrow> sys res" where
  "unlock_by t s = (if slock s = Some t then Inr (s\<lparr>slock := None\<rparr>) else Inl Undefined)"

text \<open>The statements of \<open>queue_add\<close> on the structure, the same in every version.\<close>

definition add_do :: "(queue_t \<Rightarrow> queue_t res) \<Rightarrow> add_pc \<Rightarrow> sys \<Rightarrow> sys res" where
  "add_do f pc s = bindR (f (sq s)) (\<lambda>q. Inr (s\<lparr>sq := q, wpc := pc\<rparr>))"

definition add_stmt :: "sys \<Rightarrow> sys res option" where
  "add_stmt s = (case wpc s of
     AddStart \<Rightarrow> Some (add_do attempt_add AddEnter s)
   | AddNew \<Rightarrow> Some (bindR (new_node (smem s) (sq s) (wi s)) (\<lambda>(new, mem, q).
       Inr (s\<lparr>wnew := new, smem := mem, sq := q, wpc := AddLink\<rparr>)))
   | AddLink \<Rightarrow> Some (if first_q (sq s) = None then Inr (s\<lparr>sq := link_first (sq s) (wnew s), wpc := AddCount\<rparr>)
       else add_do (\<lambda>q. link_next q (wnew s)) AddLast s)
   | AddLast \<Rightarrow> Some (add_do move_last AddCount s)
   | AddCount \<Rightarrow> Some (add_do count_up AddLeave s)
   | AddDone \<Rightarrow> Some (add_do added (AddReturn True) s)
   | _ \<Rightarrow> None)"

text \<open>The statements of \<open>queue_get\<close> on the structure.\<close>

definition get_do :: "(queue_t \<Rightarrow> queue_t res) \<Rightarrow> get_pc \<Rightarrow> sys \<Rightarrow> sys res" where
  "get_do f pc s = bindR (f (sq s)) (\<lambda>q. Inr (s\<lparr>sq := q, rpc := pc\<rparr>))"

definition get_stmt :: "sys \<Rightarrow> sys res option" where
  "get_stmt s = (case rpc s of
     GetStart \<Rightarrow> Some (get_do attempt_get GetEnter (s\<lparr>rval := -1\<rparr>))
   | GetFirst \<Rightarrow> Some (Inr (s\<lparr>rtmp := first_q (sq s), rpc := GetVal\<rparr>))
   | GetVal \<Rightarrow> Some (bindR (read_val (sq s) (rtmp s)) (\<lambda>v. Inr (s\<lparr>rval := v, rpc := GetNext\<rparr>)))
   | GetNext \<Rightarrow> Some (get_do unlink_first GetFree s)
   | GetFree \<Rightarrow> Some (get_do (\<lambda>q. free_node q (rtmp s)) GetCount s)
   | GetCount \<Rightarrow> Some (get_do count_down GetLeave s)
   | GetDone \<Rightarrow> Some (get_do taken (GetReturn True) s)
   | _ \<Rightarrow> None)"

text \<open>\<open>queue-threads.c\<close>: the loops of the writer and of the reader around a version of the queue.\<close>

definition error_line :: "int \<Rightarrow> int \<Rightarrow> string" where
  "error_line v e = [CHR 0x1B] @ ''[41mERROR: get value is '' @ show_int v @ '' but expected - '' @ show_int e @
     [CHR 0x1B] @ ''[0m'' @ newline"

definition writer :: "(sys \<Rightarrow> sys res option) \<Rightarrow> sys \<Rightarrow> sys res option" where
  "writer add s = (case wpc s of
     AddReturn ok \<Rightarrow> Some (if \<not> ok then Inr (s\<lparr>wpc := AddStart\<rparr>)
                          else bindR (ckd (wi s + 1)) (\<lambda>i. Inr (s\<lparr>wi := i, wpc := AddStart\<rparr>)))
   | _ \<Rightarrow> add s)"

definition reader :: "(sys \<Rightarrow> sys res option) \<Rightarrow> sys \<Rightarrow> sys res option" where
  "reader get s = (case rpc s of
     GetReturn ok \<Rightarrow> Some (if \<not> ok then Inr (s\<lparr>rpc := GetStart\<rparr>)
                          else let s' = (if expected s \<noteq> rval s
                                         then s\<lparr>sout := sout s @ [error_line (rval s) (expected s)]\<rparr> else s) in
                               bindR (ckd (rval s + 1)) (\<lambda>e. Inr (s'\<lparr>expected := e, rpc := GetStart\<rparr>)))
   | _ \<Rightarrow> get s)"

definition qmonitor :: "sys \<Rightarrow> sys" where
  "qmonitor s = s\<lparr>sout := sout s @ [queue_print_stats (sq s)]\<rparr>"

text \<open>One statement of one thread.  A faulting statement ends the process.  A thread that sleeps on a condition variable
  may also wake up without a signal.\<close>

inductive step :: "(sys \<Rightarrow> sys res option) \<Rightarrow> (sys \<Rightarrow> sys res option) \<Rightarrow> sys \<Rightarrow> sys \<Rightarrow> bool" for add get where
  writer: "crashed s = None \<Longrightarrow> writer add s = Some (Inr s') \<Longrightarrow> step add get s s'"
| writer_fault: "crashed s = None \<Longrightarrow> writer add s = Some (Inl f) \<Longrightarrow> step add get s (s\<lparr>crashed := Some f\<rparr>)"
| reader: "crashed s = None \<Longrightarrow> reader get s = Some (Inr s') \<Longrightarrow> step add get s s'"
| reader_fault: "crashed s = None \<Longrightarrow> reader get s = Some (Inl f) \<Longrightarrow> step add get s (s\<lparr>crashed := Some f\<rparr>)"
| monitor: "crashed s = None \<Longrightarrow> step add get s (qmonitor s)"
| spurious_add: "crashed s = None \<Longrightarrow> wpc s = AddSleep \<Longrightarrow> step add get s (s\<lparr>wpc := AddWake\<rparr>)"
| spurious_get: "crashed s = None \<Longrightarrow> rpc s = GetSleep \<Longrightarrow> step add get s (s\<lparr>rpc := GetWake\<rparr>)"

inductive reach :: "(sys \<Rightarrow> sys res option) \<Rightarrow> (sys \<Rightarrow> sys res option) \<Rightarrow> sys \<Rightarrow> sys \<Rightarrow> bool" for add get s0 where
  start: "reach add get s0 s0"
| more: "reach add get s0 s \<Longrightarrow> step add get s s' \<Longrightarrow> reach add get s0 s'"

text \<open>The state in which both threads are about to start.\<close>

definition start_threads :: "queue_t \<Rightarrow> int \<Rightarrow> int \<Rightarrow> mem \<Rightarrow> sys" where
  "start_threads q fs es mem = \<lparr>sq = q, smem = mem, slock = None, full_sem = fs, empty_sem = es,
     wpc = AddStart, wi = 0, wnew = None, rpc = GetStart, rval = -1, expected = 0, rtmp = None, sout = [], crashed = None\<rparr>"

text \<open>\<open>main\<close> of \<open>queue-threads.c\<close>, given a version's \<open>queue_init\<close> and the error numbers of \<open>pthread_create\<close>.\<close>

definition QUEUE_SIZE :: int where
  "QUEUE_SIZE = 1000000"

definition threads_main :: "(int \<Rightarrow> string) \<Rightarrow> (int \<Rightarrow> sys res) \<Rightarrow> int \<Rightarrow> int \<Rightarrow> sys res" where
  "threads_main strerror init err_r err_w =
     bindR (init QUEUE_SIZE) (\<lambda>s.
     if err_r \<noteq> 0 then Inl (Exit (-1) (''main: pthread_create() failed: '' @ strerror err_r @ newline))
     else if err_w \<noteq> 0 then Inl (Exit (-1) (''main: pthread_create() failed: '' @ strerror err_w @ newline))
     else Inr s)"

section \<open>The invariant of the structure\<close>

text \<open>How far a thread is with its node, and whether it is inside an operation.\<close>

fun wtag :: "add_pc \<Rightarrow> nat" where
  "wtag AddLink = 1" | "wtag AddLast = 2" | "wtag AddCount = 3"
| "wtag AddLeave = 4" | "wtag AddUnlock = 4" | "wtag AddDone = 4" | "wtag (AddReturn ok) = (if ok then 4 else 0)"
| "wtag _ = 0"

fun rtag :: "get_pc \<Rightarrow> nat" where
  "rtag GetVal = 1" | "rtag GetNext = 2" | "rtag GetFree = 3" | "rtag GetCount = 4"
| "rtag GetLeave = 5" | "rtag GetUnlock = 5" | "rtag GetDone = 5" | "rtag (GetReturn ok) = (if ok then 5 else 0)"
| "rtag _ = 0"

fun winside :: "add_pc \<Rightarrow> bool" where
  "winside AddStart = False" | "winside (AddReturn _) = False" | "winside _ = True"

fun rinside :: "get_pc \<Rightarrow> bool" where
  "rinside GetStart = False" | "rinside (GetReturn _) = False" | "rinside _ = True"

text \<open>How many values have been linked into the queue and unlinked from it.\<close>

definition sent :: "sys \<Rightarrow> int" where
  "sent s = wi s + (if 2 \<le> wtag (wpc s) then 1 else 0)"

definition received :: "sys \<Rightarrow> int" where
  "received s = expected s + (if 3 \<le> rtag (rpc s) then 1 else 0)"

definition loose :: "sys \<Rightarrow> nat set" where
  "loose s = (if wtag (wpc s) = 1 then set_option (wnew s) else {}) \<union> (if rtag (rpc s) = 3 then set_option (rtmp s) else {})"

definition chain_ok :: "sys \<Rightarrow> bool" where
  "chain_ok s \<longleftrightarrow> (\<exists>as. qrep (sq s) (loose s) as [received s .. sent s - 1] \<and>
     (if wtag (wpc s) = 2 then butlast as \<noteq> [] \<and> last_q (sq s) = Some (last (butlast as))
      else as \<noteq> [] \<longrightarrow> last_q (sq s) = Some (last as)))"

definition locals_ok :: "sys \<Rightarrow> bool" where
  "locals_ok s \<longleftrightarrow>
     (wtag (wpc s) = 1 \<longrightarrow> (\<exists>a. wnew s = Some a \<and> lookup (qnodes (sq s)) a = Some \<lparr>val = wi s, next_qnode = None\<rparr>)) \<and>
     (rtag (rpc s) \<in> {1, 2} \<longrightarrow> rtmp s = first_q (sq s)) \<and> (rtag (rpc s) = 3 \<longrightarrow> rtmp s \<noteq> None) \<and>
     (2 \<le> rtag (rpc s) \<longrightarrow> rval s = expected s)"

definition numbers_ok :: "sys \<Rightarrow> bool" where
  "numbers_ok s \<longleftrightarrow> 0 \<le> expected s \<and> received s \<le> sent s \<and> wi s < 2 ^ 31 \<and>
     qcount (sq s) = sent s - received s - (if wtag (wpc s) \<in> {2, 3} then 1 else 0) + (if rtag (rpc s) \<in> {3, 4} then 1 else 0) \<and>
     max_count (sq s) < 2 ^ 31 \<and>
     0 \<le> add_count (sq s) \<and> add_count (sq s) \<le> add_attempts (sq s) \<and> add_attempts (sq s) < 2 ^ 63 \<and>
     (winside (wpc s) \<longrightarrow> add_count (sq s) < add_attempts (sq s)) \<and>
     0 \<le> get_count (sq s) \<and> get_count (sq s) \<le> get_attempts (sq s) \<and> get_attempts (sq s) < 2 ^ 63 \<and>
     (rinside (rpc s) \<longrightarrow> get_count (sq s) < get_attempts (sq s))"

definition qinv :: "sys \<Rightarrow> bool" where
  "qinv s \<longleftrightarrow> chain_ok s \<and> locals_ok s \<and> numbers_ok s"

text \<open>The statements during which a thread relies on being alone.\<close>

definition wcrit :: "add_pc \<Rightarrow> bool" where
  "wcrit pc \<longleftrightarrow> pc \<in> {AddNew, AddLink, AddLast, AddCount}"

definition rcrit :: "get_pc \<Rightarrow> bool" where
  "rcrit pc \<longleftrightarrow> pc \<in> {GetFirst, GetVal, GetNext, GetFree, GetCount}"

lemma wcrit_pc [simp]:
  "\<not> wcrit AddStart" "\<not> wcrit AddEnter" "\<not> wcrit AddSem" "\<not> wcrit AddLock" "\<not> wcrit AddTest" "\<not> wcrit AddSleep" "\<not> wcrit AddWake" "\<not> wcrit AddFull" "wcrit AddNew" "wcrit AddLink" "wcrit AddLast" "wcrit AddCount" "\<not> wcrit AddLeave" "\<not> wcrit AddUnlock" "\<not> wcrit AddDone" "\<not> wcrit (AddReturn ok)"
  by (simp_all add: wcrit_def)

lemma rcrit_pc [simp]:
  "\<not> rcrit GetStart" "\<not> rcrit GetEnter" "\<not> rcrit GetSem" "\<not> rcrit GetLock" "\<not> rcrit GetTest" "\<not> rcrit GetSleep" "\<not> rcrit GetWake" "\<not> rcrit GetEmpty" "rcrit GetFirst" "rcrit GetVal" "rcrit GetNext" "rcrit GetFree" "rcrit GetCount" "\<not> rcrit GetLeave" "\<not> rcrit GetUnlock" "\<not> rcrit GetDone" "\<not> rcrit (GetReturn ok)"
  by (simp_all add: rcrit_def)

definition alone :: "sys \<Rightarrow> bool" where
  "alone s \<longleftrightarrow> (wcrit (wpc s) \<longrightarrow> \<not> rcrit (rpc s) \<and> qcount (sq s) < max_count (sq s)) \<and> (rcrit (rpc s) \<longrightarrow> 0 < qcount (sq s))"

definition counters_left :: "sys \<Rightarrow> bool" where
  "counters_left s \<longleftrightarrow> wi s < 2 ^ 31 - 1 \<and> add_attempts (sq s) < 2 ^ 63 - 1 \<and> get_attempts (sq s) < 2 ^ 63 - 1"

definition out_of_memory :: fault where
  "out_of_memory = Exit 134 (''Cannot allocate memory for new node'' @ newline)"

text \<open>The faults the threads may end with: no memory for a node, or a counter at the largest value of its type.\<close>

definition fault_ok :: "sys \<Rightarrow> fault \<Rightarrow> bool" where
  "fault_ok s f \<longleftrightarrow> f = out_of_memory \<or> \<not> counters_left s"

definition good :: "(sys \<Rightarrow> bool) \<Rightarrow> sys \<Rightarrow> sys res \<Rightarrow> bool" where
  "good P s r \<longleftrightarrow> (case r of Inl f \<Rightarrow> fault_ok s f | Inr s' \<Rightarrow> P s')"

lemma good_simps [simp]: "good P s (Inl f) = fault_ok s f" "good P s (Inr s') = P s'"
  by (simp_all add: good_def)

section \<open>The statements keep the invariant\<close>

lemmas qinv_defs = qinv_def chain_ok_def locals_ok_def numbers_ok_def loose_def sent_def received_def

lemma not_rcrit_tag: "\<not> rcrit pc \<Longrightarrow> rtag pc = 0 \<or> rtag pc = 5"
  by (cases pc) (auto simp: rcrit_def)

lemma not_wcrit_tag: "\<not> wcrit pc \<Longrightarrow> wtag pc = 0 \<or> wtag pc = 4"
  by (cases pc) (auto simp: wcrit_def)

lemma chain_okE:
  assumes "qinv s" and "wtag (wpc s) \<noteq> 2"
  obtains as where "qrep (sq s) (loose s) as [received s .. sent s - 1]" and "as \<noteq> [] \<longrightarrow> last_q (sq s) = Some (last as)"
proof -
  have "\<exists>as. qrep (sq s) (loose s) as [received s .. sent s - 1] \<and> (as \<noteq> [] \<longrightarrow> last_q (sq s) = Some (last as))"
    using assms by (simp add: qinv_def chain_ok_def)
  with that show ?thesis by blast
qed

lemma chain_ok_frame:
  assumes "chain_ok s" and "qnodes (sq s') = qnodes (sq s)" and "first_q (sq s') = first_q (sq s)"
    and "last_q (sq s') = last_q (sq s)" and "loose s' = loose s" and "received s' = received s" and "sent s' = sent s"
    and "wtag (wpc s') = 2 \<longleftrightarrow> wtag (wpc s) = 2"
    and "queue_mem (sq s') = queue_mem (sq s)"
  shows "chain_ok s'"
  using assms(1) unfolding chain_ok_def qrep_def assms(2-9) .

lemma qinv_Live: "qinv s \<Longrightarrow> queue_mem (sq s) = Live"
  by (auto simp: qinv_def chain_ok_def qrep_def)

text \<open>A statement that moves the program counters and changes numbers only.\<close>

lemma numbers_move:
  assumes "qinv s" and "qnodes (sq s') = qnodes (sq s)" and "first_q (sq s') = first_q (sq s)" and "last_q (sq s') = last_q (sq s)"
    and "loose s' = loose s" and "received s' = received s" and "sent s' = sent s"
    and "wtag (wpc s') = 2 \<longleftrightarrow> wtag (wpc s) = 2" and "locals_ok s'" and "numbers_ok s'"
    and "queue_mem (sq s') = queue_mem (sq s)"
  shows "qinv s'"
  using chain_ok_frame [of s s'] assms by (simp add: qinv_def)

lemma add_start_inv:
  assumes "qinv s" and "wpc s = AddStart"
  shows "good qinv s (add_do attempt_add AddEnter s)"
proof (cases "add_attempts (sq s) + 1 < 2 ^ 63")
  case True
  then have "attempt_add (sq s) = Inr (sq s\<lparr>add_attempts := add_attempts (sq s) + 1\<rparr>)"
    using assms(1) qinv_Live [OF assms(1)] by (auto simp: attempt_add_def ckd_long_def qinv_def numbers_ok_def)
  moreover have "qinv (s\<lparr>sq := sq s\<lparr>add_attempts := add_attempts (sq s) + 1\<rparr>, wpc := AddEnter\<rparr>)" (is "qinv ?s")
  proof (rule numbers_move [OF assms(1)])
    show "locals_ok ?s" "numbers_ok ?s"
      using assms True by (auto simp: qinv_def locals_ok_def numbers_ok_def sent_def received_def)
  qed (use assms(2) in \<open>simp_all add: loose_def received_def sent_def\<close>)
  ultimately show ?thesis by (simp add: add_do_def)
next
  case False
  then have "\<not> counters_left s" by (simp add: counters_left_def)
  moreover have "\<exists>f. attempt_add (sq s) = Inl f" using False by (auto simp: attempt_add_def deref_def ckd_long_def)
  ultimately show ?thesis by (auto simp: add_do_def fault_ok_def)
qed

lemma add_new_inv:
  assumes "qinv s" and "alone s" and "wpc s = AddNew"
  shows "good qinv s (bindR (new_node (smem s) (sq s) (wi s)) (\<lambda>(new, mem, q).
       Inr (s\<lparr>wnew := new, smem := mem, sq := q, wpc := AddLink\<rparr>)))"
proof (cases "new_node (smem s) (sq s) (wi s)")
  case (Inl f)
  then show ?thesis using new_node_fault by (auto simp: fault_ok_def out_of_memory_def)
next
  case (Inr r)
  obtain new mem q where r: "r = (new, mem, q)" by (cases r)
  have t: "rtag (rpc s) = 0 \<or> rtag (rpc s) = 5" using assms(2,3) not_rcrit_tag by (auto simp: alone_def wcrit_def)
  have l: "loose s = {}" using assms(3) t by (auto simp: loose_def)
  obtain as where as: "qrep (sq s) {} as [received s .. sent s - 1]" "as \<noteq> [] \<longrightarrow> last_q (sq s) = Some (last as)"
    using chain_okE [OF assms(1)] assms(3) l by auto
  obtain a h where a: "new = Some a" "qrep q {a} as [received s .. sent s - 1]"
      "lookup (qnodes q) a = Some \<lparr>val = wi s, next_qnode = None\<rparr>" "q = sq s\<lparr>qnodes := h\<rparr>"
    using new_node_ok [OF as(1)] Inr r by blast
  define s' where "s' = s\<lparr>wnew := new, smem := mem, sq := q, wpc := AddLink\<rparr>"
  have e: "loose s' = {a}" "received s' = received s" "sent s' = sent s"
    using t assms(3) a(1) by (auto simp: s'_def loose_def received_def sent_def)
  have "chain_ok s'" unfolding chain_ok_def e using a(2,4) as(2) by (auto simp: s'_def)
  moreover have "locals_ok s'" using assms(1) a(1,3) t by (auto simp: s'_def locals_ok_def qinv_def)
  moreover have "numbers_ok s'" unfolding numbers_ok_def e using assms(1,3) a(4) by (auto simp: s'_def qinv_def numbers_ok_def)
  ultimately show ?thesis using Inr r by (simp add: qinv_def s'_def)
qed

lemma add_link_inv:
  assumes "qinv s" and "alone s" and "wpc s = AddLink"
  shows "good qinv s (if first_q (sq s) = None then Inr (s\<lparr>sq := link_first (sq s) (wnew s), wpc := AddCount\<rparr>)
       else add_do (\<lambda>q. link_next q (wnew s)) AddLast s)"
proof -
  have t: "rtag (rpc s) = 0 \<or> rtag (rpc s) = 5" using assms(2,3) not_rcrit_tag by (auto simp: alone_def wcrit_def)
  obtain a where a: "wnew s = Some a" "lookup (qnodes (sq s)) a = Some \<lparr>val = wi s, next_qnode = None\<rparr>"
    using assms(1,3) by (auto simp: qinv_def locals_ok_def)
  have l: "loose s = {a}" "sent s = wi s" using assms(3) t a(1) by (auto simp: loose_def sent_def)
  obtain as where as: "qrep (sq s) {a} as [received s .. wi s - 1]" "as \<noteq> [] \<longrightarrow> last_q (sq s) = Some (last as)"
    using chain_okE [OF assms(1)] assms(3) l by auto
  have le: "received s \<le> wi s" using assms(1,3) by (simp add: qinv_def numbers_ok_def sent_def)
  have snoc: "[received s .. wi s - 1] @ [wi s] = [received s .. wi s]" using le by (simp add: upto_rec2)
  show ?thesis
  proof (cases "as = []")
    case True
    then have f: "first_q (sq s) = None" and re: "received s = wi s"
      using qrep_first [OF as(1)] qrep_length [OF as(1)] le by auto
    define s' where "s' = s\<lparr>sq := link_first (sq s) (wnew s), wpc := AddCount\<rparr>"
    have e: "loose s' = {}" "received s' = received s" "sent s' = wi s + 1"
      using t by (auto simp: s'_def loose_def received_def sent_def)
    have "qrep (link_first (sq s) (Some a)) {} [a] [wi s]" using link_first_ok [of "sq s" a] as(1) True a(2) re by simp
    then have "chain_ok s'" unfolding chain_ok_def e using re a(1)
      by (auto simp: s'_def link_first_def intro!: exI [of _ "[a]"])
    moreover have "locals_ok s'" using assms(1) t by (auto simp: s'_def locals_ok_def qinv_def link_first_def)
    moreover have "numbers_ok s'" unfolding numbers_ok_def e using assms(1,3) re
      by (auto simp: s'_def qinv_def numbers_ok_def link_first_def sent_def)
    ultimately show ?thesis using f by (simp add: qinv_def s'_def)
  next
    case False
    then have f: "first_q (sq s) \<noteq> None" using qrep_first [OF as(1)] by simp
    obtain h where h: "link_next (sq s) (Some a) = Inr (sq s\<lparr>qnodes := h\<rparr>)"
        "qrep (sq s\<lparr>qnodes := h\<rparr>) {} (as @ [a]) ([received s .. wi s - 1] @ [wi s])"
      using link_next_ok [OF as(1) False _ a(2)] as(2) False by auto
    define s' where "s' = s\<lparr>sq := sq s\<lparr>qnodes := h\<rparr>, wpc := AddLast\<rparr>"
    have e: "loose s' = {}" "received s' = received s" "sent s' = wi s + 1"
      using t by (auto simp: s'_def loose_def received_def sent_def)
    have "chain_ok s'" unfolding chain_ok_def e using h(2) False as(2)
      by (auto simp: s'_def snoc intro!: exI [of _ "as @ [a]"])
    moreover have "locals_ok s'" using assms(1) t by (auto simp: s'_def locals_ok_def qinv_def)
    moreover have "numbers_ok s'" unfolding numbers_ok_def e using assms(1,3) le
      by (auto simp: s'_def qinv_def numbers_ok_def sent_def)
    ultimately show ?thesis using f h(1) a(1) by (auto simp: qinv_def s'_def add_do_def)
  qed
qed

lemma add_last_inv:
  assumes "qinv s" and "alone s" and "wpc s = AddLast"
  shows "good qinv s (add_do move_last AddCount s)"
proof -
  have t: "rtag (rpc s) = 0 \<or> rtag (rpc s) = 5" using assms(2,3) not_rcrit_tag by (auto simp: alone_def wcrit_def)
  obtain as where as: "qrep (sq s) {} as [received s .. sent s - 1]" "butlast as \<noteq> []" "last_q (sq s) = Some (last (butlast as))"
    using assms(1,3) t by (auto simp: qinv_def chain_ok_def loose_def)
  then have sp: "as = butlast as @ [last as]" by (metis append_butlast_last_id butlast.simps(1))
  have m: "move_last (sq s) = Inr (sq s\<lparr>last_q := Some (last as)\<rparr>)"
    by (rule move_last_ok [OF _ as(2,3)]) (use as(1) sp in simp)
  define s' where "s' = s\<lparr>sq := sq s\<lparr>last_q := Some (last as)\<rparr>, wpc := AddCount\<rparr>"
  have e: "loose s' = {}" "received s' = received s" "sent s' = sent s"
    using t assms(3) by (auto simp: s'_def loose_def received_def sent_def)
  have "chain_ok s'" unfolding chain_ok_def e using as(1) by (auto simp: s'_def)
  moreover have "locals_ok s'" using assms(1) t by (auto simp: s'_def locals_ok_def qinv_def)
  moreover have "numbers_ok s'" unfolding numbers_ok_def e using assms(1,3) by (auto simp: s'_def qinv_def numbers_ok_def)
  ultimately show ?thesis using m by (simp add: qinv_def s'_def add_do_def)
qed

lemma add_count_inv:
  assumes "qinv s" and "alone s" and "wpc s = AddCount"
  shows "good qinv s (add_do count_up AddLeave s)"
proof -
  have t: "rtag (rpc s) = 0 \<or> rtag (rpc s) = 5" using assms(2,3) not_rcrit_tag by (auto simp: alone_def wcrit_def)
  have "count_up (sq s) = Inr (sq s\<lparr>qcount := qcount (sq s) + 1\<rparr>)"
    using assms t by (auto simp: count_up_def in_int32_def qinv_def numbers_ok_def alone_def wcrit_def)
  moreover have "qinv (s\<lparr>sq := sq s\<lparr>qcount := qcount (sq s) + 1\<rparr>, wpc := AddLeave\<rparr>)" (is "qinv ?s")
  proof (rule numbers_move [OF assms(1)])
    show "locals_ok ?s" using assms(1) t by (auto simp: qinv_def locals_ok_def)
    show "numbers_ok ?s" using assms(1,3) t by (auto simp: qinv_def numbers_ok_def sent_def received_def)
  qed (use assms(3) t in \<open>auto simp: loose_def received_def sent_def\<close>)
  ultimately show ?thesis by (simp add: add_do_def)
qed

lemma add_done_inv:
  assumes "qinv s" and "wpc s = AddDone"
  shows "good qinv s (add_do added (AddReturn True) s)"
proof -
  have "added (sq s) = Inr (sq s\<lparr>add_count := add_count (sq s) + 1\<rparr>)"
    using assms by (auto simp: added_def ckd_long_def qinv_def numbers_ok_def)
  moreover have "qinv (s\<lparr>sq := sq s\<lparr>add_count := add_count (sq s) + 1\<rparr>, wpc := AddReturn True\<rparr>)" (is "qinv ?s")
  proof (rule numbers_move [OF assms(1)])
    show "locals_ok ?s" "numbers_ok ?s"
      using assms by (auto simp: qinv_def locals_ok_def numbers_ok_def sent_def received_def)
  qed (use assms(2) in \<open>simp_all add: loose_def received_def sent_def\<close>)
  ultimately show ?thesis by (simp add: add_do_def)
qed

lemma add_stmt_inv:
  assumes "qinv s" and "alone s" and "add_stmt s = Some r"
  shows "good qinv s r"
  using assms(3) add_start_inv [OF assms(1)] add_new_inv [OF assms(1,2)] add_link_inv [OF assms(1,2)]
    add_last_inv [OF assms(1,2)] add_count_inv [OF assms(1,2)] add_done_inv [OF assms(1)]
  by (auto simp: add_stmt_def split: add_pc.splits)

lemma get_start_inv:
  assumes "qinv s" and "rpc s = GetStart"
  shows "good qinv s (get_do attempt_get GetEnter (s\<lparr>rval := -1\<rparr>))"
proof (cases "get_attempts (sq s) + 1 < 2 ^ 63")
  case True
  then have "attempt_get (sq s) = Inr (sq s\<lparr>get_attempts := get_attempts (sq s) + 1\<rparr>)"
    using assms(1) qinv_Live [OF assms(1)] by (auto simp: attempt_get_def ckd_long_def qinv_def numbers_ok_def)
  moreover have "qinv (s\<lparr>rval := -1, sq := sq s\<lparr>get_attempts := get_attempts (sq s) + 1\<rparr>, rpc := GetEnter\<rparr>)" (is "qinv ?s")
  proof (rule numbers_move [OF assms(1)])
    show "locals_ok ?s" "numbers_ok ?s"
      using assms True by (auto simp: qinv_def locals_ok_def numbers_ok_def sent_def received_def)
  qed (use assms(2) in \<open>simp_all add: loose_def received_def sent_def\<close>)
  ultimately show ?thesis by (simp add: get_do_def)
next
  case False
  then have "\<not> counters_left s" by (simp add: counters_left_def)
  moreover have "\<exists>f. attempt_get (sq s) = Inl f" using False by (auto simp: attempt_get_def deref_def ckd_long_def)
  ultimately show ?thesis by (auto simp: get_do_def fault_ok_def)
qed

text \<open>While the reader is inside, the chain is whole and, until it unlinks the first node, not empty.\<close>

lemma reader_chain:
  assumes "qinv s" and "alone s" and "rcrit (rpc s)" and "rtag (rpc s) < 3"
  obtains a as where "qrep (sq s) {} (a # as) (expected s # [expected s + 1 .. sent s - 1])"
    and "last_q (sq s) = Some (last (a # as))" and "first_q (sq s) = Some a" and "expected s < sent s"
    and "wtag (wpc s) = 0 \<or> wtag (wpc s) = 4"
proof -
  have t: "wtag (wpc s) = 0 \<or> wtag (wpc s) = 4" using assms(2,3) not_wcrit_tag by (auto simp: alone_def)
  have l: "loose s = {}" "received s = expected s" using assms(4) t by (auto simp: loose_def received_def)
  have "wtag (wpc s) \<noteq> 2" using t by auto
  then obtain as where as: "qrep (sq s) {} as [expected s .. sent s - 1]" "as \<noteq> [] \<longrightarrow> last_q (sq s) = Some (last as)"
    by (rule chain_okE [OF assms(1), unfolded l])
  have lt: "expected s < sent s" using assms t l by (auto simp: alone_def qinv_def numbers_ok_def)
  then have u: "[expected s .. sent s - 1] = expected s # [expected s + 1 .. sent s - 1]" by (simp add: upto_rec1)
  obtain a bs where "as = a # bs" using qrep_length [OF as(1)] u by (cases as) auto
  then show ?thesis using that [of a bs] as u qrep_first [OF as(1)] lt t by auto
qed

lemma get_first_inv:
  assumes "qinv s" and "rpc s = GetFirst"
  shows "qinv (s\<lparr>rtmp := first_q (sq s), rpc := GetVal\<rparr>)"
  using assms by (auto simp: qinv_defs)

lemma get_val_inv:
  assumes "qinv s" and "alone s" and "rpc s = GetVal"
  shows "good qinv s (bindR (read_val (sq s) (rtmp s)) (\<lambda>v. Inr (s\<lparr>rval := v, rpc := GetNext\<rparr>)))"
proof -
  have c: "rcrit (rpc s)" "rtag (rpc s) < 3" using assms(3) by (auto simp: rcrit_def)
  obtain a as where a: "qrep (sq s) {} (a # as) (expected s # [expected s + 1 .. sent s - 1])" "first_q (sq s) = Some a"
    using reader_chain [OF assms(1,2) c] by blast
  have "rtmp s = first_q (sq s)" using assms(1,3) by (simp add: qinv_def locals_ok_def)
  then have "read_val (sq s) (rtmp s) = Inr (expected s)" using a read_val_ok by auto
  with assms(1,3) show ?thesis by (auto simp: qinv_defs)
qed

lemma get_next_inv:
  assumes "qinv s" and "alone s" and "rpc s = GetNext"
  shows "good qinv s (get_do unlink_first GetFree s)"
proof -
  have c: "rcrit (rpc s)" "rtag (rpc s) < 3" using assms(3) by (auto simp: rcrit_def)
  obtain a as where a: "qrep (sq s) {} (a # as) (expected s # [expected s + 1 .. sent s - 1])"
      "last_q (sq s) = Some (last (a # as))" "first_q (sq s) = Some a" "expected s < sent s"
      and t: "wtag (wpc s) = 0 \<or> wtag (wpc s) = 4"
    using reader_chain [OF assms(1,2) c] by blast
  obtain p where p: "unlink_first (sq s) = Inr (sq s\<lparr>first_q := p\<rparr>)"
      "qrep (sq s\<lparr>first_q := p\<rparr>) {a} as [expected s + 1 .. sent s - 1]"
    using unlink_first_ok [OF a(1)] by blast
  define s' where "s' = s\<lparr>sq := sq s\<lparr>first_q := p\<rparr>, rpc := GetFree\<rparr>"
  have tmp: "rtmp s = Some a" "rval s = expected s" using assms(1,3) a(3) by (auto simp: qinv_def locals_ok_def)
  have e: "loose s' = {a}" "received s' = expected s + 1" "sent s' = sent s"
    using t tmp by (auto simp: s'_def loose_def received_def sent_def)
  have "chain_ok s'" unfolding chain_ok_def e using p(2) a(2) t by (auto simp: s'_def)
  moreover have "locals_ok s'" using t tmp by (auto simp: s'_def locals_ok_def)
  moreover have "numbers_ok s'" unfolding numbers_ok_def e using assms(1,3) a(4) t
    by (auto simp: s'_def qinv_def numbers_ok_def received_def)
  ultimately show ?thesis using p(1) by (simp add: qinv_def s'_def get_do_def)
qed

lemma get_free_inv:
  assumes "qinv s" and "alone s" and "rpc s = GetFree"
  shows "good qinv s (get_do (\<lambda>q. free_node q (rtmp s)) GetCount s)"
proof -
  have t: "wtag (wpc s) = 0 \<or> wtag (wpc s) = 4" using assms(2,3) not_wcrit_tag by (auto simp: alone_def rcrit_def)
  obtain a where a: "rtmp s = Some a" using assms(1,3) by (auto simp: qinv_def locals_ok_def)
  have l: "loose s = {a}" using assms(3) t a by (auto simp: loose_def)
  have "wtag (wpc s) \<noteq> 2" using t by auto
  then obtain as where as: "qrep (sq s) {a} as [received s .. sent s - 1]" "as \<noteq> [] \<longrightarrow> last_q (sq s) = Some (last as)"
    by (rule chain_okE [OF assms(1), unfolded l])
  obtain h where h: "free_node (sq s) (Some a) = Inr (sq s\<lparr>qnodes := h\<rparr>)"
      "qrep (sq s\<lparr>qnodes := h\<rparr>) {} as [received s .. sent s - 1]"
    using free_node_ok [OF as(1)] by blast
  define s' where "s' = s\<lparr>sq := sq s\<lparr>qnodes := h\<rparr>, rpc := GetCount\<rparr>"
  have e: "loose s' = {}" "received s' = received s" "sent s' = sent s"
    using t assms(3) by (auto simp: s'_def loose_def received_def sent_def)
  have "chain_ok s'" unfolding chain_ok_def e using h(2) as(2) t by (auto simp: s'_def)
  moreover have "locals_ok s'" using assms(1,3) t by (auto simp: s'_def locals_ok_def qinv_def)
  moreover have "numbers_ok s'" unfolding numbers_ok_def e using assms(1,3) by (auto simp: s'_def qinv_def numbers_ok_def)
  ultimately show ?thesis using h(1) a by (simp add: qinv_def s'_def get_do_def)
qed

lemma get_count_inv:
  assumes "qinv s" and "alone s" and "rpc s = GetCount"
  shows "good qinv s (get_do count_down GetLeave s)"
proof -
  have t: "wtag (wpc s) = 0 \<or> wtag (wpc s) = 4" using assms(2,3) not_wcrit_tag by (auto simp: alone_def rcrit_def)
  have "qcount (sq s) \<le> 2 ^ 31" "0 < qcount (sq s)"
    using assms t by (auto simp: qinv_def numbers_ok_def alone_def rcrit_def sent_def received_def)
  then have "count_down (sq s) = Inr (sq s\<lparr>qcount := qcount (sq s) - 1\<rparr>)"
    by (auto simp: count_down_def in_int32_def)
  moreover have "qinv (s\<lparr>sq := sq s\<lparr>qcount := qcount (sq s) - 1\<rparr>, rpc := GetLeave\<rparr>)" (is "qinv ?s")
  proof (rule numbers_move [OF assms(1)])
    show "locals_ok ?s" using assms(1,3) t by (auto simp: qinv_def locals_ok_def)
    show "numbers_ok ?s" using assms(1,3) t by (auto simp: qinv_def numbers_ok_def sent_def received_def)
  qed (use assms(3) t in \<open>auto simp: loose_def received_def sent_def\<close>)
  ultimately show ?thesis by (simp add: get_do_def)
qed

lemma get_done_inv:
  assumes "qinv s" and "rpc s = GetDone"
  shows "good qinv s (get_do taken (GetReturn True) s)"
proof -
  have "taken (sq s) = Inr (sq s\<lparr>get_count := get_count (sq s) + 1\<rparr>)"
    using assms by (auto simp: taken_def ckd_long_def qinv_def numbers_ok_def)
  moreover have "qinv (s\<lparr>sq := sq s\<lparr>get_count := get_count (sq s) + 1\<rparr>, rpc := GetReturn True\<rparr>)" (is "qinv ?s")
  proof (rule numbers_move [OF assms(1)])
    show "locals_ok ?s" "numbers_ok ?s"
      using assms by (auto simp: qinv_def locals_ok_def numbers_ok_def sent_def received_def)
  qed (use assms(2) in \<open>simp_all add: loose_def received_def sent_def\<close>)
  ultimately show ?thesis by (simp add: get_do_def)
qed

lemma get_stmt_inv:
  assumes "qinv s" and "alone s" and "get_stmt s = Some r"
  shows "good qinv s r"
  using assms(3) get_start_inv [OF assms(1)] get_first_inv [OF assms(1)] get_val_inv [OF assms(1,2)]
    get_next_inv [OF assms(1,2)] get_free_inv [OF assms(1,2)] get_count_inv [OF assms(1,2)] get_done_inv [OF assms(1)]
  by (auto simp: get_stmt_def split: get_pc.splits)

section \<open>The contract of a version of the queue\<close>

text \<open>What the synchronisation of a version depends on: the program counters, the lock, the semaphores and the count.\<close>

type_synonym view = "add_pc \<times> get_pc \<times> thread option \<times> int \<times> int \<times> int \<times> int"

definition view :: "sys \<Rightarrow> view" where
  "view s = (wpc s, rpc s, slock s, full_sem s, empty_sem s, qcount (sq s), max_count (sq s))"

text \<open>The moves of the program counters outside the synchronisation, the loops and spurious wake-ups included.\<close>

inductive add_move :: "add_pc \<Rightarrow> add_pc \<Rightarrow> bool" where
  "add_move AddStart AddEnter" | "add_move AddNew AddLink" | "add_move AddLink AddLast" | "add_move AddLink AddCount"
| "add_move AddLast AddCount" | "add_move AddCount AddLeave" | "add_move AddDone (AddReturn True)"
| "add_move (AddReturn ok) AddStart" | "add_move AddSleep AddWake"

inductive get_move :: "get_pc \<Rightarrow> get_pc \<Rightarrow> bool" where
  "get_move GetStart GetEnter" | "get_move GetFirst GetVal" | "get_move GetVal GetNext" | "get_move GetNext GetFree"
| "get_move GetFree GetCount" | "get_move GetCount GetLeave" | "get_move GetDone (GetReturn True)"
| "get_move (GetReturn ok) GetStart" | "get_move GetSleep GetWake"

inductive_simps add_move_simps: "add_move pc pc'"
inductive_simps get_move_simps: "get_move pc pc'"

lemma queue_stmt_fields:
  "attempt_add q = Inr q' \<Longrightarrow> qcount q' = qcount q \<and> max_count q' = max_count q"
  "new_node mem q v = Inr (new, mem', q') \<Longrightarrow> qcount q' = qcount q \<and> max_count q' = max_count q"
  "link_next q new = Inr q' \<Longrightarrow> qcount q' = qcount q \<and> max_count q' = max_count q"
  "move_last q = Inr q' \<Longrightarrow> qcount q' = qcount q \<and> max_count q' = max_count q"
  "count_up q = Inr q' \<Longrightarrow> qcount q' = qcount q + 1 \<and> max_count q' = max_count q"
  "added q = Inr q' \<Longrightarrow> qcount q' = qcount q \<and> max_count q' = max_count q"
  "attempt_get q = Inr q' \<Longrightarrow> qcount q' = qcount q \<and> max_count q' = max_count q"
  "unlink_first q = Inr q' \<Longrightarrow> qcount q' = qcount q \<and> max_count q' = max_count q"
  "free_node q tmp = Inr q' \<Longrightarrow> qcount q' = qcount q \<and> max_count q' = max_count q"
  "count_down q = Inr q' \<Longrightarrow> qcount q' = qcount q - 1 \<and> max_count q' = max_count q"
  "taken q = Inr q' \<Longrightarrow> qcount q' = qcount q \<and> max_count q' = max_count q"
  by (auto simp: attempt_add_def new_node_def link_next_def move_last_def count_up_def added_def attempt_get_def
      unlink_first_def free_node_def count_down_def taken_def abort_with_def ckd_Inr_iff split: prod.splits if_splits)

lemma add_stmt_view:
  assumes "add_stmt s = Some (Inr s')"
  shows "add_move (wpc s) (wpc s')"
    and "view s' = (wpc s', rpc s, slock s, full_sem s, empty_sem s,
           if wpc s = AddCount then qcount (sq s) + 1 else qcount (sq s), max_count (sq s))"
    and "sout s' = sout s" and "crashed s' = crashed s"
  using assms
  by (auto simp: add_stmt_def add_do_def view_def link_first_def add_move_simps dest: queue_stmt_fields split: add_pc.splits if_splits)

lemma get_stmt_view:
  assumes "get_stmt s = Some (Inr s')"
  shows "get_move (rpc s) (rpc s')"
    and "view s' = (wpc s, rpc s', slock s, full_sem s, empty_sem s,
           if rpc s = GetCount then qcount (sq s) - 1 else qcount (sq s), max_count (sq s))"
    and "sout s' = sout s" and "crashed s' = crashed s"
  using assms
  by (auto simp: get_stmt_def get_do_def view_def get_move_simps dest: queue_stmt_fields split: get_pc.splits)

text \<open>A synchronisation step changes only the lock, the semaphores and program counters outside the structure.\<close>

definition sync :: "sys \<Rightarrow> sys \<Rightarrow> bool" where
  "sync s s' \<longleftrightarrow> sq s' = sq s \<and> smem s' = smem s \<and> wi s' = wi s \<and> wnew s' = wnew s \<and> rval s' = rval s \<and>
     expected s' = expected s \<and> rtmp s' = rtmp s \<and> sout s' = sout s \<and> crashed s' = crashed s \<and>
     wtag (wpc s') = wtag (wpc s) \<and> rtag (rpc s') = rtag (rpc s) \<and>
     (winside (wpc s') \<longrightarrow> winside (wpc s)) \<and> (rinside (rpc s') \<longrightarrow> rinside (rpc s))"

lemma sync_qinv:
  assumes "qinv s" and "sync s s'"
  shows "qinv s'"
proof -
  note e = assms(2) [unfolded sync_def]
  have "loose s' = loose s" "received s' = received s" "sent s' = sent s"
    using e by (simp_all add: loose_def received_def sent_def)
  moreover from this have "chain_ok s'" using chain_ok_frame [of s s'] assms(1) e by (simp add: qinv_def)
  moreover have "locals_ok s'" using assms(1) e by (simp add: qinv_def locals_ok_def)
  ultimately show ?thesis using assms(1) e by (simp add: qinv_def numbers_ok_def)
qed

definition wstmt :: "add_pc \<Rightarrow> bool" where
  "wstmt pc \<longleftrightarrow> pc \<in> {AddStart, AddNew, AddLink, AddLast, AddCount, AddDone}"

definition rstmt :: "get_pc \<Rightarrow> bool" where
  "rstmt pc \<longleftrightarrow> pc \<in> {GetStart, GetFirst, GetVal, GetNext, GetFree, GetCount, GetDone}"

definition out_ok :: "sys \<Rightarrow> bool" where
  "out_ok s \<longleftrightarrow> (\<forall>l \<in> set (sout s). \<exists>q. l = queue_print_stats q)"

lemma qinv_sout:
  assumes "qinv s"
  shows "qinv (s\<lparr>sout := l\<rparr>)" (is "qinv ?s")
proof (rule numbers_move [OF assms])
  show "locals_ok ?s" using assms by (simp add: qinv_def locals_ok_def)
  show "numbers_ok ?s" using assms by (simp add: qinv_def numbers_ok_def sent_def received_def)
qed (simp_all add: loose_def sent_def received_def)

text \<open>What the threads promise of a state: the queue links exactly the nodes of the values sent and not yet received, in
  order, no other node is allocated except the one a thread is about to link or to free, and the count is in range.\<close>

definition in_order :: "sys \<Rightarrow> bool" where
  "in_order s \<longleftrightarrow> 0 \<le> received s \<and> received s \<le> sent s \<and> (\<exists>as. qrep (sq s) (loose s) as [received s .. sent s - 1]) \<and>
     0 \<le> qcount (sq s) \<and> qcount (sq s) \<le> max_count (sq s)"

lemma stats_not_error: "queue_print_stats q \<noteq> error_line v e"
  by (simp add: queue_print_stats_def error_line_def)

lemma start_qinv: "0 \<le> m \<Longrightarrow> m < 2 ^ 31 \<Longrightarrow> qinv (start_threads (fresh_queue m) fs es mem)"
  by (simp add: qinv_defs start_threads_def) (simp add: fresh_queue_def qrep_def)

locale queue_protocol =
  fixes add :: "sys \<Rightarrow> sys res option" and get :: "sys \<Rightarrow> sys res option" and pinv :: "view \<Rightarrow> bool"
  assumes add_shared: "wstmt (wpc s) \<Longrightarrow> add s = add_stmt s"
    and get_shared: "rstmt (rpc s) \<Longrightarrow> get s = get_stmt s"
    and add_sync: "pinv (view s) \<Longrightarrow> \<not> wstmt (wpc s) \<Longrightarrow> wpc s \<notin> range AddReturn \<Longrightarrow> add s = Some r \<Longrightarrow>
      \<exists>s'. r = Inr s' \<and> sync s s' \<and> pinv (view s')"
    and get_sync: "pinv (view s) \<Longrightarrow> \<not> rstmt (rpc s) \<Longrightarrow> rpc s \<notin> range GetReturn \<Longrightarrow> get s = Some r \<Longrightarrow>
      \<exists>s'. r = Inr s' \<and> sync s s' \<and> pinv (view s')"
    and add_kept: "pinv (w, g, l, f, e, c, m) \<Longrightarrow> add_move w w' \<Longrightarrow> pinv (w', g, l, f, e, if w = AddCount then c + 1 else c, m)"
    and get_kept: "pinv (w, g, l, f, e, c, m) \<Longrightarrow> get_move g g' \<Longrightarrow> pinv (w, g', l, f, e, if g = GetCount then c - 1 else c, m)"
    and entered_alone: "pinv (view s) \<Longrightarrow> alone s"
    and count_bounded: "pinv (view s) \<Longrightarrow> 0 \<le> qcount (sq s) \<and> qcount (sq s) \<le> max_count (sq s)"
begin

definition inv :: "sys \<Rightarrow> bool" where
  "inv s \<longleftrightarrow> out_ok s \<and> (case crashed s of None \<Rightarrow> qinv s \<and> pinv (view s) | Some f \<Rightarrow> fault_ok s f)"

lemma writer_inv:
  assumes "inv s" and "crashed s = None" and "writer add s = Some r"
  shows "good inv s r"
proof -
  have q: "qinv s" "pinv (view s)" "out_ok s" using assms(1,2) by (auto simp: inv_def)
  consider (ret) ok where "wpc s = AddReturn ok" | (stmt) "wstmt (wpc s)"
    | (sync) "\<not> wstmt (wpc s)" "wpc s \<notin> range AddReturn" by blast
  then show ?thesis
  proof cases
    case ret
    have pv: "pinv (view (s\<lparr>wi := i, wpc := AddStart\<rparr>))" for i
      using add_kept [of "wpc s" "rpc s" "slock s" "full_sem s" "empty_sem s" "qcount (sq s)" "max_count (sq s)" AddStart] q(2) ret
      by (simp add: view_def add_move_simps)
    show ?thesis
    proof (cases "\<not> ok \<or> wi s + 1 < 2 ^ 31")
      case True
      define i where "i = (if ok then wi s + 1 else wi s)"
      have r: "r = Inr (s\<lparr>wi := i, wpc := AddStart\<rparr>)"
        using assms(3) ret True q(1) by (auto simp: writer_def i_def in_int32_def qinv_def numbers_ok_def sent_def received_def split: if_splits)
      have "qinv (s\<lparr>wi := i, wpc := AddStart\<rparr>)" (is "qinv ?s")
      proof (rule numbers_move [OF q(1)])
        show "locals_ok ?s" using q(1) ret by (auto simp: qinv_def locals_ok_def)
        show "numbers_ok ?s" using q(1) ret True by (auto simp: qinv_def numbers_ok_def i_def sent_def received_def)
      qed (use ret in \<open>auto simp: loose_def received_def sent_def i_def\<close>)
      then show ?thesis using pv q(3) assms(2) r by (simp add: inv_def out_ok_def)
    next
      case False
      then have "\<not> counters_left s" by (simp add: counters_left_def)
      moreover have "\<exists>f. r = Inl f" using assms(3) ret False by (auto simp: writer_def ckd_def in_int32_def)
      ultimately show ?thesis by (auto simp: fault_ok_def)
    qed
  next
    case stmt
    then have a: "add_stmt s = Some r" using assms(3) add_shared by (auto simp: writer_def wstmt_def split: add_pc.splits)
    have g: "good qinv s r" by (rule add_stmt_inv [OF q(1) entered_alone [OF q(2)] a])
    show ?thesis
    proof (cases r)
      case (Inr s')
      note v = add_stmt_view [OF a [unfolded Inr]]
      have "pinv (view s')"
        unfolding v(2) using add_kept [OF q(2) [unfolded view_def] v(1)] by simp
      then show ?thesis using g Inr v(3,4) q(3) assms(2) by (simp add: inv_def out_ok_def)
    qed (use g in simp)
  next
    case sync
    then have "add s = Some r" using assms(3) by (auto simp: writer_def split: add_pc.splits)
    then obtain s' where s': "r = Inr s'" "sync s s'" "pinv (view s')" using add_sync [OF q(2) sync] by blast
    then show ?thesis using sync_qinv [OF q(1) s'(2)] q(3) assms(2) by (simp add: inv_def out_ok_def sync_def)
  qed
qed

lemma reader_inv:
  assumes "inv s" and "crashed s = None" and "reader get s = Some r"
  shows "good inv s r"
proof -
  have q: "qinv s" "pinv (view s)" "out_ok s" using assms(1,2) by (auto simp: inv_def)
  consider (ret) ok where "rpc s = GetReturn ok" | (stmt) "rstmt (rpc s)"
    | (sync) "\<not> rstmt (rpc s)" "rpc s \<notin> range GetReturn" by blast
  then show ?thesis
  proof cases
    case ret
    have pv: "pinv (view (s\<lparr>expected := e, rpc := GetStart\<rparr>))" for e
      using get_kept [of "wpc s" "rpc s" "slock s" "full_sem s" "empty_sem s" "qcount (sq s)" "max_count (sq s)" GetStart] q(2) ret
      by (simp add: view_def get_move_simps)
    define e where "e = (if ok then expected s + 1 else expected s)"
    show ?thesis
    proof (cases r)
      case (Inl f)
      then have "\<not> in_int32 (expected s + 1)" "ok"
        using assms(3) ret q(1) by (auto simp: reader_def ckd_def qinv_def locals_ok_def Let_def split: if_splits)
      then have "\<not> counters_left s"
        using q(1) ret by (auto simp: qinv_def numbers_ok_def counters_left_def sent_def received_def in_int32_def split: if_splits)
      then show ?thesis using Inl by (simp add: fault_ok_def)
    next
      case (Inr s')
      then have s': "s' = s\<lparr>expected := e, rpc := GetStart\<rparr>"
        using assms(3) ret q(1) by (auto simp: reader_def e_def ckd_Inr_iff qinv_def locals_ok_def Let_def split: if_splits)
      have "qinv (s\<lparr>expected := e, rpc := GetStart\<rparr>)" (is "qinv ?s")
      proof (rule numbers_move [OF q(1)])
        show "locals_ok ?s" using q(1) ret by (auto simp: qinv_def locals_ok_def)
        show "numbers_ok ?s" using q(1) ret by (auto simp: qinv_def numbers_ok_def e_def sent_def received_def)
      qed (use ret in \<open>auto simp: loose_def received_def sent_def e_def\<close>)
      then show ?thesis using pv q(3) assms(2) Inr s' by (simp add: inv_def out_ok_def)
    qed
  next
    case stmt
    then have a: "get_stmt s = Some r" using assms(3) get_shared by (auto simp: reader_def rstmt_def split: get_pc.splits)
    have g: "good qinv s r" by (rule get_stmt_inv [OF q(1) entered_alone [OF q(2)] a])
    show ?thesis
    proof (cases r)
      case (Inr s')
      note v = get_stmt_view [OF a [unfolded Inr]]
      have "pinv (view s')"
        unfolding v(2) using get_kept [OF q(2) [unfolded view_def] v(1)] by simp
      then show ?thesis using g Inr v(3,4) q(3) assms(2) by (simp add: inv_def out_ok_def)
    qed (use g in simp)
  next
    case sync
    then have "get s = Some r" using assms(3) by (auto simp: reader_def split: get_pc.splits)
    then obtain s' where s': "r = Inr s'" "sync s s'" "pinv (view s')" using get_sync [OF q(2) sync] by blast
    then show ?thesis using sync_qinv [OF q(1) s'(2)] q(3) assms(2) by (simp add: inv_def out_ok_def sync_def)
  qed
qed

lemma step_inv:
  assumes "step add get s s'" and "inv s"
  shows "inv s'"
  using assms(1)
proof cases
  case writer
  then show ?thesis using writer_inv [OF assms(2) writer(1,2)] by simp
next
  case (writer_fault f)
  then show ?thesis using writer_inv [OF assms(2) writer_fault(2,3)] assms(2)
    by (simp add: inv_def out_ok_def fault_ok_def counters_left_def)
next
  case reader
  then show ?thesis using reader_inv [OF assms(2) reader(1,2)] by simp
next
  case (reader_fault f)
  then show ?thesis using reader_inv [OF assms(2) reader_fault(2,3)] assms(2)
    by (simp add: inv_def out_ok_def fault_ok_def counters_left_def)
next
  case monitor
  have "sync (s\<lparr>sout := sout s'\<rparr>) s'" using monitor by (simp add: sync_def qmonitor_def)
  moreover have "qinv (s\<lparr>sout := sout s'\<rparr>)" using assms(2) monitor(2) qinv_sout [of s "sout s'"] by (simp add: inv_def)
  ultimately have "qinv s'" by (rule sync_qinv [rotated])
  moreover have "out_ok s'" using assms(2) monitor(1) by (auto simp: inv_def qmonitor_def out_ok_def)
  moreover have "view s' = view s" "crashed s' = None" using monitor by (simp_all add: qmonitor_def view_def)
  ultimately show ?thesis using assms(2) monitor(2) by (simp add: inv_def)
next
  case spurious_add
  have "pinv (view s')"
    using add_kept [of "wpc s" "rpc s" "slock s" "full_sem s" "empty_sem s" "qcount (sq s)" "max_count (sq s)" AddWake]
      assms(2) spurious_add by (simp add: inv_def view_def add_move_simps)
  moreover have "sync s s'" using spurious_add by (simp add: sync_def)
  ultimately show ?thesis using assms(2) sync_qinv [of s s'] spurious_add by (simp add: inv_def out_ok_def)
next
  case spurious_get
  have "pinv (view s')"
    using get_kept [of "wpc s" "rpc s" "slock s" "full_sem s" "empty_sem s" "qcount (sq s)" "max_count (sq s)" GetWake]
      assms(2) spurious_get by (simp add: inv_def view_def get_move_simps)
  moreover have "sync s s'" using spurious_get by (simp add: sync_def)
  ultimately show ?thesis using assms(2) sync_qinv [of s s'] spurious_get by (simp add: inv_def out_ok_def)
qed

lemma reach_inv: "reach add get s0 s \<Longrightarrow> inv s0 \<Longrightarrow> inv s"
  by (induction rule: reach.induct) (auto intro: step_inv)

lemma started_inv:
  assumes "reach add get (start_threads (fresh_queue m) fs es mem) s" and "0 \<le> m" and "m < 2 ^ 31"
    and "pinv (view (start_threads (fresh_queue m) fs es mem))"
  shows "inv s"
  using reach_inv [OF assms(1)] start_qinv [OF assms(2,3)] assms(4) by (simp add: inv_def out_ok_def start_threads_def)

lemma delivers:
  assumes "inv s" and "counters_left s"
  shows "(crashed s = None \<and> in_order s \<or> crashed s = Some out_of_memory) \<and> (\<forall>v e. error_line v e \<notin> set (sout s))"
proof
  show "\<forall>v e. error_line v e \<notin> set (sout s)"
  proof (intro allI notI)
    fix v e
    assume "error_line v e \<in> set (sout s)"
    then obtain q where "error_line v e = queue_print_stats q" using assms(1) by (auto simp: inv_def out_ok_def)
    then show False using stats_not_error [of q v e] by simp
  qed
  show "crashed s = None \<and> in_order s \<or> crashed s = Some out_of_memory"
  proof (cases "crashed s")
    case None
    then have q: "qinv s" "pinv (view s)" using assms(1) by (auto simp: inv_def)
    have "\<exists>as. qrep (sq s) (loose s) as [received s .. sent s - 1]" using q(1) by (auto simp: qinv_def chain_ok_def)
    moreover have "0 \<le> received s" "received s \<le> sent s" using q(1) by (auto simp: qinv_def numbers_ok_def received_def)
    ultimately show ?thesis using None count_bounded [OF q(2)] by (simp add: in_order_def)
  next
    case (Some f)
    then show ?thesis using assms by (simp add: inv_def fault_ok_def)
  qed
qed

end

section \<open>Without synchronisation\<close>

text \<open>\<open>queue.c\<close> under the same threads: no lock around the statements.\<close>

definition unlocked_add :: "sys \<Rightarrow> sys res option" where
  "unlocked_add s = (case wpc s of
     AddEnter \<Rightarrow> Some (assertR (qcount (sq s) \<le> max_count (sq s))
       (Inr (s\<lparr>wpc := if qcount (sq s) = max_count (sq s) then AddReturn False else AddNew\<rparr>)))
   | AddLeave \<Rightarrow> Some (Inr (s\<lparr>wpc := AddDone\<rparr>))
   | _ \<Rightarrow> add_stmt s)"

definition unlocked_get :: "sys \<Rightarrow> sys res option" where
  "unlocked_get s = (case rpc s of
     GetEnter \<Rightarrow> Some (assertR (0 \<le> qcount (sq s))
       (Inr (s\<lparr>rpc := if qcount (sq s) = 0 then GetReturn False else GetFirst\<rparr>)))
   | GetLeave \<Rightarrow> Some (Inr (s\<lparr>rpc := GetDone\<rparr>))
   | _ \<Rightarrow> get_stmt s)"

text \<open>The steps of a given schedule.\<close>

fun run_schedule :: "thread list \<Rightarrow> sys \<Rightarrow> sys res" where
  "run_schedule [] s = Inr s"
| "run_schedule (t # ts) s =
     (case (case t of Writer \<Rightarrow> writer unlocked_add s | Reader \<Rightarrow> reader unlocked_get s) of
        None \<Rightarrow> run_schedule ts s | Some r \<Rightarrow> bindR r (run_schedule ts))"

text \<open>The reader frees the node that the writer has just linked its own node to, and the writer then reads it.\<close>

lemma unlocked_use_after_free:
  "run_schedule (replicate 12 Writer @ replicate 6 Reader @ [Writer])
     (start_threads (fresh_queue 10) 0 0 []) = Inl Undefined"
  "\<exists>s. run_schedule (replicate 12 Writer @ replicate 6 Reader)
     (start_threads (fresh_queue 10) 0 0 []) = Inr s"
proof -
  show "run_schedule (replicate 12 Writer @ replicate 6 Reader @ [Writer])
     (start_threads (fresh_queue 10) 0 0 []) = Inl Undefined" by code_simp
  have "case run_schedule (replicate 12 Writer @ replicate 6 Reader)
     (start_threads (fresh_queue 10) 0 0 []) of Inl _ \<Rightarrow> False | Inr _ \<Rightarrow> True" by code_simp
  then show "\<exists>s. run_schedule (replicate 12 Writer @ replicate 6 Reader)
     (start_threads (fresh_queue 10) 0 0 []) = Inr s" by (auto split: sum.splits)
qed

end
