(* ===== verification/Queue_Mutex.thy ===== *)
theory Queue_Mutex
  imports Queue_Threads
begin

text \<open>
  \<open>OS-Labs/10-sync/queue-mutex.c\<close>: the queue with a mutex around each operation; a full or an empty queue makes the
  operation return 0.
\<close>

section \<open>Definitions\<close>

definition queue_init :: "(int \<Rightarrow> string) \<Rightarrow> bool \<Rightarrow> int \<Rightarrow> mem \<Rightarrow> int \<Rightarrow> sys res" where
  "queue_init strerror q_ok err mem mc =
     bindR (Shared_Queue.queue_init strerror q_ok err mc) (\<lambda>q. Inr (start_threads q 0 0 mem))"

definition queue_destroy :: "int \<Rightarrow> int \<Rightarrow> string \<Rightarrow> sys \<Rightarrow> queue_t res" where
  "queue_destroy cancelled joined err s =
     bindR (Shared_Queue.queue_destroy cancelled joined err (sq s)) (\<lambda>q.
     if slock s = None then Inr q else Inl Undefined)"

definition queue_add :: "sys \<Rightarrow> sys res option" where
  "queue_add s = (case wpc s of
     AddEnter \<Rightarrow> lock_by Writer (s\<lparr>wpc := AddTest\<rparr>)
   | AddTest \<Rightarrow> Some (assertR (qcount (sq s) \<le> max_count (sq s))
       (Inr (s\<lparr>wpc := if qcount (sq s) = max_count (sq s) then AddFull else AddNew\<rparr>)))
   | AddFull \<Rightarrow> Some (unlock_by Writer (s\<lparr>wpc := AddReturn False\<rparr>))
   | AddLeave \<Rightarrow> Some (unlock_by Writer (s\<lparr>wpc := AddDone\<rparr>))
   | _ \<Rightarrow> add_stmt s)"

definition queue_get :: "sys \<Rightarrow> sys res option" where
  "queue_get s = (case rpc s of
     GetEnter \<Rightarrow> lock_by Reader (s\<lparr>rpc := GetTest\<rparr>)
   | GetTest \<Rightarrow> Some (assertR (0 \<le> qcount (sq s))
       (Inr (s\<lparr>rpc := if qcount (sq s) = 0 then GetEmpty else GetFirst\<rparr>)))
   | GetEmpty \<Rightarrow> Some (unlock_by Reader (s\<lparr>rpc := GetReturn False\<rparr>))
   | GetLeave \<Rightarrow> Some (unlock_by Reader (s\<lparr>rpc := GetDone\<rparr>))
   | _ \<Rightarrow> get_stmt s)"

section \<open>The protocol\<close>

fun wheld :: "add_pc \<Rightarrow> bool" where
  "wheld AddTest = True" | "wheld AddFull = True" | "wheld AddLeave = True" | "wheld pc = wcrit pc"

fun rheld :: "get_pc \<Rightarrow> bool" where
  "rheld GetTest = True" | "rheld GetEmpty = True" | "rheld GetLeave = True" | "rheld pc = rcrit pc"

fun mutex_ok :: "view \<Rightarrow> bool" where
  "mutex_ok (w, r, l, f, e, c, m) \<longleftrightarrow>
     (l = Some Writer \<longleftrightarrow> wheld w) \<and>
     (l = Some Reader \<longleftrightarrow> rheld r) \<and>
     w \<notin> {AddSem, AddLock, AddSleep, AddWake, AddUnlock} \<and> r \<notin> {GetSem, GetLock, GetSleep, GetWake, GetUnlock} \<and>
     0 \<le> c \<and> c \<le> m \<and> (wcrit w \<longrightarrow> c < m) \<and> (rcrit r \<longrightarrow> 0 < c)"

lemma mutex_add_sync:
  assumes "mutex_ok (view s)" and "\<not> wstmt (wpc s)" and "wpc s \<notin> range AddReturn" and "queue_add s = Some r"
  shows "\<exists>s'. r = Inr s' \<and> sync s s' \<and> mutex_ok (view s')"
  using assms
  by (cases "wpc s") (auto simp: queue_add_def wstmt_def view_def lock_by_def unlock_by_def sync_def split: if_splits)

lemma mutex_get_sync:
  assumes "mutex_ok (view s)" and "\<not> rstmt (rpc s)" and "rpc s \<notin> range GetReturn" and "queue_get s = Some r"
  shows "\<exists>s'. r = Inr s' \<and> sync s s' \<and> mutex_ok (view s')"
  using assms
  by (cases "rpc s") (auto simp: queue_get_def rstmt_def view_def lock_by_def unlock_by_def sync_def split: if_splits)

interpretation mutex: queue_protocol queue_add queue_get mutex_ok
proof unfold_locales
  show "queue_add s = add_stmt s" if "wstmt (wpc s)" for s using that by (auto simp: queue_add_def wstmt_def)
  show "queue_get s = get_stmt s" if "rstmt (rpc s)" for s using that by (auto simp: queue_get_def rstmt_def)
  show "mutex_ok (w', g, l, f, e, if w = AddCount then c + 1 else c, m)" if "mutex_ok (w, g, l, f, e, c, m)" "add_move w w'"
    for w g l f e c m w' using that(2,1) by cases auto
  show "mutex_ok (w, g', l, f, e, if g = GetCount then c - 1 else c, m)" if "mutex_ok (w, g, l, f, e, c, m)" "get_move g g'"
    for w g l f e c m g' using that(2,1) by cases auto
  have "wcrit w \<Longrightarrow> wheld w" "rcrit g \<Longrightarrow> rheld g" for w g by (cases w; simp) (cases g; simp)
  then show "alone s" if "mutex_ok (view s)" for s using that by (auto simp: view_def alone_def)
  show "0 \<le> qcount (sq s) \<and> qcount (sq s) \<le> max_count (sq s)" if "mutex_ok (view s)" for s using that by (simp add: view_def)
qed (fact mutex_add_sync mutex_get_sync)+

lemma mutex_progress:
  assumes "mutex_ok (view s)"
  shows "writer queue_add s \<noteq> None \<or> reader queue_get s \<noteq> None"
proof (cases "slock s = Some Writer")
  case True
  then have "wheld (wpc s)" using assms by (simp add: view_def)
  then show ?thesis by (cases "wpc s") (auto simp: writer_def queue_add_def add_stmt_def)
next
  case False
  then have "rpc s \<notin> {GetSem, GetLock, GetSleep, GetWake, GetUnlock}" "wpc s \<notin> {AddSem, AddLock, AddSleep, AddWake, AddUnlock}"
    using assms by (auto simp: view_def)
  moreover have "slock s = None \<or> rheld (rpc s)"
    using assms False by (cases "slock s"; cases "the (slock s)") (auto simp: view_def)
  ultimately show ?thesis
    by (cases "rpc s") (auto simp: reader_def queue_get_def get_stmt_def lock_by_def)
qed

lemma queue_init_start:
  assumes "queue_init strerror q_ok err mem m = Inr s0"
  shows "s0 = start_threads (fresh_queue m) 0 0 mem"
  using assms by (auto simp: queue_init_def Shared_Queue.queue_init_def abort_with_def split: if_splits)

text \<open>C26: with the mutex version, in every interleaving of the writer, the reader and the monitor and as long as no counter
  is at the end of its range, the process has not failed except for want of memory, the queue holds exactly the
  values sent and not yet received in order, nothing leaks, the reader has reported no error, and
  some thread other than the monitor can run.\<close>

theorem mutex_queue_in_order:
  assumes "queue_init strerror q_ok err mem m = Inr s0" and "0 \<le> m" and "m < 2 ^ 31"
    and "reach queue_add queue_get s0 s" and "counters_left s"
  shows "(crashed s = None \<and> in_order s \<and> (writer queue_add s \<noteq> None \<or> reader queue_get s \<noteq> None) \<or>
      crashed s = Some out_of_memory) \<and> (\<forall>v e. error_line v e \<notin> set (sout s))"
proof -
  have "mutex_ok (view (start_threads (fresh_queue m) 0 0 mem))"
    using assms(2) by (simp add: view_def start_threads_def fresh_queue_def wcrit_def rcrit_def)
  then have i: "mutex.inv s" using mutex.started_inv assms(2-4) queue_init_start [OF assms(1)] by blast
  then have "crashed s = None \<Longrightarrow> mutex_ok (view s)" by (simp add: mutex.inv_def)
  then show ?thesis using mutex.delivers [OF i assms(5)] mutex_progress [of s] by auto
qed

text \<open>The state in which \<open>main\<close> has started the threads.\<close>

theorem mutex_queue_in_order_witness:
  "\<exists>s. threads_main (\<lambda>_. []) (queue_init (\<lambda>_. []) True 0 []) 0 0 = Inr s \<and> in_order s"
proof -
  let ?s = "start_threads (fresh_queue QUEUE_SIZE) 0 0 []"
  have i: "queue_init (\<lambda>_. []) True 0 [] QUEUE_SIZE = Inr ?s"
    by (simp add: queue_init_def Shared_Queue.queue_init_def)
  have "crashed ?s = None \<and> in_order ?s"
    using mutex_queue_in_order [OF i _ _ reach.start]
    by (simp add: QUEUE_SIZE_def counters_left_def start_threads_def fresh_queue_def)
  then show ?thesis using i by (simp add: threads_main_def)
qed

end
