(* ===== verification/Queue_Spinlock.thy ===== *)
theory Queue_Spinlock
  imports Queue_Mutex
begin

text \<open>
  \<open>OS-Labs/10-sync/queue-spinlock.c\<close>: the same queue with a spin lock.  A thread that finds the lock taken keeps
  running without effect instead of blocking.
\<close>

section \<open>Definitions\<close>

definition queue_init :: "(int \<Rightarrow> string) \<Rightarrow> bool \<Rightarrow> bool \<Rightarrow> string \<Rightarrow> int \<Rightarrow> mem \<Rightarrow> int \<Rightarrow> sys res" where
  "queue_init strerror q_ok spin_ok spin_msg err mem mc =
     (if q_ok \<and> \<not> spin_ok then abort_with (''Failed to init spinlock: '' @ spin_msg)
      else bindR (Shared_Queue.queue_init strerror q_ok err mc) (\<lambda>q. Inr (start_threads q 0 0 mem)))"

definition queue_destroy :: "int \<Rightarrow> int \<Rightarrow> string \<Rightarrow> sys \<Rightarrow> queue_t res" where
  "queue_destroy cancelled joined err s =
     bindR (Shared_Queue.queue_destroy cancelled joined err (sq s)) (\<lambda>q.
     if slock s = None then Inr q else Inl Undefined)"

text \<open>One turn of the loop that waits for the lock and then goes on with \<open>s'\<close>.\<close>

definition spin_lock :: "thread \<Rightarrow> sys \<Rightarrow> sys \<Rightarrow> sys res" where
  "spin_lock t s s' = (if slock s = None then Inr (s'\<lparr>slock := Some t\<rparr>) else Inr s)"

definition queue_add :: "sys \<Rightarrow> sys res option" where
  "queue_add s = (case wpc s of
     AddEnter \<Rightarrow> Some (spin_lock Writer s (s\<lparr>wpc := AddTest\<rparr>))
   | AddTest \<Rightarrow> Some (assertR (qcount (sq s) \<le> max_count (sq s))
       (Inr (s\<lparr>wpc := if qcount (sq s) = max_count (sq s) then AddFull else AddNew\<rparr>)))
   | AddFull \<Rightarrow> Some (unlock_by Writer (s\<lparr>wpc := AddReturn False\<rparr>))
   | AddLeave \<Rightarrow> Some (unlock_by Writer (s\<lparr>wpc := AddDone\<rparr>))
   | _ \<Rightarrow> add_stmt s)"

definition queue_get :: "sys \<Rightarrow> sys res option" where
  "queue_get s = (case rpc s of
     GetEnter \<Rightarrow> Some (spin_lock Reader s (s\<lparr>rpc := GetTest\<rparr>))
   | GetTest \<Rightarrow> Some (assertR (0 \<le> qcount (sq s))
       (Inr (s\<lparr>rpc := if qcount (sq s) = 0 then GetEmpty else GetFirst\<rparr>)))
   | GetEmpty \<Rightarrow> Some (unlock_by Reader (s\<lparr>rpc := GetReturn False\<rparr>))
   | GetLeave \<Rightarrow> Some (unlock_by Reader (s\<lparr>rpc := GetDone\<rparr>))
   | _ \<Rightarrow> get_stmt s)"

section \<open>The protocol\<close>

text \<open>Except for the turns spent waiting, the threads do what they do with the mutex.\<close>

lemma spin_add:
  "queue_add s = (if wpc s = AddEnter \<and> slock s \<noteq> None then Some (Inr s) else Queue_Mutex.queue_add s)"
  by (cases "wpc s") (auto simp: queue_add_def Queue_Mutex.queue_add_def spin_lock_def lock_by_def)

lemma spin_get:
  "queue_get s = (if rpc s = GetEnter \<and> slock s \<noteq> None then Some (Inr s) else Queue_Mutex.queue_get s)"
  by (cases "rpc s") (auto simp: queue_get_def Queue_Mutex.queue_get_def spin_lock_def lock_by_def)

lemma sync_refl: "sync s s"
  by (simp add: sync_def)

interpretation spin: queue_protocol queue_add queue_get mutex_ok
proof unfold_locales
  show "queue_add s = add_stmt s" if "wstmt (wpc s)" for s using that by (auto simp: queue_add_def wstmt_def)
  show "queue_get s = get_stmt s" if "rstmt (rpc s)" for s using that by (auto simp: queue_get_def rstmt_def)
  show "\<exists>s'. r = Inr s' \<and> sync s s' \<and> mutex_ok (view s')"
    if "mutex_ok (view s)" "\<not> wstmt (wpc s)" "wpc s \<notin> range AddReturn" "queue_add s = Some r" for s r
    using that mutex_add_sync [OF that(1-3), of r] sync_refl [of s] by (auto simp: spin_add split: if_splits)
  show "\<exists>s'. r = Inr s' \<and> sync s s' \<and> mutex_ok (view s')"
    if "mutex_ok (view s)" "\<not> rstmt (rpc s)" "rpc s \<notin> range GetReturn" "queue_get s = Some r" for s r
    using that mutex_get_sync [OF that(1-3), of r] sync_refl [of s] by (auto simp: spin_get split: if_splits)
qed (fact mutex.add_kept mutex.get_kept mutex.entered_alone mutex.count_bounded)+

lemma spin_init_start:
  assumes "queue_init strerror q_ok spin_ok msg err mem m = Inr s0"
  shows "s0 = start_threads (fresh_queue m) 0 0 mem"
  using assms by (auto simp: queue_init_def Shared_Queue.queue_init_def abort_with_def split: if_splits)

text \<open>The thread that holds the lock never spins: it is the one whose turns make progress.\<close>

lemma holder_does_not_spin:
  assumes "mutex_ok (view s)"
  shows "slock s = Some Writer \<Longrightarrow> wpc s \<noteq> AddEnter" and "slock s = Some Reader \<Longrightarrow> rpc s \<noteq> GetEnter"
  using assms by (auto simp: view_def)

lemma spinning:
  "queue_add s = Some (Inr s) \<Longrightarrow> wpc s = AddEnter \<and> slock s \<noteq> None"
  "queue_get s = Some (Inr s) \<Longrightarrow> rpc s = GetEnter \<and> slock s \<noteq> None"
proof -
  have pc: "add_stmt s \<noteq> Some (Inr s)" "get_stmt s \<noteq> Some (Inr s)" "s\<lparr>wpc := w\<rparr> = s \<Longrightarrow> wpc s = w" "s\<lparr>rpc := r\<rparr> = s \<Longrightarrow> rpc s = r"
    "s\<lparr>wpc := w, slock := l\<rparr> = s \<Longrightarrow> wpc s = w" "s\<lparr>rpc := r, slock := l\<rparr> = s \<Longrightarrow> rpc s = r" for w r l
    using add_stmt_view(1) [of s s] get_stmt_view(1) [of s s]
    by (auto simp: add_move_simps get_move_simps dest: arg_cong [where f = wpc] arg_cong [where f = rpc])
  show "queue_add s = Some (Inr s) \<Longrightarrow> wpc s = AddEnter \<and> slock s \<noteq> None"
    by (cases "wpc s") (auto simp: queue_add_def spin_lock_def unlock_by_def pc(1) dest: pc(3,5) split: if_splits)
  show "queue_get s = Some (Inr s) \<Longrightarrow> rpc s = GetEnter \<and> slock s \<noteq> None"
    by (cases "rpc s") (auto simp: queue_get_def spin_lock_def unlock_by_def pc(2) dest: pc(4,6) split: if_splits)
qed

text \<open>C27: with the spin lock version, in every interleaving and as long as no counter is at the end of its range, the
  process has not failed except for want of memory, the queue holds exactly the values sent and not yet received
  in order, nothing leaks, the reader has reported no error, and a thread that spins is not the one that holds the lock.\<close>

theorem spinlock_queue_in_order:
  assumes "queue_init strerror q_ok spin_ok msg err mem m = Inr s0" and "0 \<le> m" and "m < 2 ^ 31"
    and "reach queue_add queue_get s0 s" and "counters_left s"
  shows "(crashed s = None \<and> in_order s \<and>
        (queue_add s = Some (Inr s) \<longrightarrow> slock s = Some Reader) \<and> (queue_get s = Some (Inr s) \<longrightarrow> slock s = Some Writer) \<or>
      crashed s = Some out_of_memory) \<and> (\<forall>v e. error_line v e \<notin> set (sout s))"
proof -
  have "mutex_ok (view (start_threads (fresh_queue m) 0 0 mem))"
    using assms(2) by (simp add: view_def start_threads_def fresh_queue_def)
  then have i: "spin.inv s" using spin.started_inv assms(2-4) spin_init_start [OF assms(1)] by blast
  have ok: "mutex_ok (view s)" if "crashed s = None" using i that by (simp add: spin.inv_def)
  have "slock s = Some Reader" if "crashed s = None" "queue_add s = Some (Inr s)"
    using spinning(1) [OF that(2)] holder_does_not_spin(1) [OF ok [OF that(1)]] by (cases "slock s"; cases "the (slock s)") auto
  moreover have "slock s = Some Writer" if "crashed s = None" "queue_get s = Some (Inr s)"
    using spinning(2) [OF that(2)] holder_does_not_spin(2) [OF ok [OF that(1)]] by (cases "slock s"; cases "the (slock s)") auto
  ultimately show ?thesis using spin.delivers [OF i assms(5)] by auto
qed

theorem spinlock_queue_in_order_witness:
  "\<exists>s. threads_main (\<lambda>_. []) (queue_init (\<lambda>_. []) True True [] 0 []) 0 0 = Inr s \<and> in_order s"
proof -
  let ?s = "start_threads (fresh_queue QUEUE_SIZE) 0 0 []"
  have i: "queue_init (\<lambda>_. []) True True [] 0 [] QUEUE_SIZE = Inr ?s"
    by (simp add: queue_init_def Shared_Queue.queue_init_def)
  have "crashed ?s = None \<and> in_order ?s"
    using spinlock_queue_in_order [OF i _ _ reach.start]
    by (simp add: QUEUE_SIZE_def counters_left_def start_threads_def fresh_queue_def)
  then show ?thesis using i by (simp add: threads_main_def)
qed

end
