(* ===== verification/Queue_Semaphore.thy ===== *)
theory Queue_Semaphore
  imports Queue_Threads
begin

text \<open>
  \<open>OS-Labs/10-sync/queue-semaphore.c\<close>: the queue with two counting semaphores, one for the free places and one for the
  values, and a mutex for the structure.
\<close>

section \<open>Definitions\<close>

definition queue_init :: "(int \<Rightarrow> string) \<Rightarrow> bool \<Rightarrow> int \<Rightarrow> mem \<Rightarrow> int \<Rightarrow> sys res" where
  "queue_init strerror q_ok err mem mc =
     bindR (Shared_Queue.queue_init strerror q_ok err mc) (\<lambda>q. Inr (start_threads q 0 mc mem))"

definition queue_destroy :: "int \<Rightarrow> int \<Rightarrow> string \<Rightarrow> sys \<Rightarrow> queue_t res" where
  "queue_destroy cancelled joined err s =
     bindR (Shared_Queue.queue_destroy cancelled joined err (sq s)) (\<lambda>q.
     if slock s = None then Inr q else Inl Undefined)"

text \<open>\<open>sem_wait\<close> blocks while the semaphore is 0.\<close>

definition wait_empty :: "sys \<Rightarrow> sys res option" where
  "wait_empty s = (if 0 < empty_sem s then Some (Inr (s\<lparr>empty_sem := empty_sem s - 1\<rparr>)) else None)"

definition wait_full :: "sys \<Rightarrow> sys res option" where
  "wait_full s = (if 0 < full_sem s then Some (Inr (s\<lparr>full_sem := full_sem s - 1\<rparr>)) else None)"

definition queue_add :: "sys \<Rightarrow> sys res option" where
  "queue_add s = (case wpc s of
     AddEnter \<Rightarrow> Some (assertR (qcount (sq s) \<le> max_count (sq s)) (Inr (s\<lparr>wpc := AddSem\<rparr>)))
   | AddSem \<Rightarrow> wait_empty (s\<lparr>wpc := AddLock\<rparr>)
   | AddLock \<Rightarrow> lock_by Writer (s\<lparr>wpc := AddNew\<rparr>)
   | AddLeave \<Rightarrow> Some (Inr (s\<lparr>full_sem := full_sem s + 1, wpc := AddUnlock\<rparr>))
   | AddUnlock \<Rightarrow> Some (unlock_by Writer (s\<lparr>wpc := AddDone\<rparr>))
   | _ \<Rightarrow> add_stmt s)"

definition queue_get :: "sys \<Rightarrow> sys res option" where
  "queue_get s = (case rpc s of
     GetEnter \<Rightarrow> Some (assertR (0 \<le> qcount (sq s)) (Inr (s\<lparr>rpc := GetSem\<rparr>)))
   | GetSem \<Rightarrow> wait_full (s\<lparr>rpc := GetLock\<rparr>)
   | GetLock \<Rightarrow> lock_by Reader (s\<lparr>rpc := GetFirst\<rparr>)
   | GetLeave \<Rightarrow> Some (Inr (s\<lparr>empty_sem := empty_sem s + 1, rpc := GetUnlock\<rparr>))
   | GetUnlock \<Rightarrow> Some (unlock_by Reader (s\<lparr>rpc := GetDone\<rparr>))
   | _ \<Rightarrow> get_stmt s)"

section \<open>The protocol\<close>

text \<open>The places and values a thread has reserved and not yet given back.\<close>

fun place_taken :: "add_pc \<Rightarrow> int" where
  "place_taken AddLock = 1" | "place_taken pc = (if wcrit pc then 1 else 0)"

fun value_due :: "add_pc \<Rightarrow> int" where
  "value_due AddLeave = 1" | "value_due pc = 0"

fun value_taken :: "get_pc \<Rightarrow> int" where
  "value_taken GetLock = 1" | "value_taken pc = (if rcrit pc then 1 else 0)"

fun place_due :: "get_pc \<Rightarrow> int" where
  "place_due GetLeave = 1" | "place_due pc = 0"

fun wheld_sem :: "add_pc \<Rightarrow> bool" where
  "wheld_sem AddLeave = True" | "wheld_sem AddUnlock = True" | "wheld_sem pc = wcrit pc"

fun rheld_sem :: "get_pc \<Rightarrow> bool" where
  "rheld_sem GetLeave = True" | "rheld_sem GetUnlock = True" | "rheld_sem pc = rcrit pc"

fun sem_ok :: "view \<Rightarrow> bool" where
  "sem_ok (w, r, l, f, e, c, m) \<longleftrightarrow>
     (l = Some Writer \<longleftrightarrow> wheld_sem w) \<and> (l = Some Reader \<longleftrightarrow> rheld_sem r) \<and>
     w \<notin> {AddTest, AddSleep, AddWake, AddFull} \<and> r \<notin> {GetTest, GetSleep, GetWake, GetEmpty} \<and>
     0 \<le> f \<and> 0 \<le> e \<and> f + value_taken r + value_due w = c \<and> e + place_taken w + place_due r = m - c \<and> 0 < m"

lemma tickets_nonneg: "0 \<le> place_taken w" "0 \<le> value_due w" "0 \<le> value_taken r" "0 \<le> place_due r"
proof -
  show "0 \<le> place_taken w" "0 \<le> value_due w" by (cases w; simp)+
  show "0 \<le> value_taken r" "0 \<le> place_due r" by (cases r; simp)+
qed

lemma crit_tickets: "wcrit w \<Longrightarrow> place_taken w = 1 \<and> wheld_sem w" "rcrit r \<Longrightarrow> value_taken r = 1 \<and> rheld_sem r"
  by (cases w; simp) (cases r; simp)

lemma sem_count:
  assumes "sem_ok (w, r, l, f, e, c, m)"
  shows "0 \<le> c" and "c \<le> m"
proof -
  have "c = f + value_taken r + value_due w" "m - c = e + place_taken w + place_due r" "0 \<le> f" "0 \<le> e" using assms by auto
  then show "0 \<le> c" "c \<le> m"
    using tickets_nonneg(1,2) [of w] tickets_nonneg(3,4) [of r] by linarith+
qed

lemma sem_add_sync:
  assumes "sem_ok (view s)" and "\<not> wstmt (wpc s)" and "wpc s \<notin> range AddReturn" and "queue_add s = Some r"
  shows "\<exists>s'. r = Inr s' \<and> sync s s' \<and> sem_ok (view s')"
  using assms sem_count [OF assms(1) [unfolded view_def]]
  by (cases "wpc s") (auto simp: queue_add_def wstmt_def view_def lock_by_def unlock_by_def wait_empty_def sync_def split: if_splits)

lemma sem_get_sync:
  assumes "sem_ok (view s)" and "\<not> rstmt (rpc s)" and "rpc s \<notin> range GetReturn" and "queue_get s = Some r"
  shows "\<exists>s'. r = Inr s' \<and> sync s s' \<and> sem_ok (view s')"
  using assms sem_count [OF assms(1) [unfolded view_def]]
  by (cases "rpc s") (auto simp: queue_get_def rstmt_def view_def lock_by_def unlock_by_def wait_full_def sync_def split: if_splits)

interpretation sem: queue_protocol queue_add queue_get sem_ok
proof unfold_locales
  show "queue_add s = add_stmt s" if "wstmt (wpc s)" for s using that by (auto simp: queue_add_def wstmt_def)
  show "queue_get s = get_stmt s" if "rstmt (rpc s)" for s using that by (auto simp: queue_get_def rstmt_def)
  show "sem_ok (w', g, l, f, e, if w = AddCount then c + 1 else c, m)" if "sem_ok (w, g, l, f, e, c, m)" "add_move w w'"
    for w g l f e c m w' using that(2,1) by cases auto
  show "sem_ok (w, g', l, f, e, if g = GetCount then c - 1 else c, m)" if "sem_ok (w, g, l, f, e, c, m)" "get_move g g'"
    for w g l f e c m g' using that(2,1) by cases auto
  show "alone s" if ok: "sem_ok (view s)" for s
  proof -
    have c: "qcount (sq s) = full_sem s + value_taken (rpc s) + value_due (wpc s)" "0 \<le> full_sem s" "0 \<le> empty_sem s"
      "max_count (sq s) - qcount (sq s) = empty_sem s + place_taken (wpc s) + place_due (rpc s)"
      "wheld_sem (wpc s) \<Longrightarrow> \<not> rheld_sem (rpc s)"
      using ok by (auto simp: view_def)
    then show ?thesis unfolding alone_def
      using crit_tickets(1) [of "wpc s"] crit_tickets(2) [of "rpc s"] tickets_nonneg(2) [of "wpc s"] tickets_nonneg(4) [of "rpc s"] by (intro conjI impI) linarith+
  qed
  show "0 \<le> qcount (sq s) \<and> qcount (sq s) \<le> max_count (sq s)" if "sem_ok (view s)" for s
    using sem_count [OF that [unfolded view_def]] by simp
qed (fact sem_add_sync sem_get_sync)+

lemma sem_init_start:
  assumes "queue_init strerror q_ok err mem m = Inr s0"
  shows "s0 = start_threads (fresh_queue m) 0 m mem"
  using assms by (auto simp: queue_init_def Shared_Queue.queue_init_def abort_with_def split: if_splits)

lemma sem_started:
  assumes "queue_init strerror q_ok err mem m = Inr s0" and "0 < m" and "m < 2 ^ 31" and "reach queue_add queue_get s0 s"
  shows "sem.inv s"
proof -
  have "sem_ok (view (start_threads (fresh_queue m) 0 m mem))"
    using assms(2) by (simp add: view_def start_threads_def fresh_queue_def)
  then show ?thesis using sem.started_inv [of m 0 m mem s] assms(2-4) sem_init_start [OF assms(1)] by auto
qed

text \<open>The holder of the lock can always go on, and the two semaphores are never both exhausted while both threads wait.\<close>

lemma sem_progress:
  assumes "sem_ok (view s)"
  shows "writer queue_add s \<noteq> None \<or> reader queue_get s \<noteq> None"
proof (rule ccontr)
  assume "\<not> ?thesis"
  then have n: "writer queue_add s = None" "reader queue_get s = None" by auto
  have w: "wpc s = AddSem \<and> empty_sem s \<le> 0 \<or> wpc s = AddLock \<and> slock s \<noteq> None"
    using n(1) assms
    by (cases "wpc s") (auto simp: writer_def queue_add_def add_stmt_def lock_by_def wait_empty_def view_def split: if_splits)
  have r: "rpc s = GetSem \<and> full_sem s \<le> 0 \<or> rpc s = GetLock \<and> slock s \<noteq> None"
    using n(2) assms
    by (cases "rpc s") (auto simp: reader_def queue_get_def get_stmt_def lock_by_def wait_full_def view_def split: if_splits)
  have "slock s = None" using w r assms by (cases "slock s"; cases "the (slock s)") (auto simp: view_def)
  then show False using w r assms by (auto simp: view_def)
qed

text \<open>C28: with the semaphore version, in every interleaving and as long as no counter is at the end of its range, the
  process has not failed except for want of memory, the queue holds exactly the values sent and not yet received
  in order, nothing leaks and the reader has reported no error.\<close>

theorem semaphore_queue_in_order:
  assumes "queue_init strerror q_ok err mem m = Inr s0" and "0 < m" and "m < 2 ^ 31"
    and "reach queue_add queue_get s0 s" and "counters_left s"
  shows "(crashed s = None \<and> in_order s \<or> crashed s = Some out_of_memory) \<and> (\<forall>v e. error_line v e \<notin> set (sout s))"
  using sem.delivers [OF sem_started [OF assms(1-4)] assms(5)] .

theorem semaphore_queue_in_order_witness:
  "\<exists>s. threads_main (\<lambda>_. []) (queue_init (\<lambda>_. []) True 0 []) 0 0 = Inr s \<and> in_order s"
proof -
  let ?s = "start_threads (fresh_queue QUEUE_SIZE) 0 QUEUE_SIZE []"
  have i: "queue_init (\<lambda>_. []) True 0 [] QUEUE_SIZE = Inr ?s"
    by (simp add: queue_init_def Shared_Queue.queue_init_def)
  have "crashed ?s = None \<and> in_order ?s"
    using semaphore_queue_in_order [OF i _ _ reach.start]
    by (simp add: QUEUE_SIZE_def counters_left_def start_threads_def fresh_queue_def)
  then show ?thesis using i by (simp add: threads_main_def)
qed

text \<open>C29: with the semaphore version the threads never deadlock: while the process runs and the queue has room for a
  value at all, the writer or the reader can take a step.\<close>

theorem semaphore_queue_never_stuck:
  assumes "queue_init strerror q_ok err mem m = Inr s0" and "0 < m" and "m < 2 ^ 31"
    and "reach queue_add queue_get s0 s" and "crashed s = None"
  shows "writer queue_add s \<noteq> None \<or> reader queue_get s \<noteq> None"
proof -
  have "sem_ok (view s)" using sem_started [OF assms(1-4)] assms(5) by (simp add: sem.inv_def)
  then show ?thesis by (rule sem_progress)
qed

theorem semaphore_queue_never_stuck_witness:
  "\<exists>s. queue_init (\<lambda>_. []) True 0 [] 1 = Inr s \<and> (writer queue_add s \<noteq> None \<or> reader queue_get s \<noteq> None)"
proof -
  let ?s = "start_threads (fresh_queue 1) 0 1 []"
  have i: "queue_init (\<lambda>_. []) True 0 [] 1 = Inr ?s" by (simp add: queue_init_def Shared_Queue.queue_init_def)
  have "writer queue_add ?s \<noteq> None \<or> reader queue_get ?s \<noteq> None"
    by (rule semaphore_queue_never_stuck [OF i _ _ reach.start]) (simp_all add: start_threads_def)
  then show ?thesis using i by blast
qed

end
