(* ===== verification/Queue_Condvar.thy ===== *)
theory Queue_Condvar
  imports Queue_Threads
begin

text \<open>
  \<open>OS-Labs/10-sync/queue-condvar.c\<close>: the queue with a mutex and two condition variables.  A thread that waits on a
  condition variable gives the lock back and sleeps until the other thread signals or it wakes up spuriously; it then
  takes the lock again and tests again.
\<close>

section \<open>Definitions\<close>

definition queue_init :: "(int \<Rightarrow> string) \<Rightarrow> bool \<Rightarrow> int \<Rightarrow> mem \<Rightarrow> int \<Rightarrow> sys res" where
  "queue_init strerror q_ok err mem mc =
     bindR (Shared_Queue.queue_init strerror q_ok err mc) (\<lambda>q. Inr (start_threads q 0 0 mem))"

text \<open>Destroying a condition variable somebody sleeps on or a mutex that is held is undefined.\<close>

definition queue_destroy :: "int \<Rightarrow> int \<Rightarrow> string \<Rightarrow> sys \<Rightarrow> queue_t res" where
  "queue_destroy cancelled joined err s =
     bindR (Shared_Queue.queue_destroy cancelled joined err (sq s)) (\<lambda>q.
     if slock s = None \<and> wpc s \<noteq> AddSleep \<and> rpc s \<noteq> GetSleep then Inr q else Inl Undefined)"

text \<open>\<open>AddLock\<close> is the point after the lock was taken first, where the assertion stands; \<open>AddTest\<close> is the loop test.\<close>

definition queue_add :: "sys \<Rightarrow> sys res option" where
  "queue_add s = (case wpc s of
     AddEnter \<Rightarrow> lock_by Writer (s\<lparr>wpc := AddLock\<rparr>)
   | AddLock \<Rightarrow> Some (assertR (qcount (sq s) \<le> max_count (sq s)) (Inr (s\<lparr>wpc := AddTest\<rparr>)))
   | AddTest \<Rightarrow> Some (if qcount (sq s) = max_count (sq s) then unlock_by Writer (s\<lparr>wpc := AddSleep\<rparr>)
                    else Inr (s\<lparr>wpc := AddNew\<rparr>))
   | AddSleep \<Rightarrow> None
   | AddWake \<Rightarrow> lock_by Writer (s\<lparr>wpc := AddTest\<rparr>)
   | AddLeave \<Rightarrow> Some (Inr (s\<lparr>rpc := if rpc s = GetSleep then GetWake else rpc s, wpc := AddUnlock\<rparr>))
   | AddUnlock \<Rightarrow> Some (unlock_by Writer (s\<lparr>wpc := AddDone\<rparr>))
   | _ \<Rightarrow> add_stmt s)"

definition queue_get :: "sys \<Rightarrow> sys res option" where
  "queue_get s = (case rpc s of
     GetEnter \<Rightarrow> lock_by Reader (s\<lparr>rpc := GetLock\<rparr>)
   | GetLock \<Rightarrow> Some (assertR (0 \<le> qcount (sq s)) (Inr (s\<lparr>rpc := GetTest\<rparr>)))
   | GetTest \<Rightarrow> Some (if qcount (sq s) = 0 then unlock_by Reader (s\<lparr>rpc := GetSleep\<rparr>)
                    else Inr (s\<lparr>rpc := GetFirst\<rparr>))
   | GetSleep \<Rightarrow> None
   | GetWake \<Rightarrow> lock_by Reader (s\<lparr>rpc := GetTest\<rparr>)
   | GetLeave \<Rightarrow> Some (Inr (s\<lparr>wpc := if wpc s = AddSleep then AddWake else wpc s, rpc := GetUnlock\<rparr>))
   | GetUnlock \<Rightarrow> Some (unlock_by Reader (s\<lparr>rpc := GetDone\<rparr>))
   | _ \<Rightarrow> get_stmt s)"

section \<open>The protocol\<close>

fun wheld_cond :: "add_pc \<Rightarrow> bool" where
  "wheld_cond AddLock = True" | "wheld_cond AddTest = True" | "wheld_cond AddLeave = True" | "wheld_cond AddUnlock = True"
| "wheld_cond pc = wcrit pc"

fun rheld_cond :: "get_pc \<Rightarrow> bool" where
  "rheld_cond GetLock = True" | "rheld_cond GetTest = True" | "rheld_cond GetLeave = True" | "rheld_cond GetUnlock = True"
| "rheld_cond pc = rcrit pc"

text \<open>No wake-up is lost: a thread that sleeps has a reason to, or the other is about to signal.\<close>

fun cond_ok :: "view \<Rightarrow> bool" where
  "cond_ok (w, r, l, f, e, c, m) \<longleftrightarrow>
     (l = Some Writer \<longleftrightarrow> wheld_cond w) \<and> (l = Some Reader \<longleftrightarrow> rheld_cond r) \<and>
     w \<notin> {AddSem, AddFull} \<and> r \<notin> {GetSem, GetEmpty} \<and>
     0 \<le> c \<and> c \<le> m \<and> 0 < m \<and> (wcrit w \<longrightarrow> c < m) \<and> (rcrit r \<longrightarrow> 0 < c) \<and>
     (w = AddSleep \<longrightarrow> c = m \<or> r = GetLeave) \<and> (r = GetSleep \<longrightarrow> c = 0 \<or> w = AddLeave)"

lemma cond_add_sync:
  assumes "cond_ok (view s)" and "\<not> wstmt (wpc s)" and "wpc s \<notin> range AddReturn" and "queue_add s = Some r"
  shows "\<exists>s'. r = Inr s' \<and> sync s s' \<and> cond_ok (view s')"
  using assms
  by (cases "wpc s") (auto simp: queue_add_def wstmt_def view_def lock_by_def unlock_by_def sync_def split: if_splits)

lemma cond_get_sync:
  assumes "cond_ok (view s)" and "\<not> rstmt (rpc s)" and "rpc s \<notin> range GetReturn" and "queue_get s = Some r"
  shows "\<exists>s'. r = Inr s' \<and> sync s s' \<and> cond_ok (view s')"
  using assms
  by (cases "rpc s") (auto simp: queue_get_def rstmt_def view_def lock_by_def unlock_by_def sync_def split: if_splits)

lemma crit_held_cond: "wcrit w \<Longrightarrow> wheld_cond w" "rcrit g \<Longrightarrow> rheld_cond g"
  by (cases w; simp) (cases g; simp)

interpretation cond: queue_protocol queue_add queue_get cond_ok
proof unfold_locales
  show "queue_add s = add_stmt s" if "wstmt (wpc s)" for s using that by (auto simp: queue_add_def wstmt_def)
  show "queue_get s = get_stmt s" if "rstmt (rpc s)" for s using that by (auto simp: queue_get_def rstmt_def)
  show "cond_ok (w', g, l, f, e, if w = AddCount then c + 1 else c, m)" if "cond_ok (w, g, l, f, e, c, m)" "add_move w w'"
    for w g l f e c m w' using that(2,1) crit_held_cond(2) [of g] by cases auto
  show "cond_ok (w, g', l, f, e, if g = GetCount then c - 1 else c, m)" if "cond_ok (w, g, l, f, e, c, m)" "get_move g g'"
    for w g l f e c m g' using that(2,1) crit_held_cond(1) [of w] by cases auto
  show "alone s" if "cond_ok (view s)" for s
    using that crit_held_cond(1) [of "wpc s"] crit_held_cond(2) [of "rpc s"] by (auto simp: view_def alone_def)
  show "0 \<le> qcount (sq s) \<and> qcount (sq s) \<le> max_count (sq s)" if "cond_ok (view s)" for s using that by (simp add: view_def)
qed (fact cond_add_sync cond_get_sync)+

lemma cond_init_start:
  assumes "queue_init strerror q_ok err mem m = Inr s0"
  shows "s0 = start_threads (fresh_queue m) 0 0 mem"
  using assms by (auto simp: queue_init_def Shared_Queue.queue_init_def abort_with_def split: if_splits)

lemma cond_started:
  assumes "queue_init strerror q_ok err mem m = Inr s0" and "0 < m" and "m < 2 ^ 31" and "reach queue_add queue_get s0 s"
  shows "cond.inv s"
proof -
  have "cond_ok (view (start_threads (fresh_queue m) 0 0 mem))"
    using assms(2) by (simp add: view_def start_threads_def fresh_queue_def)
  then show ?thesis using cond.started_inv [of m 0 0 mem s] assms(2-4) cond_init_start [OF assms(1)] by auto
qed

lemma cond_progress:
  assumes "cond_ok (view s)"
  shows "writer queue_add s \<noteq> None \<or> reader queue_get s \<noteq> None"
proof (rule ccontr)
  assume "\<not> ?thesis"
  then have n: "writer queue_add s = None" "reader queue_get s = None" by auto
  have u: "wpc s \<notin> {AddSem, AddFull}" "rpc s \<notin> {GetSem, GetEmpty}"
    "slock s = Some Writer \<Longrightarrow> wheld_cond (wpc s)" "slock s = Some Reader \<Longrightarrow> rheld_cond (rpc s)"
    using assms by (simp_all add: view_def)
  have w: "wpc s = AddSleep \<or> wpc s \<in> {AddEnter, AddWake} \<and> slock s \<noteq> None"
    using n(1) u(1)
    by (cases "wpc s") (auto simp: writer_def queue_add_def add_stmt_def lock_by_def view_def split: if_splits)
  have r: "rpc s = GetSleep \<or> rpc s \<in> {GetEnter, GetWake} \<and> slock s \<noteq> None"
    using n(2) u(2)
    by (cases "rpc s") (auto simp: reader_def queue_get_def get_stmt_def lock_by_def view_def split: if_splits)
  have "slock s = None" using w r u(3,4) by (cases "slock s"; cases "the (slock s)") auto
  then show False using w r assms by (auto simp: view_def)
qed

text \<open>C30: with the condition variables, in every interleaving, spurious wake-ups included, and as long as no counter is
  at the end of its range, the process has not failed except for want of memory, the queue holds exactly the
  values sent and not yet received in order, nothing leaks and the reader has reported no error.\<close>

theorem condvar_queue_in_order:
  assumes "queue_init strerror q_ok err mem m = Inr s0" and "0 < m" and "m < 2 ^ 31"
    and "reach queue_add queue_get s0 s" and "counters_left s"
  shows "(crashed s = None \<and> in_order s \<or> crashed s = Some out_of_memory) \<and> (\<forall>v e. error_line v e \<notin> set (sout s))"
  using cond.delivers [OF cond_started [OF assms(1-4)] assms(5)] .

theorem condvar_queue_in_order_witness:
  "\<exists>s. threads_main (\<lambda>_. []) (queue_init (\<lambda>_. []) True 0 []) 0 0 = Inr s \<and> in_order s"
proof -
  let ?s = "start_threads (fresh_queue QUEUE_SIZE) 0 0 []"
  have i: "queue_init (\<lambda>_. []) True 0 [] QUEUE_SIZE = Inr ?s"
    by (simp add: queue_init_def Shared_Queue.queue_init_def)
  have "crashed ?s = None \<and> in_order ?s"
    using condvar_queue_in_order [OF i _ _ reach.start]
    by (simp add: QUEUE_SIZE_def counters_left_def start_threads_def fresh_queue_def)
  then show ?thesis using i by (simp add: threads_main_def)
qed

text \<open>C31: with the condition variables no wake-up is lost: while the process runs, the writer or the reader can take a
  step even if no spurious wake-up ever happens.\<close>

theorem condvar_queue_never_stuck:
  assumes "queue_init strerror q_ok err mem m = Inr s0" and "0 < m" and "m < 2 ^ 31"
    and "reach queue_add queue_get s0 s" and "crashed s = None"
  shows "writer queue_add s \<noteq> None \<or> reader queue_get s \<noteq> None"
proof -
  have "cond_ok (view s)" using cond_started [OF assms(1-4)] assms(5) by (simp add: cond.inv_def)
  then show ?thesis by (rule cond_progress)
qed

theorem condvar_queue_never_stuck_witness:
  "\<exists>s. queue_init (\<lambda>_. []) True 0 [] 1 = Inr s \<and> (writer queue_add s \<noteq> None \<or> reader queue_get s \<noteq> None)"
proof -
  let ?s = "start_threads (fresh_queue 1) 0 0 []"
  have i: "queue_init (\<lambda>_. []) True 0 [] 1 = Inr ?s" by (simp add: queue_init_def Shared_Queue.queue_init_def)
  have "writer queue_add ?s \<noteq> None \<or> reader queue_get ?s \<noteq> None"
    by (rule condvar_queue_never_stuck [OF i _ _ reach.start]) (simp_all add: start_threads_def)
  then show ?thesis using i by blast
qed

end
