(* ===== verification/Life_Core.thy ===== *)
theory Life_Core
  imports C_Stdio
begin

text \<open>
  \<open>C++-Labs/lab_2_game_of_life/src/core\<close>: the field of a game of life on a torus (\<open>Field\<close>), birth and survival rules
  with their MCell notation (\<open>Rules\<close>) and a universe that computes generations in a second field (\<open>Universe\<close>).
  An exception is \<open>Inl\<close> of it; \<open>Out_of_range\<close> stands for an unchecked access outside a vector or a bitset.
  The sizes are those of vectors in memory, so sums of two of them do not wrap.
  A generation is proved to be the one of the definition of the game, which counts the live cells among the cells
  adjacent on the torus; this needs the minimal size 3 the class insists on.
\<close>

section \<open>Definitions\<close>

datatype life_error = Invalid_argument string | Runtime_error string | Out_of_range

type_synonym 'a life = "life_error + 'a"

definition bindE :: "'a life \<Rightarrow> ('a \<Rightarrow> 'b life) \<Rightarrow> 'b life" where
  "bindE m f = (case m of Inl e \<Rightarrow> Inl e | Inr x \<Rightarrow> f x)"

text \<open>A loop over a range.\<close>

fun foldE :: "('b \<Rightarrow> 's \<Rightarrow> 's life) \<Rightarrow> 'b list \<Rightarrow> 's \<Rightarrow> 's life" where
  "foldE f [] s = Inr s"
| "foldE f (x # xs) s = bindE (f x s) (foldE f xs)"

text \<open>\<open>vector::resize\<close>.\<close>

definition resize_list :: "nat \<Rightarrow> 'a \<Rightarrow> 'a list \<Rightarrow> 'a list" where
  "resize_list n d xs = take n xs @ replicate (n - length xs) d"

subsection \<open>Field\<close>

record Field =
  field_data :: "bool list list"
  width_f :: nat
  height_f :: nat

definition validateSize :: "nat \<Rightarrow> nat life" where
  "validateSize n = (if n < 3 then Inl (Invalid_argument ''Field size must be >= 3'') else Inr n)"

definition empty_Field :: Field where
  "empty_Field = \<lparr>field_data = [], width_f = 0, height_f = 0\<rparr>"

definition new_Field :: "nat \<Rightarrow> nat \<Rightarrow> Field life" where
  "new_Field w h =
     bindE (validateSize w) (\<lambda>vw. bindE (validateSize h) (\<lambda>vh.
     Inr \<lparr>field_data = replicate vw (replicate vh False), width_f = w, height_f = h\<rparr>))"

definition Field_of_matrix :: "bool list list \<Rightarrow> Field life" where
  "Field_of_matrix matrix =
     bindE (validateSize (length matrix)) (\<lambda>w. bindE (validateSize (length (hd matrix))) (\<lambda>h.
     Inr \<lparr>field_data = matrix, width_f = w, height_f = h\<rparr>))"

definition at_cell :: "Field \<Rightarrow> nat \<Rightarrow> nat \<Rightarrow> bool life" where
  "at_cell f x y = (if x < length (field_data f) \<and> y < length (field_data f ! x)
     then Inr (field_data f ! x ! y) else Inl Out_of_range)"

definition set_cell :: "Field \<Rightarrow> nat \<Rightarrow> nat \<Rightarrow> bool \<Rightarrow> Field life" where
  "set_cell f x y b = (if x < length (field_data f) \<and> y < length (field_data f ! x)
     then Inr (f\<lparr>field_data := (field_data f)[x := (field_data f ! x)[y := b]]\<rparr>) else Inl Out_of_range)"

text \<open>The additions to the \<open>uint8_t\<close> counter, in the order of the code.\<close>

fun count_cells :: "Field \<Rightarrow> (nat \<times> nat) list \<Rightarrow> nat \<Rightarrow> nat life" where
  "count_cells f [] c = Inr c"
| "count_cells f ((x, y) # ps) c = bindE (at_cell f x y) (\<lambda>b. count_cells f ps ((c + of_bool b) mod 256))"

definition getNeighboursCount :: "Field \<Rightarrow> nat \<Rightarrow> nat \<Rightarrow> nat life" where
  "getNeighboursCount f x y =
     (if width_f f = 0 \<or> height_f f = 0 then Inl Out_of_range
      else let leftColumn = (x + width_f f - 1) mod width_f f;
               rightColumn = (x + 1) mod width_f f;
               topRow = (y + height_f f - 1) mod height_f f;
               bottomRow = (y + 1) mod height_f f in
           count_cells f [(leftColumn, topRow), (leftColumn, y), (leftColumn, bottomRow),
             (x, topRow), (x, bottomRow),
             (rightColumn, topRow), (rightColumn, y), (rightColumn, bottomRow)] 0)"

definition field_eq :: "Field \<Rightarrow> Field \<Rightarrow> bool" where
  "field_eq lhs rhs \<longleftrightarrow> field_data lhs = field_data rhs"

definition resize_Field :: "Field \<Rightarrow> nat \<Rightarrow> nat \<Rightarrow> Field life" where
  "resize_Field f w h =
     bindE (validateSize w) (\<lambda>vw.
     let cols = resize_list vw [] (field_data f) in
     bindE (if cols = [] then Inr h else validateSize h) (\<lambda>vh.
     Inr (f\<lparr>field_data := map (resize_list vh False) cols, width_f := w, height_f := h\<rparr>)))"

subsection \<open>Rules\<close>

text \<open>A \<open>bitset<9>\<close> is a list of nine flags.\<close>

record Rules =
  neighbours_to_born :: "bool list"
  neighbours_to_survive :: "bool list"

definition no_flags :: "bool list" where
  "no_flags = replicate 9 False"

definition flag_at :: "bool list \<Rightarrow> nat \<Rightarrow> bool life" where
  "flag_at bs i = (if i < length bs then Inr (bs ! i) else Inl Out_of_range)"

definition set_flag :: "nat \<Rightarrow> bool list \<Rightarrow> bool list life" where
  "set_flag i bs = (if i < length bs then Inr (bs[i := True]) else Inl Out_of_range)"

definition Rules_of_lists :: "nat list \<Rightarrow> nat list \<Rightarrow> Rules life" where
  "Rules_of_lists born survive =
     bindE (foldE set_flag born no_flags) (\<lambda>b.
     bindE (foldE set_flag survive no_flags) (\<lambda>s.
     Inr \<lparr>neighbours_to_born = b, neighbours_to_survive = s\<rparr>))"

definition bornFlags :: "Rules \<Rightarrow> bool list" where
  "bornFlags r = neighbours_to_born r"

definition surviveFlags :: "Rules \<Rightarrow> bool list" where
  "surviveFlags r = neighbours_to_survive r"

definition canBorn :: "Rules \<Rightarrow> nat \<Rightarrow> bool life" where
  "canBorn r n = flag_at (neighbours_to_born r) n"

definition canSurvive :: "Rules \<Rightarrow> nat \<Rightarrow> bool life" where
  "canSurvive r n = flag_at (neighbours_to_survive r) n"

definition rules_eq :: "Rules \<Rightarrow> Rules \<Rightarrow> bool" where
  "rules_eq lhs rhs \<longleftrightarrow> neighbours_to_born lhs = neighbours_to_born rhs \<and>
     neighbours_to_survive lhs = neighbours_to_survive rhs"

definition ConwayGameOfLife :: "Rules life" where
  "ConwayGameOfLife = Rules_of_lists [3] [2, 3]"

text \<open>One character of the notation.\<close>

definition parse_flag :: "char \<Rightarrow> bool list \<Rightarrow> bool list life" where
  "parse_flag c bs = (if isdigit c \<and> chr_code c \<le> 56 then set_flag (chr_code c - 48) bs else Inr bs)"

definition FromMCellNotation :: "string \<Rightarrow> Rules life" where
  "FromMCellNotation notation =
     (if CHR ''/'' \<notin> set notation
      then Inl (Runtime_error ''Error while parsing MCell notation: separator not found'')
      else let separator_pos = length (takeWhile (\<lambda>c. c \<noteq> CHR ''/'') notation) in
           bindE (foldE parse_flag (take separator_pos notation) no_flags) (\<lambda>b.
           bindE (foldE parse_flag (drop separator_pos notation) no_flags) (\<lambda>s.
           Inr \<lparr>neighbours_to_born = b, neighbours_to_survive = s\<rparr>)))"

text \<open>The digits of the flags that are set.\<close>

definition show_flags :: "bool list \<Rightarrow> string" where
  "show_flags bs = concat (map (\<lambda>i. if bs ! i then show_nat i else []) [0..<9])"

definition toMCellNotation :: "Rules \<Rightarrow> string" where
  "toMCellNotation r = ''B'' @ show_flags (neighbours_to_born r) @ ''/S'' @ show_flags (neighbours_to_survive r)"

definition InterestingRules :: "(string \<times> Rules life) list" where
  "InterestingRules = [
     (''Life'', Rules_of_lists [3] [2, 3]),
     (''HighLife'', Rules_of_lists [3, 6] [2, 3]),
     (''Day & Night'', Rules_of_lists [3, 6, 7, 8] [3, 4, 6, 7, 8]),
     (''Seeds'', Rules_of_lists [2] []),
     (''Diamoeba'', Rules_of_lists [3, 5, 6, 7, 8] [5, 6, 7, 8]),
     (''Anneal'', Rules_of_lists [4, 6, 7, 8] [3, 5, 6, 7, 8]),
     (''Morley'', Rules_of_lists [3, 6, 8] [2, 4, 5]),
     (''Life without death'', Rules_of_lists [3] [0, 1, 2, 3, 4, 5, 6, 7, 8]),
     (''2x2'', Rules_of_lists [3, 6] [1, 2, 5]),
     (''Replicator'', Rules_of_lists [1, 3, 5, 7] [1, 3, 5, 7])]"

subsection \<open>Universe\<close>

record Universe =
  name_u :: string
  rules_u :: Rules
  main_field :: Field
  twin_field :: Field

definition default_Universe :: "Universe life" where
  "default_Universe = bindE ConwayGameOfLife (\<lambda>r.
     Inr \<lparr>name_u = ''Unnamed'', rules_u = r, main_field = empty_Field, twin_field = empty_Field\<rparr>)"

definition new_Universe :: "Field \<Rightarrow> Rules \<Rightarrow> string \<Rightarrow> Universe life" where
  "new_Universe f r n = bindE (new_Field (width_f f) (height_f f)) (\<lambda>twin.
     Inr \<lparr>name_u = n, rules_u = r, main_field = f, twin_field = twin\<rparr>)"

definition setRules :: "Universe \<Rightarrow> Rules \<Rightarrow> Universe" where
  "setRules u r = u\<lparr>rules_u := r\<rparr>"

definition setName :: "Universe \<Rightarrow> string \<Rightarrow> Universe" where
  "setName u n = u\<lparr>name_u := n\<rparr>"

definition resize :: "Universe \<Rightarrow> nat \<Rightarrow> nat \<Rightarrow> Universe life" where
  "resize u w h =
     bindE (resize_Field (main_field u) w h) (\<lambda>m.
     bindE (resize_Field (twin_field u) w h) (\<lambda>t. Inr (u\<lparr>main_field := m, twin_field := t\<rparr>)))"

text \<open>The body of the loops of \<open>tick\<close>.\<close>

definition tick_cell :: "Universe \<Rightarrow> nat \<Rightarrow> nat \<Rightarrow> Field \<Rightarrow> Field life" where
  "tick_cell u x y twin =
     bindE (getNeighboursCount (main_field u) x y) (\<lambda>neighbours_count.
     bindE (canBorn (rules_u u) neighbours_count) (\<lambda>born.
     if born then set_cell twin x y True
     else bindE (canSurvive (rules_u u) neighbours_count) (\<lambda>survives.
          if survives then bindE (at_cell (main_field u) x y) (set_cell twin x y)
          else set_cell twin x y False)))"

definition tick :: "Universe \<Rightarrow> Universe life" where
  "tick u =
     bindE (foldE (\<lambda>x. foldE (\<lambda>y. tick_cell u x y) [0..<height_f (main_field u)])
        [0..<width_f (main_field u)] (twin_field u)) (\<lambda>twin.
     Inr (u\<lparr>main_field := twin, twin_field := main_field u\<rparr>))"

primrec tick_n :: "Universe \<Rightarrow> nat \<Rightarrow> Universe life" where
  "tick_n u 0 = Inr u"
| "tick_n u (Suc n) = bindE (tick u) (\<lambda>u'. tick_n u' n)"

section \<open>Well-formed fields\<close>

lemma bindE_simps [simp]: "bindE (Inl e) f = Inl e" "bindE (Inr x) f = f x"
  by (simp_all add: bindE_def)

lemma bindE_Inr_iff [simp]: "bindE m f = Inr y \<longleftrightarrow> (\<exists>x. m = Inr x \<and> f x = Inr y)"
  by (simp add: bindE_def split: sum.splits)

lemma foldE_append: "foldE f (xs @ ys) s = bindE (foldE f xs s) (foldE f ys)"
  by (induction xs arbitrary: s) (auto simp: bindE_def split: sum.splits)

lemma length_resize_list [simp]: "length (resize_list n d xs) = n"
  by (simp add: resize_list_def)

definition field_ok :: "Field \<Rightarrow> bool" where
  "field_ok f \<longleftrightarrow> 3 \<le> width_f f \<and> 3 \<le> height_f f \<and> length (field_data f) = width_f f \<and>
     (\<forall>c \<in> set (field_data f). length c = height_f f)"

definition rules_ok :: "Rules \<Rightarrow> bool" where
  "rules_ok r \<longleftrightarrow> length (neighbours_to_born r) = 9 \<and> length (neighbours_to_survive r) = 9"

definition universe_ok :: "Universe \<Rightarrow> bool" where
  "universe_ok u \<longleftrightarrow> field_ok (main_field u) \<and> field_ok (twin_field u) \<and> rules_ok (rules_u u) \<and>
     width_f (twin_field u) = width_f (main_field u) \<and> height_f (twin_field u) = height_f (main_field u)"

lemma field_column: "field_ok f \<Longrightarrow> x < width_f f \<Longrightarrow> length (field_data f ! x) = height_f f"
  by (simp add: field_ok_def)

lemma at_cell_ok: "field_ok f \<Longrightarrow> x < width_f f \<Longrightarrow> y < height_f f \<Longrightarrow> at_cell f x y = Inr (field_data f ! x ! y)"
  by (simp add: at_cell_def field_ok_def)

lemma new_Field_ok: "3 \<le> w \<Longrightarrow> 3 \<le> h \<Longrightarrow> \<exists>f. new_Field w h = Inr f \<and> field_ok f \<and> width_f f = w \<and> height_f f = h"
  by (auto simp: new_Field_def validateSize_def field_ok_def)

lemma new_Universe_ok:
  assumes "field_ok f" and "rules_ok r"
  shows "\<exists>u. new_Universe f r n = Inr u \<and> universe_ok u \<and> main_field u = f \<and> rules_u u = r \<and> name_u u = n"
proof -
  obtain t where t: "new_Field (width_f f) (height_f f) = Inr t" "field_ok t" "width_f t = width_f f" "height_f t = height_f f"
    using new_Field_ok [of "width_f f" "height_f f"] assms(1) unfolding field_ok_def [of f] by blast
  then show ?thesis using assms by (simp add: new_Universe_def universe_ok_def)
qed

lemma resize_Field_ok:
  assumes "3 \<le> w" and "3 \<le> h"
  shows "\<exists>f'. resize_Field f w h = Inr f' \<and> field_ok f' \<and> width_f f' = w \<and> height_f f' = h"
proof -
  have "length (resize_list w [] (field_data f)) = w" by simp
  then have "resize_list w [] (field_data f) \<noteq> []" using assms(1) by (metis list.size(3) not_numeral_le_zero)
  then show ?thesis using assms by (auto simp: resize_Field_def validateSize_def field_ok_def Let_def)
qed

section \<open>Generations\<close>

text \<open>The specification: the cells next to a cell on the torus, and the next generation.\<close>

definition adjacent :: "nat \<Rightarrow> nat \<Rightarrow> nat \<Rightarrow> bool" where
  "adjacent n a b \<longleftrightarrow> a = b \<or> (a + 1) mod n = b \<or> (b + 1) mod n = a"

definition live_neighbours :: "Field \<Rightarrow> nat \<Rightarrow> nat \<Rightarrow> nat" where
  "live_neighbours f x y = card {(i, j). i < width_f f \<and> j < height_f f \<and> (i, j) \<noteq> (x, y) \<and>
     adjacent (width_f f) x i \<and> adjacent (height_f f) y j \<and> field_data f ! i ! j}"

definition next_cell :: "Rules \<Rightarrow> Field \<Rightarrow> nat \<Rightarrow> nat \<Rightarrow> bool" where
  "next_cell r f x y \<longleftrightarrow> neighbours_to_born r ! live_neighbours f x y \<or>
     neighbours_to_survive r ! live_neighbours f x y \<and> field_data f ! x ! y"

definition next_generation :: "Rules \<Rightarrow> Field \<Rightarrow> Field" where
  "next_generation r f = f\<lparr>field_data := map (\<lambda>x. map (next_cell r f x) [0..<height_f f]) [0..<width_f f]\<rparr>"

lemma adjacent_iff:
  assumes "3 \<le> n" and "a < n" and "b < n"
  shows "adjacent n a b \<longleftrightarrow> b \<in> {(a + n - 1) mod n, a, (a + 1) mod n}"
proof -
  have "(b + 1) mod n = a \<longleftrightarrow> b = (a + n - 1) mod n"
  proof (cases "a = 0")
    case True
    then show ?thesis using assms by (cases "b + 1 = n") auto
  next
    case False
    then have "(a + n - 1) mod n = a - 1" using assms(2) by (simp add: mod_if)
    then show ?thesis using assms False by (cases "b + 1 = n") auto
  qed
  then show ?thesis by (auto simp: adjacent_def)
qed

lemma neighbours_distinct:
  assumes "3 \<le> (n :: nat)" and "a < n"
  shows "(a + n - 1) mod n \<noteq> a" and "(a + 1) mod n \<noteq> a" and "(a + n - 1) mod n \<noteq> (a + 1) mod n"
    and "(a + n - 1) mod n < n" and "(a + 1) mod n < n"
proof -
  have l: "(a + n - 1) mod n = (if a = 0 then n - 1 else a - 1)" using assms by (simp add: mod_if)
  have r: "(a + 1) mod n = (if a + 1 = n then 0 else a + 1)" using assms by simp
  show "(a + n - 1) mod n \<noteq> a" "(a + 1) mod n \<noteq> a" "(a + n - 1) mod n \<noteq> (a + 1) mod n"
    "(a + n - 1) mod n < n" "(a + 1) mod n < n"
    using assms unfolding l r by auto
qed

lemma count_cells_ok:
  assumes "field_ok f" and "\<And>x y. (x, y) \<in> set ps \<Longrightarrow> x < width_f f \<and> y < height_f f" and "c + length ps < 256"
  shows "count_cells f ps c = Inr (c + length (filter (\<lambda>(x, y). field_data f ! x ! y) ps))"
  using assms(2,3)
proof (induction ps arbitrary: c)
  case (Cons p ps)
  obtain x y where p: "p = (x, y)" by fastforce
  have "at_cell f x y = Inr (field_data f ! x ! y)" using at_cell_ok [OF assms(1)] Cons.prems(1) p by auto
  moreover have "count_cells f ps ((c + of_bool (field_data f ! x ! y)) mod 256) =
      Inr (c + of_bool (field_data f ! x ! y) + length (filter (\<lambda>(x, y). field_data f ! x ! y) ps))"
    using Cons.IH [of "c + of_bool (field_data f ! x ! y)"] Cons.prems by (cases "field_data f ! x ! y") auto
  ultimately show ?case by (simp add: p)
qed simp

lemma getNeighboursCount_ok:
  assumes "field_ok f" and "x < width_f f" and "y < height_f f"
  shows "getNeighboursCount f x y = Inr (live_neighbours f x y)" and "live_neighbours f x y \<le> 8"
proof -
  define w h where "w = width_f f" and "h = height_f f"
  define l r t b where "l = (x + w - 1) mod w" and "r = (x + 1) mod w" and "t = (y + h - 1) mod h" and "b = (y + 1) mod h"
  have wh: "3 \<le> w" "3 \<le> h" "x < w" "y < h" using assms by (auto simp: field_ok_def w_def h_def)
  note dx = neighbours_distinct [OF wh(1,3), folded l_def r_def]
  note dy = neighbours_distinct [OF wh(2,4), folded t_def b_def]
  define ps where "ps = [(l, t), (l, y), (l, b), (x, t), (x, b), (r, t), (r, y), (r, b)]"
  have ps: "distinct ps" "length ps = 8" using dx(1-3) dy(1-3) by (auto simp: ps_def)
  have mem: "(i, j) \<in> set ps \<longleftrightarrow> i < w \<and> j < h \<and> (i, j) \<noteq> (x, y) \<and> adjacent w x i \<and> adjacent h y j" for i j
  proof
    assume "(i, j) \<in> set ps"
    then show "i < w \<and> j < h \<and> (i, j) \<noteq> (x, y) \<and> adjacent w x i \<and> adjacent h y j"
      using dx dy wh adjacent_iff [OF wh(1,3), of i, folded l_def r_def] adjacent_iff [OF wh(2,4), of j, folded t_def b_def]
      by (auto simp: ps_def)
  next
    assume a: "i < w \<and> j < h \<and> (i, j) \<noteq> (x, y) \<and> adjacent w x i \<and> adjacent h y j"
    then have "i \<in> {l, x, r}" "j \<in> {t, y, b}"
      using adjacent_iff [OF wh(1,3), of i, folded l_def r_def] adjacent_iff [OF wh(2,4), of j, folded t_def b_def] by auto
    then show "(i, j) \<in> set ps" using a by (auto simp: ps_def)
  qed
  define P where "P = (\<lambda>(x, y). field_data f ! x ! y)"
  have "set (filter P ps) = {(i, j). i < w \<and> j < h \<and> (i, j) \<noteq> (x, y) \<and> adjacent w x i \<and> adjacent h y j \<and> field_data f ! i ! j}"
    using mem by (auto simp: P_def)
  then have ln: "live_neighbours f x y = length (filter P ps)"
    using distinct_card [of "filter P ps"] ps(1) by (simp add: live_neighbours_def w_def h_def)
  have "count_cells f ps 0 = Inr (0 + length (filter P ps))"
    using count_cells_ok [OF assms(1), of ps 0] mem ps(2) by (simp add: P_def w_def h_def)
  moreover have nz: "\<not> (width_f f = 0 \<or> height_f f = 0)" using wh by (simp add: w_def h_def)
  then have "getNeighboursCount f x y = count_cells f ps 0"
    unfolding getNeighboursCount_def Let_def ps_def l_def r_def t_def b_def w_def h_def by (simp only: if_False)
  ultimately show "getNeighboursCount f x y = Inr (live_neighbours f x y)" by (simp only: ln add_0)
  show "live_neighbours f x y \<le> 8" unfolding ln using length_filter_le [of P ps] ps(2) by simp
qed

lemma tick_cell_ok:
  assumes "universe_ok u" and "x < width_f (main_field u)" and "y < height_f (main_field u)"
  shows "tick_cell u x y twin = set_cell twin x y (next_cell (rules_u u) (main_field u) x y)"
proof -
  have f: "field_ok (main_field u)" "rules_ok (rules_u u)" using assms(1) by (auto simp: universe_ok_def)
  note n = getNeighboursCount_ok [OF f(1) assms(2,3)]
  have "canBorn (rules_u u) (live_neighbours (main_field u) x y) =
      Inr (neighbours_to_born (rules_u u) ! live_neighbours (main_field u) x y)"
    "canSurvive (rules_u u) (live_neighbours (main_field u) x y) =
      Inr (neighbours_to_survive (rules_u u) ! live_neighbours (main_field u) x y)"
    using n(2) f(2) by (simp_all add: canBorn_def canSurvive_def flag_at_def rules_ok_def)
  then show ?thesis using n(1) at_cell_ok [OF f(1) assms(2,3)] by (simp add: tick_cell_def next_cell_def)
qed

text \<open>The loops fill the second field column by column.\<close>

lemma fill_column:
  assumes "field_ok t" and "x < width_f t" and "k \<le> height_f t"
  shows "foldE (\<lambda>y t. set_cell t x y (g y)) [0..<k] t =
    Inr (t\<lparr>field_data := (field_data t)[x := map g [0..<k] @ drop k (field_data t ! x)]\<rparr>)"
  using assms(3)
proof (induction k)
  case 0
  then show ?case by simp
next
  case (Suc k)
  have len: "x < length (field_data t)" "length (field_data t ! x) = height_f t"
    using assms field_column by (auto simp: field_ok_def)
  have "(map g [0..<k] @ drop k (field_data t ! x))[k := g k] = map g [0..<Suc k] @ drop (Suc k) (field_data t ! x)"
    using Suc.prems len(2) by (simp add: list_update_append Cons_nth_drop_Suc [symmetric])
  then show ?case using Suc len by (simp add: foldE_append set_cell_def)
qed

lemma fill_field:
  assumes "field_ok t" and "k \<le> width_f t" and "h = height_f t"
  shows "foldE (\<lambda>x. foldE (\<lambda>y t. set_cell t x y (g x y)) [0..<h]) [0..<k] t =
    Inr (t\<lparr>field_data := map (\<lambda>x. map (g x) [0..<h]) [0..<k] @ drop k (field_data t)\<rparr>)"
  using assms(2)
proof (induction k)
  case 0
  then show ?case by simp
next
  case (Suc k)
  define d where "d = map (\<lambda>x. map (g x) [0..<h]) [0..<k] @ drop k (field_data t)"
  define t' where "t' = t\<lparr>field_data := d\<rparr>"
  have len: "length (field_data t) = width_f t" "\<forall>c \<in> set (field_data t). length c = h" using assms by (auto simp: field_ok_def)
  have dk: "d ! k = field_data t ! k" "length d = width_f t" using Suc.prems len(1) by (simp_all add: d_def nth_append)
  have "field_ok t'" using assms(1,3) len dk(2) by (auto simp: field_ok_def t'_def d_def dest: in_set_dropD)
  then have "foldE (\<lambda>y t. set_cell t k y (g k y)) [0..<h] t' =
      Inr (t'\<lparr>field_data := d[k := map (g k) [0..<h] @ drop h (d ! k)]\<rparr>)"
    using fill_column [of t' k h "g k"] Suc.prems assms(3) by (simp add: t'_def)
  moreover have "drop h (d ! k) = []" using dk(1) len Suc.prems by (simp add: Suc_le_lessD)
  moreover have "d[k := map (g k) [0..<h]] = map (\<lambda>x. map (g x) [0..<h]) [0..<Suc k] @ drop (Suc k) (field_data t)"
    using Suc.prems len(1) by (simp add: d_def list_update_append Cons_nth_drop_Suc [symmetric])
  ultimately show ?case using Suc by (simp add: foldE_append t'_def d_def)
qed

lemma foldE_cong: "(\<And>x s. x \<in> set xs \<Longrightarrow> f x s = g x s) \<Longrightarrow> foldE f xs s = foldE g xs s"
  by (induction xs arbitrary: s) (auto simp: bindE_def split: sum.splits)

lemma tick_ok:
  assumes "universe_ok u"
  shows "\<exists>u'. tick u = Inr u' \<and> universe_ok u' \<and> rules_u u' = rules_u u \<and> name_u u' = name_u u \<and>
    main_field u' = next_generation (rules_u u) (main_field u) \<and> twin_field u' = main_field u"
proof -
  define m t where "m = main_field u" and "t = twin_field u"
  have ok: "field_ok m" "field_ok t" "rules_ok (rules_u u)" "width_f t = width_f m" "height_f t = height_f m"
    using assms by (auto simp: universe_ok_def m_def t_def)
  define g where "g = next_cell (rules_u u) m"
  have "foldE (\<lambda>x. foldE (\<lambda>y. tick_cell u x y) [0..<height_f m]) [0..<width_f m] t =
      foldE (\<lambda>x. foldE (\<lambda>y t. set_cell t x y (g x y)) [0..<height_f m]) [0..<width_f m] t"
    by (rule foldE_cong, rule foldE_cong) (simp add: tick_cell_ok [OF assms] m_def g_def)
  also have "\<dots> = Inr (t\<lparr>field_data := map (\<lambda>x. map (g x) [0..<height_f m]) [0..<width_f m] @ drop (width_f m) (field_data t)\<rparr>)"
    by (rule fill_field) (use ok in simp_all)
  also have "t\<lparr>field_data := map (\<lambda>x. map (g x) [0..<height_f m]) [0..<width_f m] @ drop (width_f m) (field_data t)\<rparr> =
      next_generation (rules_u u) m"
    using ok by (simp add: next_generation_def g_def field_ok_def)
  finally have "tick u = Inr (u\<lparr>main_field := next_generation (rules_u u) m, twin_field := m\<rparr>)"
    by (simp add: tick_def m_def t_def)
  moreover have "field_ok (next_generation (rules_u u) m)" using ok(1) by (auto simp: next_generation_def field_ok_def)
  ultimately show ?thesis using ok by (simp add: universe_ok_def next_generation_def m_def)
qed

lemma tick_n_ok:
  assumes "universe_ok u"
  shows "\<exists>u'. tick_n u n = Inr u' \<and> universe_ok u' \<and> rules_u u' = rules_u u \<and> name_u u' = name_u u \<and>
    main_field u' = (next_generation (rules_u u) ^^ n) (main_field u)"
  using assms
proof (induction n arbitrary: u)
  case (Suc n)
  obtain u1 where u1: "tick u = Inr u1" "universe_ok u1" "rules_u u1 = rules_u u" "name_u u1 = name_u u"
      "main_field u1 = next_generation (rules_u u) (main_field u)"
    using tick_ok [OF Suc.prems] by blast
  with Suc.IH [OF u1(2)] show ?case by (auto simp: funpow_swap1)
qed simp

text \<open>C32: from a well-formed universe \<open>tick_n\<close> throws nothing and leaves the field that \<open>n\<close> applications of the rules
  give, where a cell's neighbours are the live cells among the eight cells adjacent to it on the torus;
  rules, name and sizes stay.\<close>

theorem tick_n_generations:
  assumes "universe_ok u"
  shows "\<exists>u'. tick_n u n = Inr u' \<and> universe_ok u' \<and> rules_u u' = rules_u u \<and> name_u u' = name_u u \<and>
    main_field u' = (next_generation (rules_u u) ^^ n) (main_field u)"
  by (rule tick_n_ok [OF assms])

text \<open>The universe the application starts with when no file is given.\<close>

definition default_field :: Field where
  "default_field = \<lparr>field_data = [[True, False, False, False, False], [True, True, False, False, False],
     [True, False, False, False, False], [True, False, False, True, False], [False, False, False, False, True]],
     width_f = 5, height_f = 5\<rparr>"

lemma conway_ok: "\<exists>r. ConwayGameOfLife = Inr r \<and> rules_ok r"
  by (simp add: ConwayGameOfLife_def Rules_of_lists_def set_flag_def no_flags_def rules_ok_def)

theorem tick_n_generations_witness:
  "\<exists>r u u'. ConwayGameOfLife = Inr r \<and> new_Universe default_field r ''Unnamed'' = Inr u \<and> tick_n u 3 = Inr u' \<and>
    main_field u' = (next_generation r ^^ 3) default_field"
proof -
  obtain r where r: "ConwayGameOfLife = Inr r" "rules_ok r" using conway_ok by blast
  have "field_ok default_field" by (simp add: field_ok_def default_field_def)
  then obtain u where u: "new_Universe default_field r ''Unnamed'' = Inr u" "universe_ok u" "main_field u = default_field" "rules_u u = r"
    using new_Universe_ok [OF _ r(2)] by blast
  then show ?thesis using tick_n_generations [OF u(2), of 3] r(1) by auto
qed

section \<open>The MCell notation\<close>

lemma show_flag_char: "i < 9 \<Longrightarrow> show_nat i = [digit_char i] \<and> isdigit (digit_char i) \<and> chr_code (digit_char i) = 48 + i"
  by (subst show_nat.simps) (simp add: chr_code_digit_char isdigit_def)

lemma parse_show_flags:
  assumes "length b = 9" and "k \<le> 9"
  shows "foldE parse_flag (concat (map (\<lambda>i. if b ! i then show_nat i else []) [0..<k])) no_flags =
    Inr (take k b @ replicate (9 - k) False)"
  using assms(2)
proof (induction k)
  case 0
  then show ?case by (simp add: no_flags_def)
next
  case (Suc k)
  then have r: "replicate (9 - k) False = False # replicate (9 - Suc k) False"
    by (metis Suc_diff_Suc Suc_le_lessD replicate_Suc)
  have "take (Suc k) b = take k b @ [b ! k]" using Suc.prems assms(1) by (simp add: take_Suc_conv_app_nth)
  then show ?case
    using Suc assms(1) show_flag_char [of k] r
    by (simp add: foldE_append parse_flag_def set_flag_def list_update_append)
qed

lemma show_flags_digits: "c \<in> set (show_flags b) \<Longrightarrow> isdigit c"
  using show_nat_digits by (auto simp: show_flags_def digit_of_less_10_iff split: if_splits)

lemma parse_mcell:
  assumes "rules_ok r"
  shows "FromMCellNotation (toMCellNotation r) = Inr r"
proof -
  define b s where "b = neighbours_to_born r" and "s = neighbours_to_survive r"
  have len: "length b = 9" "length s = 9" using assms by (auto simp: rules_ok_def b_def s_def)
  have p: "foldE parse_flag (show_flags b) no_flags = Inr b" "foldE parse_flag (show_flags s) no_flags = Inr s"
    using parse_show_flags [of b 9] parse_show_flags [of s 9] len by (simp_all add: show_flags_def)
  have n: "CHR ''/'' \<notin> set (''B'' @ show_flags b)"
    using show_flags_digits [of "CHR ''/''" b] by (auto simp: isdigit_def chr_code_def)
  then have "takeWhile (\<lambda>c. c \<noteq> CHR ''/'') (toMCellNotation r) = ''B'' @ show_flags b"
    by (simp add: toMCellNotation_def b_def takeWhile_append)
  then have t: "take (length (takeWhile (\<lambda>c. c \<noteq> CHR ''/'') (toMCellNotation r))) (toMCellNotation r) = ''B'' @ show_flags b"
    "drop (length (takeWhile (\<lambda>c. c \<noteq> CHR ''/'') (toMCellNotation r))) (toMCellNotation r) = ''/S'' @ show_flags s"
    by (simp_all add: toMCellNotation_def b_def s_def)
  have "parse_flag CHR ''B'' bs = Inr bs" "parse_flag CHR ''/'' bs = Inr bs" "parse_flag CHR ''S'' bs = Inr bs" for bs
    by (simp_all add: parse_flag_def isdigit_def chr_code_def)
  moreover have "CHR ''/'' \<in> set (toMCellNotation r)" by (simp add: toMCellNotation_def)
  ultimately show ?thesis using p unfolding FromMCellNotation_def Let_def t
    by (simp add: b_def s_def)
qed

text \<open>C33: the MCell notation of any rules is parsed back to the same rules.\<close>

theorem mcell_roundtrip:
  assumes "rules_ok r"
  shows "\<exists>r'. FromMCellNotation (toMCellNotation r) = Inr r' \<and> rules_eq r' r"
  using parse_mcell [OF assms] by (simp add: rules_eq_def)

theorem mcell_roundtrip_witness:
  "\<exists>r r'. ConwayGameOfLife = Inr r \<and> FromMCellNotation (toMCellNotation r) = Inr r' \<and> rules_eq r' r"
  using mcell_roundtrip conway_ok by blast

end
