(* ===== verification/Life_File.thy ===== *)
theory Life_File
  imports Life_Core "HOL-Library.Sublist"
begin

text \<open>
  \<open>C++-Labs/lab_2_game_of_life/src\<close>: the Life 1.06 files of \<open>serialize/LifeASCIISerializer.cpp\<close>, the command line
  (\<open>utils/CommandLineArguments.cpp\<close>) and the offline mode of \<open>Application.cpp\<close>.  A file is the string of its characters;
  the file system is a function from paths to contents.  What a universe was written as is read back as that universe, and
  the offline mode writes the generation it was asked for.
\<close>

section \<open>Definitions\<close>

subsection \<open>Files\<close>

definition nl :: char where
  "nl = CHR 0x0A"

text \<open>The lines \<open>std::getline\<close> delivers.\<close>

function lines_of :: "string \<Rightarrow> string list" where
  "lines_of s = (if s = [] then [] else
     let l = takeWhile (\<lambda>c. c \<noteq> nl) s in l # lines_of (drop (length l + 1) s))"
  by pat_completeness auto
termination
  by (relation "measure length") auto

declare lines_of.simps [simp del]

text \<open>Extraction of a \<open>size_t\<close> from a string stream; \<open>None\<close> when the stream fails.\<close>

definition extract_size :: "string \<Rightarrow> (nat \<times> string) option" where
  "extract_size inp = (case scan_int False inp of
     Item v rest \<Rightarrow> if \<bar>v\<bar> < 2 ^ 64 then Some (to_uint64 v, rest) else None
   | _ \<Rightarrow> None)"

definition extract_two :: "string \<Rightarrow> (nat \<times> nat) option" where
  "extract_two inp = (case extract_size inp of None \<Rightarrow> None
     | Some (a, rest) \<Rightarrow> (case extract_size rest of None \<Rightarrow> None | Some (b, _) \<Rightarrow> Some (a, b)))"

definition write_cells :: "Field \<Rightarrow> string \<Rightarrow> string life" where
  "write_cells f out =
     foldE (\<lambda>x. foldE (\<lambda>y out. bindE (at_cell f x y) (\<lambda>b.
        Inr (if b then out @ show_nat x @ '' '' @ show_nat y @ [nl] else out))) [0..<height_f f]) [0..<width_f f] out"

definition WriteToFile :: "Universe \<Rightarrow> string life" where
  "WriteToFile u = write_cells (main_field u)
     (''#Life 1.06'' @ [nl] @
      ''#N '' @ name_u u @ [nl] @
      ''#S '' @ show_nat (width_f (main_field u)) @ '' '' @ show_nat (height_f (main_field u)) @ [nl] @
      ''#R '' @ toMCellNotation (rules_u u) @ [nl])"

datatype warning = Cell_ignored nat nat | Cell_repeated nat nat | Name_not_found | Rules_not_found

record file_reader =
  universe :: Universe
  r_width :: nat
  r_height :: nat
  name_found :: bool
  rules_found :: bool
  size_found :: bool
  warnings :: "warning list"

definition ParseError :: "string \<Rightarrow> string \<Rightarrow> life_error" where
  "ParseError line message = Runtime_error (''Error while parsing line \"'' @ line @ ''\": '' @ message)"

fun rethrow :: "string \<Rightarrow> life_error \<Rightarrow> life_error" where
  "rethrow line (Runtime_error what) = ParseError line what"
| "rethrow line (Invalid_argument what) = ParseError line what"
| "rethrow line Out_of_range = Out_of_range"

definition read_cell :: "string \<Rightarrow> file_reader \<Rightarrow> file_reader life" where
  "read_cell line st =
     (if size_found st then
        (case extract_two line of
           None \<Rightarrow> Inl (ParseError line ''failed to read cell coordinates'')
         | Some (x, y) \<Rightarrow>
             if r_width st \<le> x \<or> r_height st \<le> y then Inr (st\<lparr>warnings := warnings st @ [Cell_ignored x y]\<rparr>)
             else bindE (at_cell (main_field (universe st)) x y) (\<lambda>old.
                  bindE (set_cell (main_field (universe st)) x y True) (\<lambda>f.
                  Inr (st\<lparr>universe := (universe st)\<lparr>main_field := f\<rparr>,
                          warnings := (if old then warnings st @ [Cell_repeated x y] else warnings st)\<rparr>))))
      else Inl (ParseError line ''no field size specified before cell coordinates''))"

definition read_line :: "string \<Rightarrow> file_reader \<Rightarrow> file_reader life" where
  "read_line line st =
     (if prefix ''#N '' line then
        Inr (st\<lparr>name_found := True, universe := setName (universe st) (drop 3 line)\<rparr>)
      else if prefix ''#R '' line then
        (case FromMCellNotation (drop 3 line) of
           Inl e \<Rightarrow> Inl (rethrow line e)
         | Inr r \<Rightarrow> Inr (st\<lparr>rules_found := True, universe := setRules (universe st) r\<rparr>))
      else if prefix ''#S '' line then
        (case extract_two (drop 3 line) of
           None \<Rightarrow> Inl (ParseError line ''failed to read field size'')
         | Some (w, h) \<Rightarrow>
             bindE (resize (universe st) w h) (\<lambda>u.
             Inr (st\<lparr>size_found := True, r_width := w, r_height := h, universe := u\<rparr>)))
      else if \<not> prefix ''#'' line then read_cell line st
      else Inr st)"

text \<open>\<open>None\<close>: the file cannot be opened.\<close>

definition ReadFromFile :: "string \<Rightarrow> string option \<Rightarrow> (Universe \<times> warning list) life" where
  "ReadFromFile path contents = (case contents of
     None \<Rightarrow> Inl (Runtime_error (''Failed to open file '' @ path))
   | Some s \<Rightarrow>
       bindE default_Universe (\<lambda>u.
       bindE (foldE read_line (lines_of s)
          \<lparr>universe = u, r_width = 0, r_height = 0, name_found = False, rules_found = False, size_found = False,
           warnings = []\<rparr>) (\<lambda>st.
       Inr (universe st, warnings st @ (if name_found st then [] else [Name_not_found]) @
         (if rules_found st then [] else [Rules_not_found])))))"

subsection \<open>The command line\<close>

definition option_name :: "string \<Rightarrow> string option" where
  "option_name a = (if prefix ''--'' a then Some (drop 2 a) else if prefix ''-'' a then Some (drop 1 a) else None)"

text \<open>\<open>map::insert\<close> keeps the first value of an option.\<close>

definition insert_option :: "(string \<times> string) list \<Rightarrow> string \<Rightarrow> string \<Rightarrow> (string \<times> string) list" where
  "insert_option opts n v = (if map_of opts n = None then opts @ [(n, v)] else opts)"

function CommandLineArguments :: "string list \<Rightarrow> (string \<times> string) list \<Rightarrow> (string \<times> string) list" where
  "CommandLineArguments [] opts = opts"
| "CommandLineArguments (a # as) opts = (case option_name a of
     None \<Rightarrow> CommandLineArguments as opts
   | Some n \<Rightarrow>
       if as \<noteq> [] \<and> \<not> prefix ''-'' (hd as) then CommandLineArguments (tl as) (insert_option opts n (hd as))
       else CommandLineArguments as (insert_option opts n ''True''))"
  by pat_completeness auto
termination
  by (relation "measure (length \<circ> fst)") auto

definition getOption :: "(string \<times> string) list \<Rightarrow> string \<Rightarrow> string option" where
  "getOption opts n = map_of opts n"

definition getOption2 :: "(string \<times> string) list \<Rightarrow> string \<Rightarrow> string \<Rightarrow> string option" where
  "getOption2 opts n alias = (case getOption opts n of Some v \<Rightarrow> Some v | None \<Rightarrow> getOption opts alias)"

text \<open>\<open>getOption<int>\<close>: a value that is no number gives 0, one out of range the nearest number.\<close>

definition getOption_int :: "(string \<times> string) list \<Rightarrow> string \<Rightarrow> int option" where
  "getOption_int opts n = map_option (\<lambda>s. case scan_int False s of
     Item v _ \<Rightarrow> max (- (2 ^ 31)) (min (2 ^ 31 - 1) v) | _ \<Rightarrow> 0) (getOption opts n)"

text \<open>Extraction of a path: a quoted string or a word, so an unquoted path ends at its first blank.\<close>

fun unquote :: "string \<Rightarrow> string option" where
  "unquote [] = None"
| "unquote (c # s) = (if c = CHR 0x22 then Some []
     else if c = CHR 0x5C then (case s of [] \<Rightarrow> None | d # t \<Rightarrow> map_option ((#) d) (unquote t))
     else map_option ((#) c) (unquote s))"

definition extract_path :: "string \<Rightarrow> string" where
  "extract_path inp =
     (let s = dropWhile isspace inp in
      if s = [] then []
      else if hd s = CHR 0x22 then (case unquote (tl s) of None \<Rightarrow> [] | Some p \<Rightarrow> p)
      else takeWhile (\<lambda>c. \<not> isspace c) s)"

definition getOption_path :: "(string \<times> string) list \<Rightarrow> string \<Rightarrow> string \<Rightarrow> string option" where
  "getOption_path opts n alias = (case getOption opts n of Some v \<Rightarrow> Some (extract_path v)
     | None \<Rightarrow> map_option extract_path (getOption opts alias))"

subsection \<open>The application\<close>

text \<open>How a run ends: with an exit status and perhaps a file written, or in the window.\<close>

datatype outcome = Exited int "(string \<times> string) option" | Window Universe

definition offlineMode :: "(string \<times> string) list \<Rightarrow> Universe \<Rightarrow> outcome life" where
  "offlineMode opts u = (case getOption_int opts ''iterations'' of
     None \<Rightarrow> Inr (Exited 1 None)
   | Some i \<Rightarrow>
       bindE (tick_n u (nat (i mod 2 ^ 64))) (\<lambda>u'.
       bindE (WriteToFile u') (\<lambda>s.
       Inr (Exited 0 (Some (case getOption2 opts ''output'' ''o'' of Some p \<Rightarrow> p | None \<Rightarrow> ''./output.life'', s))))))"

definition openUniverse :: "(string \<Rightarrow> string option) \<Rightarrow> string \<Rightarrow> Universe life" where
  "openUniverse files path = bindE (ReadFromFile path (files path)) (\<lambda>(u, _). Inr u)"

definition launch :: "(string \<Rightarrow> string option) \<Rightarrow> string list \<Rightarrow> outcome life" where
  "launch files args =
     (let opts = CommandLineArguments args [] in
      bindE (case getOption_path opts ''input'' ''i'' of
               Some p \<Rightarrow> openUniverse files p
             | None \<Rightarrow> bindE (Field_of_matrix (field_data default_field)) (\<lambda>f.
                       bindE ConwayGameOfLife (\<lambda>r. new_Universe f r ''Unnamed''))) (\<lambda>u.
      if getOption opts ''offline'' \<noteq> None then offlineMode opts u else Inr (Window u)))"

section \<open>Lines and numbers\<close>

lemma lines_of_Nil [simp]: "lines_of [] = []"
  by (simp add: lines_of.simps)

lemma lines_of_line: "nl \<notin> set l \<Longrightarrow> lines_of (l @ nl # s) = l # lines_of s"
proof -
  assume "nl \<notin> set l"
  then have "takeWhile (\<lambda>c. c \<noteq> nl) (l @ nl # s) = l" by (simp add: takeWhile_append)
  then show ?thesis by (subst lines_of.simps) (simp add: Let_def)
qed

lemma lines_of_concat:
  "(\<And>l. l \<in> set ls \<Longrightarrow> nl \<notin> set l) \<Longrightarrow> lines_of (concat (map (\<lambda>l. l @ [nl]) ls)) = ls"
  by (induction ls) (simp_all add: lines_of_line)

lemma show_nat_chars: "c \<in> set (show_nat n) \<Longrightarrow> isdigit c"
  using show_nat_digits digit_of_less_10_iff by blast

lemma nl_not_digit: "nl \<notin> set (show_nat n)" "nl \<notin> set (show_flags b)"
  using show_nat_chars [of nl n] show_flags_digits [of nl b] by (auto simp: nl_def isdigit_def chr_code_def)

lemma extract_two_show:
  assumes "a < 2 ^ 64" and "b < 2 ^ 64"
  shows "extract_two (show_nat a @ '' '' @ show_nat b) = Some (a, b)"
proof -
  have "scan_int False ([] @ show_nat a @ ('' '' @ show_nat b)) = Item (int a) ('' '' @ show_nat b)"
    by (rule scan_int_show_nat) (simp_all add: ends_number_def isdigit_def chr_code_def)
  moreover have "scan_int False ('' '' @ show_nat b @ []) = Item (int b) []"
    by (rule scan_int_show_nat) (simp_all add: ends_number_def isspace_def chr_code_def)
  ultimately show ?thesis using assms by (simp add: extract_two_def extract_size_def)
qed

section \<open>What is written is read back\<close>

text \<open>The live cells in the order of the file, and the line of one.\<close>

definition live_cells :: "Field \<Rightarrow> (nat \<times> nat) list" where
  "live_cells f = filter (\<lambda>(x, y). field_data f ! x ! y) (List.product [0..<width_f f] [0..<height_f f])"

definition cell_line :: "nat \<times> nat \<Rightarrow> string" where
  "cell_line p = show_nat (fst p) @ '' '' @ show_nat (snd p)"

lemma foldE_collect: "foldE (\<lambda>x out. Inr (out @ g x)) xs out = Inr (out @ concat (map g xs))"
  by (induction xs arbitrary: out) simp_all

lemma concat_product:
  "concat (map (\<lambda>x. concat (map (\<lambda>y. if P x y then g (x, y) else []) ys)) xs) =
   concat (map g (filter (\<lambda>(x, y). P x y) (List.product xs ys)))"
proof (induction xs)
  case (Cons x xs)
  have "concat (map (\<lambda>y. if P x y then g (x, y) else []) ys) = concat (map g (filter (\<lambda>(x, y). P x y) (map (Pair x) ys)))"
    by (induction ys) auto
  then show ?case using Cons by simp
qed simp

lemma write_cells_ok:
  assumes "field_ok f"
  shows "write_cells f out = Inr (out @ concat (map (\<lambda>l. l @ [nl]) (map cell_line (live_cells f))))"
proof -
  define g where "g = (\<lambda>x. concat (map (\<lambda>y. if field_data f ! x ! y then cell_line (x, y) @ [nl] else []) [0..<height_f f]))"
  have "write_cells f out = foldE (\<lambda>x out. Inr (out @ g x)) [0..<width_f f] out"
    unfolding write_cells_def
  proof (rule foldE_cong)
    fix x s
    assume x: "x \<in> set [0..<width_f f]"
    have "foldE (\<lambda>y out. bindE (at_cell f x y) (\<lambda>b.
        Inr (if b then out @ show_nat x @ '' '' @ show_nat y @ [nl] else out))) [0..<height_f f] s =
      foldE (\<lambda>y out. Inr (out @ (if field_data f ! x ! y then cell_line (x, y) @ [nl] else []))) [0..<height_f f] s"
      by (rule foldE_cong) (use x at_cell_ok [OF assms] in \<open>auto simp: cell_line_def\<close>)
    then show "foldE (\<lambda>y out. bindE (at_cell f x y) (\<lambda>b.
        Inr (if b then out @ show_nat x @ '' '' @ show_nat y @ [nl] else out))) [0..<height_f f] s = Inr (s @ g x)"
      by (simp add: foldE_collect g_def)
  qed
  then show ?thesis
    using concat_product [of "\<lambda>x y. field_data f ! x ! y" "\<lambda>p. cell_line p @ [nl]" "[0..<height_f f]" "[0..<width_f f]"]
    by (simp add: foldE_collect g_def live_cells_def comp_def)
qed

lemma cell_line_not_header: "\<not> prefix (CHR ''#'' # s) (cell_line p)"
proof -
  obtain c t where c: "show_nat (fst p) = c # t" "digit_of c < 10" using show_nat_Cons [of "fst p"] by auto
  then have "c \<noteq> CHR ''#''" by (auto simp: digit_of_less_10_iff isdigit_def chr_code_def)
  then show ?thesis using c(1) by (simp add: cell_line_def)
qed

lemma read_cell_line:
  assumes "size_found st" and "field_ok (main_field (universe st))" and "x < r_width st" and "y < r_height st"
    and "r_width st = width_f (main_field (universe st))" and "r_height st = height_f (main_field (universe st))"
    and "r_width st < 2 ^ 64" and "r_height st < 2 ^ 64" and "\<not> field_data (main_field (universe st)) ! x ! y"
  shows "read_line (cell_line (x, y)) st = Inr (st\<lparr>universe := (universe st)\<lparr>main_field := (main_field (universe st))
    \<lparr>field_data := (field_data (main_field (universe st)))[x := (field_data (main_field (universe st)) ! x)[y := True]]\<rparr>\<rparr>\<rparr>)"
proof -
  have "extract_two (cell_line (x, y)) = Some (x, y)"
    using extract_two_show [of x y] assms(3,4,7,8) by (simp add: cell_line_def)
  moreover have "x < length (field_data (main_field (universe st)))" "length (field_data (main_field (universe st)) ! x) = r_height st"
    using assms field_column by (auto simp: field_ok_def)
  ultimately show ?thesis using assms at_cell_ok [OF assms(2), of x y] cell_line_not_header [of _ "(x, y)"]
    by (simp add: read_line_def read_cell_def set_cell_def)
qed

lemma read_cells:
  assumes "size_found st" and "field_ok (main_field (universe st))"
    and "r_width st = width_f (main_field (universe st))" and "r_height st = height_f (main_field (universe st))"
    and "r_width st < 2 ^ 64" and "r_height st < 2 ^ 64" and "distinct ps"
    and "\<And>x y. (x, y) \<in> set ps \<Longrightarrow> x < r_width st \<and> y < r_height st \<and> \<not> field_data (main_field (universe st)) ! x ! y"
  shows "\<exists>f. foldE read_line (map cell_line ps) st = Inr (st\<lparr>universe := (universe st)\<lparr>main_field := f\<rparr>\<rparr>) \<and> field_ok f \<and>
    width_f f = r_width st \<and> height_f f = r_height st \<and>
    (\<forall>i < r_width st. \<forall>j < r_height st.
       field_data f ! i ! j \<longleftrightarrow> field_data (main_field (universe st)) ! i ! j \<or> (i, j) \<in> set ps)"
  using assms
proof (induction ps arbitrary: st)
  case Nil
  then show ?case by (intro exI [of _ "main_field (universe st)"]) simp
next
  case (Cons p ps)
  obtain x y where p: "p = (x, y)" by fastforce
  define f where "f = main_field (universe st)"
  define f1 where "f1 = f\<lparr>field_data := (field_data f)[x := (field_data f ! x)[y := True]]\<rparr>"
  define st1 where "st1 = st\<lparr>universe := (universe st)\<lparr>main_field := f1\<rparr>\<rparr>"
  have xy: "x < r_width st" "y < r_height st" "\<not> field_data f ! x ! y" using Cons.prems(8) p by (auto simp: f_def)
  have rl: "read_line (cell_line p) st = Inr st1"
    using read_cell_line [OF Cons.prems(1,2) xy(1,2) Cons.prems(3-6)] xy(3) p by (simp add: f_def f1_def st1_def)
  have dims: "length (field_data f) = r_width st" "\<forall>c \<in> set (field_data f). length c = r_height st"
    using Cons.prems(2-4) by (auto simp: field_ok_def f_def)
  have f1: "field_ok f1" using Cons.prems(2) dims xy(1,2) by (auto simp: field_ok_def f1_def f_def dest!: set_update_subset_insert [THEN subsetD])
  have cells: "field_data f1 ! i ! j \<longleftrightarrow> field_data f ! i ! j \<or> (i, j) = (x, y)" if "i < r_width st" "j < r_height st" for i j
    using that dims xy(1,2) by (auto simp: f1_def nth_list_update)
  have "\<exists>f'. foldE read_line (map cell_line ps) st1 = Inr (st1\<lparr>universe := (universe st1)\<lparr>main_field := f'\<rparr>\<rparr>) \<and> field_ok f' \<and>
      width_f f' = r_width st1 \<and> height_f f' = r_height st1 \<and>
      (\<forall>i < r_width st1. \<forall>j < r_height st1.
         field_data f' ! i ! j \<longleftrightarrow> field_data (main_field (universe st1)) ! i ! j \<or> (i, j) \<in> set ps)"
  proof (rule Cons.IH)
    show "distinct ps" using Cons.prems(7) by simp
    show "a < r_width st1 \<and> b < r_height st1 \<and> \<not> field_data (main_field (universe st1)) ! a ! b" if ab: "(a, b) \<in> set ps" for a b
      using Cons.prems(7) Cons.prems(8) [of a b] ab p cells [of a b] by (auto simp: st1_def f_def)
  qed (use Cons.prems f1 in \<open>simp_all add: st1_def f1_def f_def\<close>)
  then obtain f' where f': "foldE read_line (map cell_line ps) st1 = Inr (st1\<lparr>universe := (universe st1)\<lparr>main_field := f'\<rparr>\<rparr>)"
      "field_ok f'" "width_f f' = r_width st" "height_f f' = r_height st"
      "\<forall>i < r_width st. \<forall>j < r_height st. field_data f' ! i ! j \<longleftrightarrow> field_data f1 ! i ! j \<or> (i, j) \<in> set ps"
    by (auto simp: st1_def)
  have "st1\<lparr>universe := (universe st1)\<lparr>main_field := f'\<rparr>\<rparr> = st\<lparr>universe := (universe st)\<lparr>main_field := f'\<rparr>\<rparr>"
    by (simp add: st1_def)
  then show ?case using rl f' cells p by (intro exI [of _ f']) (auto simp: f_def)
qed

lemma live_cells_ok:
  "distinct (live_cells f)"
  "(x, y) \<in> set (live_cells f) \<longleftrightarrow> x < width_f f \<and> y < height_f f \<and> field_data f ! x ! y"
  by (auto simp: live_cells_def distinct_product)

lemma header_lines:
  assumes "nl \<notin> set (name_u u)"
  shows "lines_of (''#Life 1.06'' @ [nl] @ ''#N '' @ name_u u @ [nl] @
      ''#S '' @ show_nat w @ '' '' @ show_nat h @ [nl] @ ''#R '' @ toMCellNotation r @ [nl] @ rest) =
    [''#Life 1.06'', ''#N '' @ name_u u, ''#S '' @ cell_line (w, h), ''#R '' @ toMCellNotation r] @ lines_of rest"
proof -
  have "nl \<notin> set (''#N '' @ name_u u)" "nl \<notin> set (''#Life 1.06'')" using assms by (auto simp: nl_def)
  moreover have "nl \<notin> set (''#S '' @ cell_line (w, h))" "nl \<notin> set (''#R '' @ toMCellNotation r)"
    using nl_not_digit by (auto simp: cell_line_def toMCellNotation_def nl_def)
  ultimately show ?thesis
    using lines_of_line [of "''#Life 1.06''"] lines_of_line [of "''#N '' @ name_u u"] lines_of_line [of "''#S '' @ cell_line (w, h)"]
      lines_of_line [of "''#R '' @ toMCellNotation r"]
    by (simp add: cell_line_def)
qed

lemma resize_empty:
  assumes "3 \<le> w" and "3 \<le> h"
  shows "resize_Field empty_Field w h = Inr \<lparr>field_data = replicate w (replicate h False), width_f = w, height_f = h\<rparr>"
proof -
  have "resize_list w [] ([] :: bool list list) \<noteq> []" using assms(1) by (cases w) (auto simp: resize_list_def)
  then show ?thesis using assms
    by (simp add: resize_Field_def empty_Field_def validateSize_def Let_def) (simp add: resize_list_def)
qed

definition writable :: "Universe \<Rightarrow> bool" where
  "writable u \<longleftrightarrow> universe_ok u \<and> nl \<notin> set (name_u u) \<and> width_f (main_field u) < 2 ^ 64 \<and> height_f (main_field u) < 2 ^ 64"

lemma roundtrip_universe:
  assumes "writable u"
  shows "\<exists>s v. WriteToFile u = Inr s \<and> ReadFromFile path (Some s) = Inr (v, []) \<and> universe_ok v \<and>
    name_u v = name_u u \<and> rules_u v = rules_u u \<and> main_field v = main_field u"
proof -
  define f where "f = main_field u"
  define w h where "w = width_f f" and "h = height_f f"
  have ok: "field_ok f" "rules_ok (rules_u u)" "nl \<notin> set (name_u u)" "w < 2 ^ 64" "h < 2 ^ 64" "3 \<le> w" "3 \<le> h"
    using assms by (auto simp: writable_def universe_ok_def f_def w_def h_def field_ok_def)
  define body where "body = concat (map (\<lambda>l. l @ [nl]) (map cell_line (live_cells f)))"
  define s where "s = ''#Life 1.06'' @ [nl] @ ''#N '' @ name_u u @ [nl] @
      ''#S '' @ show_nat w @ '' '' @ show_nat h @ [nl] @ ''#R '' @ toMCellNotation (rules_u u) @ [nl] @ body"
  have wr: "WriteToFile u = Inr s"
    using write_cells_ok [OF ok(1)] by (simp add: WriteToFile_def s_def body_def f_def w_def h_def)
  have "lines_of body = map cell_line (live_cells f)"
    unfolding body_def by (rule lines_of_concat) (use nl_not_digit in \<open>auto simp: cell_line_def nl_def\<close>)
  then have ls: "lines_of s = [''#Life 1.06'', ''#N '' @ name_u u, ''#S '' @ cell_line (w, h), ''#R '' @ toMCellNotation (rules_u u)] @
      map cell_line (live_cells f)"
    unfolding s_def by (simp only: header_lines [OF ok(3)])
  obtain u0 where u0: "default_Universe = Inr u0" "main_field u0 = empty_Field" "twin_field u0 = empty_Field"
  proof -
    obtain r where "ConwayGameOfLife = Inr r" using conway_ok by blast
    then have "default_Universe = Inr \<lparr>name_u = ''Unnamed'', rules_u = r, main_field = empty_Field, twin_field = empty_Field\<rparr>"
      by (simp add: default_Universe_def)
    from this that [OF this] show ?thesis by simp
  qed
  define f0 where "f0 = \<lparr>field_data = replicate w (replicate h False), width_f = w, height_f = h\<rparr>"
  have f0: "field_ok f0" using ok(6,7) by (simp add: field_ok_def f0_def)
  define u1 where "u1 = u0\<lparr>name_u := name_u u, main_field := f0, twin_field := f0, rules_u := rules_u u\<rparr>"
  define st0 where "st0 = \<lparr>universe = u0, r_width = 0, r_height = 0, name_found = False, rules_found = False,
    size_found = False, warnings = []\<rparr>"
  define st1 where "st1 = st0\<lparr>universe := u1, r_width := w, r_height := h, name_found := True, rules_found := True, size_found := True\<rparr>"
  have rs: "resize (u0\<lparr>name_u := name_u u\<rparr>) w h = Inr (u0\<lparr>name_u := name_u u, main_field := f0, twin_field := f0\<rparr>)"
    using resize_empty [OF ok(6,7)] u0(2,3) by (simp add: resize_def f0_def)
  have hd: "foldE read_line [''#Life 1.06'', ''#N '' @ name_u u, ''#S '' @ cell_line (w, h), ''#R '' @ toMCellNotation (rules_u u)] st0 = Inr st1"
    using extract_two_show [OF ok(4,5)] rs parse_mcell [OF ok(2)]
    by (simp add: read_line_def setName_def setRules_def cell_line_def st0_def st1_def u1_def)
  obtain f' where f': "foldE read_line (map cell_line (live_cells f)) st1 = Inr (st1\<lparr>universe := u1\<lparr>main_field := f'\<rparr>\<rparr>)"
      "field_ok f'" "width_f f' = w" "height_f f' = h"
      "\<forall>i < w. \<forall>j < h. field_data f' ! i ! j \<longleftrightarrow> (i, j) \<in> set (live_cells f)"
    using read_cells [of st1 "live_cells f"] f0 ok(4,5) live_cells_ok(1) [of f] live_cells_ok(2) [of _ _ f]
    by (auto simp: st1_def u1_def f0_def w_def h_def)
  have "foldE read_line (lines_of s) st0 = Inr (st1\<lparr>universe := u1\<lparr>main_field := f'\<rparr>\<rparr>)"
    unfolding ls foldE_append hd by (simp only: bindE_simps f'(1))
  then have rd: "ReadFromFile path (Some s) = Inr (u1\<lparr>main_field := f'\<rparr>, [])"
    by (simp add: ReadFromFile_def u0(1) st1_def st0_def)
  have "field_data f' = field_data f"
  proof (rule nth_equalityI)
    show l: "length (field_data f') = length (field_data f)" using f'(2,3) ok(1) by (simp add: field_ok_def w_def)
    show "field_data f' ! i = field_data f ! i" if "i < length (field_data f')" for i
    proof (rule nth_equalityI)
      have i: "i < w" using that f'(2,3) by (simp add: field_ok_def)
      show "length (field_data f' ! i) = length (field_data f ! i)"
        using i f'(2-4) ok(1) field_column [of f i] field_column [of f' i] by (simp add: w_def h_def)
      show "field_data f' ! i ! j = field_data f ! i ! j" if "j < length (field_data f' ! i)" for j
        using that i f'(2-5) field_column [of f' i] live_cells_ok(2) [of i j f] by (auto simp: w_def h_def)
    qed
  qed
  then have "f' = f" using f'(3,4) by (simp add: w_def h_def)
  then show ?thesis using wr rd f0 ok(1,2) by (auto simp: u1_def f_def universe_ok_def f0_def w_def h_def)
qed

text \<open>C34: a universe written to a Life 1.06 file is read back with the same name, rules and cells, and without a
  warning, provided its name has no line break and its sizes fit a \<open>size_t\<close>.\<close>

theorem life_file_roundtrip:
  assumes "writable u"
  shows "\<exists>s v. WriteToFile u = Inr s \<and> ReadFromFile path (Some s) = Inr (v, []) \<and>
    name_u v = name_u u \<and> rules_eq (rules_u v) (rules_u u) \<and> field_eq (main_field v) (main_field u) \<and>
    width_f (main_field v) = width_f (main_field u) \<and> height_f (main_field v) = height_f (main_field u)"
  using roundtrip_universe [OF assms, of path] by (auto simp: rules_eq_def field_eq_def)

lemma default_writable: "\<exists>r u. ConwayGameOfLife = Inr r \<and> new_Universe default_field r ''Unnamed'' = Inr u \<and> writable u"
proof -
  obtain r where r: "ConwayGameOfLife = Inr r" "rules_ok r" using conway_ok by blast
  have "field_ok default_field" by (simp add: field_ok_def default_field_def)
  then obtain u where u: "new_Universe default_field r ''Unnamed'' = Inr u" "universe_ok u" "main_field u = default_field" "name_u u = ''Unnamed''"
    using new_Universe_ok [OF _ r(2)] by blast
  then have "writable u" by (simp add: writable_def default_field_def nl_def)
  then show ?thesis using r u by blast
qed

theorem life_file_roundtrip_witness:
  "\<exists>r u s v. ConwayGameOfLife = Inr r \<and> new_Universe default_field r ''Unnamed'' = Inr u \<and> WriteToFile u = Inr s \<and>
    ReadFromFile ''a.life'' (Some s) = Inr (v, []) \<and> field_eq (main_field v) (main_field u)"
  using life_file_roundtrip [of _ "''a.life''"] default_writable by blast

section \<open>The offline mode\<close>

text \<open>A path that is one word and does not look like an option.\<close>

definition plain_path :: "string \<Rightarrow> bool" where
  "plain_path p \<longleftrightarrow> p \<noteq> [] \<and> hd p \<noteq> CHR 0x22 \<and> hd p \<noteq> CHR ''-'' \<and> list_all (\<lambda>c. \<not> isspace c) p"

lemma extract_plain_path: "plain_path p \<Longrightarrow> extract_path p = p"
  by (cases p) (auto simp: plain_path_def extract_path_def Let_def list_all_iff takeWhile_eq_all_conv)

lemma offline_options:
  assumes "option_name prog = None" and "plain_path p" and "plain_path out"
  shows "CommandLineArguments [prog, ''--input'', p, ''--offline'', ''--iterations'', show_nat n, ''--output'', out] [] =
    [(''input'', p), (''offline'', ''True''), (''iterations'', show_nat n), (''output'', out)]"
proof -
  obtain c t where c: "show_nat n = c # t" "digit_of c < 10" using show_nat_Cons [of n] by auto
  then have "CHR ''-'' \<noteq> c" by (auto simp: digit_of_less_10_iff isdigit_def chr_code_def)
  then have d: "\<not> prefix ''-'' (show_nat n)" using c(1) by simp
  have pd: "\<not> prefix ''-'' p" "\<not> prefix ''-'' out"
    using assms(2,3) by (auto simp: plain_path_def prefix_def)
  show ?thesis using assms(1) d pd by (simp add: option_name_def insert_option_def)
qed

text \<open>C35: run offline on a file that holds a universe, for \<open>n\<close> iterations, the application exits with success and writes
  to the given path a file that holds the \<open>n\<close>-th generation of that universe, with its name and rules.\<close>

theorem offline_mode_generations:
  assumes "writable u" and "WriteToFile u = Inr s" and "files p = Some s" and "plain_path p" and "plain_path out"
    and "option_name prog = None" and "n < 2 ^ 31"
  shows "\<exists>s' v. launch files [prog, ''--input'', p, ''--offline'', ''--iterations'', show_nat n, ''--output'', out] =
      Inr (Exited 0 (Some (out, s'))) \<and> ReadFromFile out (Some s') = Inr (v, []) \<and> name_u v = name_u u \<and>
    rules_u v = rules_u u \<and> main_field v = (next_generation (rules_u u) ^^ n) (main_field u)"
proof -
  obtain v where v: "ReadFromFile p (Some s) = Inr (v, [])" "universe_ok v" "name_u v = name_u u" "rules_u v = rules_u u"
      "main_field v = main_field u"
    using roundtrip_universe [OF assms(1), of p] assms(2) by auto
  obtain t where t: "tick_n v n = Inr t" "universe_ok t" "rules_u t = rules_u u" "name_u t = name_u u"
      "main_field t = (next_generation (rules_u u) ^^ n) (main_field u)"
    using tick_n_ok [OF v(2), of n] v(3-5) by auto
  have "width_f ((next_generation r ^^ k) f) = width_f f \<and> height_f ((next_generation r ^^ k) f) = height_f f" for r f k
    by (induction k) (simp_all add: next_generation_def)
  then have "writable t" using assms(1) t(2,4,5) by (simp add: writable_def)
  from roundtrip_universe [OF this, of out] obtain s' w where w: "WriteToFile t = Inr s'" "ReadFromFile out (Some s') = Inr (w, [])"
      "name_u w = name_u t" "rules_u w = rules_u t" "main_field w = main_field t" by blast
  have "scan_int False ([] @ show_nat n @ []) = Item (int n) []" by (rule scan_int_show_nat) (simp_all add: ends_number_def)
  moreover have "nat (int n mod 18446744073709551616) = n" "max (- (2 ^ 31)) (min (2 ^ 31 - 1) (int n)) = int n"
    using assms(7) by auto
  ultimately have "launch files [prog, ''--input'', p, ''--offline'', ''--iterations'', show_nat n, ''--output'', out] =
      Inr (Exited 0 (Some (out, s')))"
    using v(1) t(1) w(1) assms(3) extract_plain_path [OF assms(4)]
    unfolding launch_def Let_def offline_options [OF assms(6,4,5)]
    by (simp add: getOption_path_def getOption_def openUniverse_def offlineMode_def getOption_int_def getOption2_def)
  then show ?thesis using w t by auto
qed

theorem offline_mode_generations_witness:
  "\<exists>u s s' v. WriteToFile u = Inr s \<and>
    launch (\<lambda>_. Some s) [''life'', ''--input'', ''a.life'', ''--offline'', ''--iterations'', show_nat 7, ''--output'', ''b.life''] =
      Inr (Exited 0 (Some (''b.life'', s'))) \<and> ReadFromFile ''b.life'' (Some s') = Inr (v, []) \<and>
    main_field v = (next_generation (rules_u u) ^^ 7) (main_field u)"
proof -
  obtain u where u: "writable u" using default_writable by blast
  obtain s where s: "WriteToFile u = Inr s" using roundtrip_universe [OF u] by blast
  have "plain_path ''a.life''" "plain_path ''b.life''" "option_name ''life'' = None"
    by (simp_all add: plain_path_def isspace_def chr_code_def option_name_def)
  then show ?thesis using offline_mode_generations [OF u s, of "\<lambda>_. Some s" "''a.life''" "''b.life''" "''life''" 7] s by auto
qed

end
