(* ===== verification/Topological_Sort.thy ===== *)
theory Topological_Sort
  imports C_Stdio "HOL-Library.Word"
begin

text \<open>
  \<open>C-Labs/Topological_sort\<close>: a graph as a bit matrix (\<open>Graph.c\<close>), depth first search with three colours and the program
  that prints a topological order (\<open>main.c\<close>).  The recursion of \<open>TopSortImpl\<close> is bounded by fuel, \<open>None\<close> meaning that it ran
  out; \<open>vertCount + 1\<close> is proved to be enough, since each nested call colours a white vertex.  The result is a topological
  order of all vertices, or the graph has a cycle.
\<close>

unbundle bit_operations_syntax

section \<open>Definitions\<close>

subsection \<open>Graph.c\<close>

record Graph =
  vertCount :: int
  edges :: "32 word list list"

definition bitsPerEntry :: int where
  "bitsPerEntry = 32"

definition CreateGraph :: "int \<Rightarrow> Graph res" where
  "CreateGraph vertexCount =
     assertR (0 < vertexCount)
     (bindR (ckd (vertexCount + bitsPerEntry)) (\<lambda>n.
      let stringLen = c_div (n - 1) bitsPerEntry in
      Inr \<lparr>vertCount = vertexCount, edges = replicate (nat vertexCount) (replicate (nat stringLen) 0)\<rparr>))"

definition GetVertexCount :: "Graph \<Rightarrow> int" where
  "GetVertexCount g = vertCount g"

definition AddEdge :: "Graph \<Rightarrow> int \<Rightarrow> int \<Rightarrow> Graph res" where
  "AddEdge g u v =
     assertR (0 \<le> u \<and> u < vertCount g)
     (assertR (0 \<le> v \<and> v < vertCount g)
     (bindR (arr_geti (edges g) u) (\<lambda>row.
      bindR (arr_geti row (c_div v bitsPerEntry)) (\<lambda>entry.
      bindR (arr_seti row (c_div v bitsPerEntry) (entry OR push_bit (nat (c_mod v bitsPerEntry)) 1)) (\<lambda>row'.
      bindR (arr_seti (edges g) u row') (\<lambda>es. Inr (g\<lparr>edges := es\<rparr>)))))))"

definition HasEdge :: "Graph \<Rightarrow> int \<Rightarrow> int \<Rightarrow> bool res" where
  "HasEdge g u v =
     assertR (0 \<le> u \<and> u < vertCount g)
     (assertR (0 \<le> v \<and> v < vertCount g)
     (bindR (arr_geti (edges g) u) (\<lambda>row.
      bindR (arr_geti row (c_div v bitsPerEntry)) (\<lambda>entry.
      Inr (entry AND push_bit (nat (c_mod v bitsPerEntry)) 1 \<noteq> 0)))))"

record EdgeIterator =
  nodeIdx :: int
  curChildIdx :: int

definition ConstructEdgeIterator :: "int \<Rightarrow> EdgeIterator" where
  "ConstructEdgeIterator u = \<lparr>nodeIdx = u, curChildIdx = -1\<rparr>"

function find_edge :: "Graph \<Rightarrow> EdgeIterator \<Rightarrow> int \<Rightarrow> (int \<times> EdgeIterator) res" where
  "find_edge g it i =
     (if i < vertCount g then
        bindR (HasEdge g (nodeIdx it) i) (\<lambda>has.
        if has then Inr (i, it\<lparr>curChildIdx := i\<rparr>) else find_edge g it (i + 1))
      else Inr (-1, it\<lparr>curChildIdx := -1\<rparr>))"
  by pat_completeness auto
termination
  by (relation "measure (\<lambda>(g, it, i). nat (vertCount g - i))") auto

declare find_edge.simps [simp del]

definition NextEdge :: "Graph \<Rightarrow> EdgeIterator \<Rightarrow> (int \<times> EdgeIterator) res" where
  "NextEdge g it = find_edge g it (curChildIdx it + 1)"

subsection \<open>main.c\<close>

definition ExitWithMessage :: "string \<Rightarrow> 'a res" where
  "ExitWithMessage msg = Inl (Exit 0 (msg @ ''\<newline>''))"

definition ValidateVerticesNumber :: "int \<Rightarrow> unit res" where
  "ValidateVerticesNumber vertN = (if vertN < 0 \<or> 2000 < vertN then ExitWithMessage ''bad number of vertices'' else Inr ())"

definition ValidateEdgesNumber :: "int \<Rightarrow> int \<Rightarrow> unit res" where
  "ValidateEdgesNumber vertN edgesN =
     bindR (ckd (vertN * (vertN - 1))) (\<lambda>p.
     if edgesN < 0 \<or> c_div p 2 < edgesN then ExitWithMessage ''bad number of edges'' else Inr ())"

definition ValidateVertexIndex :: "int \<Rightarrow> int \<Rightarrow> unit res" where
  "ValidateVertexIndex vertN idx = (if idx < 1 \<or> vertN < idx then ExitWithMessage ''bad vertex'' else Inr ())"

datatype Color = WHITE | GRAY | BLACK

record TopSortData =
  sortedResult :: "int list"
  color :: "Color list"
  count_left :: int

lemma find_edge_next:
  "find_edge g it i = Inr (v, it') \<Longrightarrow> 0 \<le> v \<Longrightarrow> i \<le> v \<and> v < vertCount g \<and> it' = it\<lparr>curChildIdx := v\<rparr>"
proof (induction g it i rule: find_edge.induct)
  case (1 g it i)
  show ?case
  proof (cases "i < vertCount g")
    case True
    then obtain has where h: "HasEdge g (nodeIdx it) i = Inr has" using "1.prems"(1)
      by (subst (asm) find_edge.simps) auto
    show ?thesis
    proof (cases has)
      case True
      then show ?thesis using "1.prems" h \<open>i < vertCount g\<close> by (subst (asm) find_edge.simps) auto
    next
      case False
      then have "find_edge g it (i + 1) = Inr (v, it')" using "1.prems"(1) h \<open>i < vertCount g\<close>
        by (subst (asm) find_edge.simps) auto
      then show ?thesis using "1.IH" [OF \<open>i < vertCount g\<close> h False] "1.prems"(2) by auto
    qed
  next
    case False
    then show ?thesis using "1.prems" by (subst (asm) find_edge.simps) auto
  qed
qed

text \<open>The loop over the successors, \<open>visit\<close> being the recursive call.\<close>

function visit_edges :: "(int \<Rightarrow> TopSortData \<Rightarrow> (bool \<times> TopSortData) run) \<Rightarrow> Graph \<Rightarrow> EdgeIterator \<Rightarrow> TopSortData \<Rightarrow>
    (bool \<times> TopSortData) run" where
  "visit_edges visit g it d =
     bindO (Some (NextEdge g it)) (\<lambda>(v, it').
     if v < 0 then Some (Inr (True, d))
     else bindO (visit v d) (\<lambda>(success, d').
          if success then visit_edges visit g it' d' else Some (Inr (False, d'))))"
  by pat_completeness auto
termination
  by (relation "measure (\<lambda>(visit, g, it, d). nat (vertCount g - curChildIdx it))") (auto simp: NextEdge_def dest!: find_edge_next)

declare visit_edges.simps [simp del]

primrec TopSortImpl :: "nat \<Rightarrow> Graph \<Rightarrow> int \<Rightarrow> TopSortData \<Rightarrow> (bool \<times> TopSortData) run" where
  "TopSortImpl 0 g u d = None"
| "TopSortImpl (Suc fuel) g u d =
     bindO (Some (arr_geti (color d) u)) (\<lambda>c.
     if c = GRAY then Some (Inr (False, d))
     else if c = BLACK then Some (Inr (True, d))
     else bindO (Some (arr_seti (color d) u GRAY)) (\<lambda>col.
          bindO (visit_edges (TopSortImpl fuel g) g (ConstructEdgeIterator u) (d\<lparr>color := col\<rparr>)) (\<lambda>(success, d1).
          if \<not> success then Some (Inr (False, d1))
          else bindO (Some (arr_seti (sortedResult d1) (count_left d1) u)) (\<lambda>res.
               bindO (Some (arr_seti (color d1) u BLACK)) (\<lambda>col1.
               Some (Inr (True, d1\<lparr>sortedResult := res, count_left := count_left d1 - 1, color := col1\<rparr>)))))))"

fun top_sort_loop :: "nat \<Rightarrow> Graph \<Rightarrow> int list \<Rightarrow> TopSortData \<Rightarrow> (bool \<times> TopSortData) run" where
  "top_sort_loop fuel g [] d = Some (Inr (True, d))"
| "top_sort_loop fuel g (u # us) d =
     bindO (Some (arr_geti (color d) u)) (\<lambda>c.
     if c = WHITE then
       bindO (TopSortImpl fuel g u d) (\<lambda>(success, d').
       if \<not> success then Some (Inr (False, d')) else top_sort_loop fuel g us d')
     else top_sort_loop fuel g us d)"

text \<open>\<open>result\<close> is the array the caller provides, with whatever it holds.\<close>

definition TopSort :: "nat \<Rightarrow> Graph \<Rightarrow> int list \<Rightarrow> (bool \<times> int list) run" where
  "TopSort fuel g result =
     bindO (top_sort_loop fuel g [0..GetVertexCount g - 1]
       \<lparr>sortedResult = result, color = replicate (nat (GetVertexCount g)) WHITE, count_left = GetVertexCount g - 1\<rparr>)
     (\<lambda>(success, d). Some (Inr (success, sortedResult d)))"

text \<open>The loop that reads the edges.\<close>

fun read_edges :: "nat \<Rightarrow> int \<Rightarrow> Graph \<Rightarrow> string \<Rightarrow> (Graph \<times> string) res" where
  "read_edges 0 vertN g s = Inr (g, s)"
| "read_edges (Suc k) vertN g s =
     (case scanf_i s of
        Item u s1 \<Rightarrow>
          (case scanf_i s1 of
             Item v s2 \<Rightarrow>
               bindR (ValidateVertexIndex vertN u) (\<lambda>_.
               bindR (ValidateVertexIndex vertN v) (\<lambda>_.
               bindR (AddEdge g (u - 1) (v - 1)) (\<lambda>g'. read_edges k vertN g' s2)))
           | _ \<Rightarrow> ExitWithMessage ''bad number of lines'')
      | _ \<Rightarrow> ExitWithMessage ''bad number of lines'')"

text \<open>\<open>junk\<close> is what the memory of the result holds at first.\<close>

definition main :: "nat \<Rightarrow> (nat \<Rightarrow> int) \<Rightarrow> string \<Rightarrow> string run" where
  "main fuel junk stdin =
     (case scanf_i stdin of
        Item vertN s1 \<Rightarrow>
          (case scanf_i s1 of
             Item edgesN s2 \<Rightarrow>
               bindO (Some (ValidateVerticesNumber vertN)) (\<lambda>_.
               bindO (Some (ValidateEdgesNumber vertN edgesN)) (\<lambda>_.
               bindO (Some (CreateGraph vertN)) (\<lambda>g0.
               bindO (Some (read_edges (nat edgesN) vertN g0 s2)) (\<lambda>(g, _).
               bindO (TopSort fuel g (map junk [0..<nat vertN])) (\<lambda>(success, sortResult).
               Some (Inr (if success then show_ints (map (\<lambda>v. v + 1) sortResult) else ''impossible to sort\<newline>'')))))))
           | _ \<Rightarrow> Some (ExitWithMessage ''bad number of lines''))
      | _ \<Rightarrow> Some (ExitWithMessage ''bad number of lines''))"

section \<open>The bit matrix\<close>

definition graph_ok :: "Graph \<Rightarrow> bool" where
  "graph_ok g \<longleftrightarrow> 0 < vertCount g \<and> length (edges g) = nat (vertCount g) \<and>
     (\<forall>row \<in> set (edges g). length row = nat ((vertCount g + 31) div 32))"

definition vertex :: "Graph \<Rightarrow> int \<Rightarrow> bool" where
  "vertex g u \<longleftrightarrow> 0 \<le> u \<and> u < vertCount g"

definition edge :: "Graph \<Rightarrow> int \<Rightarrow> int \<Rightarrow> bool" where
  "edge g u v \<longleftrightarrow> vertex g u \<and> vertex g v \<and> bit (edges g ! nat u ! nat (v div 32)) (nat (v mod 32))"

lemma row_length: "graph_ok g \<Longrightarrow> vertex g u \<Longrightarrow> length (edges g ! nat u) = nat ((vertCount g + 31) div 32)"
  by (simp add: graph_ok_def vertex_def)

lemma entry_index:
  assumes "graph_ok g" and "vertex g v"
  shows "0 \<le> v div 32" and "nat (v div 32) < nat ((vertCount g + 31) div 32)" and "nat (v mod 32) < 32"
proof -
  have v: "0 \<le> v" "v < vertCount g" using assms(2) by (auto simp: vertex_def)
  then have "v div 32 < (vertCount g + 31) div 32" by linarith
  then show "nat (v div 32) < nat ((vertCount g + 31) div 32)" using v(1) by simp
qed (use assms(2) in \<open>auto simp: vertex_def\<close>)

lemma entry_position:
  assumes "0 \<le> v"
  shows "c_div v bitsPerEntry = v div 32" and "c_mod v bitsPerEntry = v mod 32"
  using assms by (simp_all add: bitsPerEntry_def)

lemma HasEdge_ok:
  assumes "graph_ok g" and "vertex g u" and "vertex g v"
  shows "HasEdge g u v = Inr (edge g u v)"
proof -
  define k m where "k = v div 32" and "m = v mod 32"
  note e = entry_index [OF assms(1,3), folded k_def m_def]
  have v: "0 \<le> u" "u < vertCount g" "0 \<le> v" "v < vertCount g" using assms(2,3) by (auto simp: vertex_def)
  have "nat u < length (edges g)" using assms(1) v by (simp add: graph_ok_def)
  then show ?thesis using assms v e row_length [OF assms(1,2)]
    unfolding HasEdge_def edge_def entry_position [OF v(3)] k_def [symmetric] m_def [symmetric]
    by (simp add: bit_iff_and_push_bit_not_eq_0)
qed

text \<open>The bits of an entry after another has been set.\<close>

lemma bit_set:
  assumes "m < 32"
  shows "bit ((w :: 32 word) OR push_bit m 1) k \<longleftrightarrow> bit w k \<or> k = m"
  using assms by (auto simp: bit_or_iff bit_exp_iff)

lemma AddEdge_ok:
  assumes "graph_ok g" and "vertex g u" and "vertex g v"
  shows "\<exists>g'. AddEdge g u v = Inr g' \<and> graph_ok g' \<and> vertCount g' = vertCount g \<and>
    (\<forall>a b. edge g' a b \<longleftrightarrow> edge g a b \<or> a = u \<and> b = v)"
proof -
  define k m where "k = v div 32" and "m = v mod 32"
  note e = entry_index [OF assms(1,3), folded k_def m_def]
  have v: "0 \<le> u" "u < vertCount g" "0 \<le> v" "v < vertCount g" using assms(2,3) by (auto simp: vertex_def)
  define row where "row = edges g ! nat u"
  define row' where "row' = row[nat k := row ! nat k OR push_bit (nat m) 1]"
  define g' where "g' = g\<lparr>edges := (edges g)[nat u := row']\<rparr>"
  have len: "nat u < length (edges g)" "nat k < length row"
    using assms(1) v e row_length [OF assms(1,2)] by (simp_all add: graph_ok_def row_def)
  have add: "AddEdge g u v = Inr g'"
    unfolding AddEdge_def entry_position [OF v(3)] k_def [symmetric] m_def [symmetric]
    using v e len by (simp add: row_def row'_def g'_def)
  have ok: "graph_ok g'" using assms(1) row_length [OF assms(1,2)] len(1)
    by (auto simp: graph_ok_def g'_def row'_def row_def dest!: set_update_subset_insert [THEN subsetD])
  have "edge g' a b \<longleftrightarrow> edge g a b \<or> a = u \<and> b = v" if ab: "vertex g a" "vertex g b" for a b
  proof -
    define kb mb where "kb = b div 32" and "mb = b mod 32"
    have nb: "0 \<le> a" "0 \<le> kb" "0 \<le> mb" "0 \<le> m" using ab by (auto simp: vertex_def kb_def mb_def m_def)
    have "b = 32 * kb + mb" "v = 32 * k + m" by (simp_all add: kb_def mb_def k_def m_def)
    then have "kb = k \<and> mb = m \<Longrightarrow> b = v" by simp
    then have key: "b = v \<longleftrightarrow> kb = k \<and> mb = m" by (auto simp: kb_def mb_def k_def m_def)
    have "edges g' ! nat a ! nat kb = (if a = u \<and> kb = k then row ! nat k OR push_bit (nat m) 1 else edges g ! nat a ! nat kb)"
      using len nb v e(1) by (auto simp: g'_def row'_def row_def nth_list_update)
    then have "bit (edges g' ! nat a ! nat kb) (nat mb) \<longleftrightarrow> bit (edges g ! nat a ! nat kb) (nat mb) \<or> a = u \<and> kb = k \<and> mb = m"
      using bit_set [OF e(3)] nb by (auto simp: row_def)
    then show ?thesis using ab key unfolding edge_def kb_def [symmetric] mb_def [symmetric]
      by (auto simp: vertex_def g'_def)
  qed
  moreover have "edge g' a b \<longleftrightarrow> edge g a b \<or> a = u \<and> b = v" if "\<not> (vertex g a \<and> vertex g b)" for a b
    using that assms(2,3) by (auto simp: edge_def vertex_def g'_def)
  ultimately show ?thesis using add ok by (auto simp: g'_def)
qed

lemma CreateGraph_ok:
  assumes "0 < n" and "n \<le> 2000"
  shows "\<exists>g. CreateGraph n = Inr g \<and> graph_ok g \<and> vertCount g = n \<and> (\<forall>a b. \<not> edge g a b)"
proof -
  have "in_int32 (n + 32)" "c_div (n + 31) 32 = (n + 31) div 32" using assms by (simp_all add: in_int32_def)
  moreover have "replicate (nat ((31 + n) div 32)) (0 :: 32 word) ! nat (b div 32) = 0" if "0 \<le> b" "b < n" for b
  proof -
    have "b div 32 < (31 + n) div 32" using that by linarith
    then show ?thesis using that by (intro nth_replicate) simp
  qed
  moreover define g where "g = \<lparr>vertCount = n, edges = replicate (nat n) (replicate (nat ((31 + n) div 32)) 0)\<rparr>"
  ultimately have "CreateGraph n = Inr g" "\<not> edge g a b" for a b
    using assms by (auto simp: CreateGraph_def bitsPerEntry_def Let_def edge_def vertex_def)
  moreover have "graph_ok g" using assms(1) by (simp add: graph_ok_def g_def add.commute)
  ultimately show ?thesis by (auto simp: g_def)
qed

lemma find_edge_ok:
  assumes "graph_ok g" and "vertex g (nodeIdx it)" and "0 \<le> i"
  shows "\<exists>v it'. find_edge g it i = Inr (v, it') \<and>
    (v = -1 \<and> (\<forall>w \<ge> i. \<not> edge g (nodeIdx it) w) \<or>
     i \<le> v \<and> edge g (nodeIdx it) v \<and> it' = it\<lparr>curChildIdx := v\<rparr> \<and> (\<forall>w. i \<le> w \<longrightarrow> w < v \<longrightarrow> \<not> edge g (nodeIdx it) w))"
  using assms
proof (induction g it i rule: find_edge.induct)
  case (1 g it i)
  show ?case
  proof (cases "i < vertCount g")
    case True
    then have h: "HasEdge g (nodeIdx it) i = Inr (edge g (nodeIdx it) i)" using HasEdge_ok "1.prems" by (simp add: vertex_def)
    show ?thesis
    proof (cases "edge g (nodeIdx it) i")
      case e: True
      then show ?thesis using True h by (subst find_edge.simps) auto
    next
      case False
      have eq: "find_edge g it i = find_edge g it (i + 1)" using True False h by (subst find_edge.simps) auto
      obtain v it' where v: "find_edge g it (i + 1) = Inr (v, it')"
          "v = -1 \<and> (\<forall>w \<ge> i + 1. \<not> edge g (nodeIdx it) w) \<or>
           i + 1 \<le> v \<and> edge g (nodeIdx it) v \<and> it' = it\<lparr>curChildIdx := v\<rparr> \<and> (\<forall>w. i + 1 \<le> w \<longrightarrow> w < v \<longrightarrow> \<not> edge g (nodeIdx it) w)"
        using "1.IH" [OF True h False] "1.prems" by auto
      have "\<not> edge g (nodeIdx it) w" if "i \<le> w" "\<forall>w \<ge> i + 1. \<not> edge g (nodeIdx it) w" for w
        using that False by (cases "w = i") auto
      moreover have "\<not> edge g (nodeIdx it) w" if "i \<le> w" "w < v" "\<forall>w. i + 1 \<le> w \<longrightarrow> w < v \<longrightarrow> \<not> edge g (nodeIdx it) w" for w
        using that False by (cases "w = i") auto
      ultimately show ?thesis using eq v by auto
    qed
  next
    case False
    then show ?thesis by (subst find_edge.simps) (auto simp: edge_def vertex_def)
  qed
qed

section \<open>The search\<close>

definition arcs :: "Graph \<Rightarrow> (int \<times> int) set" where
  "arcs g = {(u, v). edge g u v}"

definition coloured :: "Color \<Rightarrow> TopSortData \<Rightarrow> int set" where
  "coloured c d = {v. 0 \<le> v \<and> nat v < length (color d) \<and> color d ! nat v = c}"

text \<open>The part of the result that is filled in.\<close>

definition done_part :: "TopSortData \<Rightarrow> int list" where
  "done_part d = drop (nat (count_left d + 1)) (sortedResult d)"

definition data_ok :: "Graph \<Rightarrow> TopSortData \<Rightarrow> bool" where
  "data_ok g d \<longleftrightarrow> length (color d) = nat (vertCount g) \<and> length (sortedResult d) = nat (vertCount g) \<and>
     -1 \<le> count_left d \<and> count_left d < vertCount g \<and> distinct (done_part d) \<and> set (done_part d) = coloured BLACK d \<and>
     (\<forall>i < length (done_part d). \<forall>v. edge g (done_part d ! i) v \<longrightarrow> v \<in> set (drop (Suc i) (done_part d)))"

lemma finite_coloured [simp]: "finite (coloured c d)"
proof (rule finite_subset)
  show "coloured c d \<subseteq> {0..int (length (color d))}" by (auto simp: coloured_def)
qed simp

lemma coloured_bound: "length (color d) = nat (vertCount g) \<Longrightarrow> coloured c d \<subseteq> {0..<vertCount g}"
  unfolding coloured_def by auto

lemma coloured_update:
  assumes "0 \<le> u" and "nat u < length (color d)"
  shows "coloured c (d\<lparr>color := (color d)[nat u := k]\<rparr>) = (if c = k then insert u (coloured c d) else coloured c d - {u})"
  using assms by (auto simp: coloured_def nth_list_update split: if_splits)

lemma coloured_cong: "color d' = color d \<Longrightarrow> coloured c d' = coloured c d"
  by (simp add: coloured_def)

lemma data_ok_color:
  assumes "data_ok g d" and "vertex g u" and "u \<notin> coloured BLACK d" and "k \<noteq> BLACK"
  shows "data_ok g (d\<lparr>color := (color d)[nat u := k]\<rparr>)"
proof -
  have "coloured BLACK (d\<lparr>color := (color d)[nat u := k]\<rparr>) = coloured BLACK d"
    using assms by (subst coloured_update) (auto simp: data_ok_def vertex_def)
  then show ?thesis using assms(1) by (simp add: data_ok_def done_part_def)
qed

text \<open>When all successors of a vertex are finished, it takes the next place from the end.\<close>

lemma finish_vertex:
  assumes "data_ok g d" and "vertex g u" and "u \<notin> coloured BLACK d" and "\<And>w. edge g u w \<Longrightarrow> w \<in> coloured BLACK d"
  shows "0 \<le> count_left d" and "nat (count_left d) < length (sortedResult d)"
    and "data_ok g (d\<lparr>sortedResult := (sortedResult d)[nat (count_left d) := u], count_left := count_left d - 1,
      color := (color d)[nat u := BLACK]\<rparr>)" (is "data_ok g ?d")
proof -
  have d: "length (color d) = nat (vertCount g)" "length (sortedResult d) = nat (vertCount g)" "-1 \<le> count_left d"
    "count_left d < vertCount g" "distinct (done_part d)" "set (done_part d) = coloured BLACK d"
    and later: "\<And>i v. i < length (done_part d) \<Longrightarrow> edge g (done_part d ! i) v \<Longrightarrow> v \<in> set (drop (Suc i) (done_part d))"
    using assms(1) unfolding data_ok_def by blast+
  have u: "0 \<le> u" "u < vertCount g" using assms(2) by (auto simp: vertex_def)
  have "insert u (coloured BLACK d) \<subseteq> {0..<vertCount g}" using coloured_bound [OF d(1)] u by simp
  then have "card (insert u (coloured BLACK d)) \<le> card {0..<vertCount g}" by (intro card_mono) simp_all
  then have "card (coloured BLACK d) < nat (vertCount g)" using assms(3) by simp
  then have "length (done_part d) < nat (vertCount g)"
    using distinct_card [OF d(5)] d(6) by simp
  then show c: "0 \<le> count_left d" using d(2,3) by (simp add: done_part_def)
  show l: "nat (count_left d) < length (sortedResult d)" using c d(2,4) by simp
  define k where "k = nat (count_left d)"
  have k: "nat (count_left d + 1) = Suc k" "k < length (sortedResult d)" using c l by (auto simp: k_def)
  then have "drop k ((sortedResult d)[k := u]) = u # drop (Suc k) (sortedResult d)"
    by (simp add: Cons_nth_drop_Suc [of k "(sortedResult d)[k := u]", symmetric])
  then have "done_part ?d = u # done_part d"
    using k by (simp add: done_part_def k_def)
  moreover have "coloured BLACK ?d = insert u (coloured BLACK d)"
    using coloured_update [of u d BLACK BLACK] coloured_cong [of ?d "d\<lparr>color := (color d)[nat u := BLACK]\<rparr>"] u d(1) by simp
  moreover have "v \<in> set (drop (Suc i) (u # done_part d))"
    if "i < length (u # done_part d)" "edge g ((u # done_part d) ! i) v" for i v
    using that assms(4) [of v] later [of "i - 1" v] d(6) by (cases i) auto
  ultimately show "data_ok g ?d" using d(1-6) c assms(3) unfolding data_ok_def by simp
qed

text \<open>What a call of \<open>TopSortImpl\<close> with enough fuel does when the gray vertices all reach its vertex.\<close>

definition visit_post :: "Graph \<Rightarrow> TopSortData \<Rightarrow> (int \<Rightarrow> bool) \<Rightarrow> (bool \<times> TopSortData) run \<Rightarrow> bool" where
  "visit_post g d fin r \<longleftrightarrow> (\<exists>ok d'. r = Some (Inr (ok, d')) \<and>
     (if ok then data_ok g d' \<and> coloured GRAY d' = coloured GRAY d \<and> coloured WHITE d' \<subseteq> coloured WHITE d \<and>
        coloured BLACK d \<subseteq> coloured BLACK d' \<and> (\<forall>v. fin v \<longrightarrow> v \<in> coloured BLACK d')
      else \<exists>x. (x, x) \<in> (arcs g)\<^sup>+))"

lemma visit_post_Some [simp]: "visit_post g d fin (Some (Inr (ok, d'))) \<longleftrightarrow>
   (if ok then data_ok g d' \<and> coloured GRAY d' = coloured GRAY d \<and> coloured WHITE d' \<subseteq> coloured WHITE d \<and>
        coloured BLACK d \<subseteq> coloured BLACK d' \<and> (\<forall>v. fin v \<longrightarrow> v \<in> coloured BLACK d')
    else \<exists>x. (x, x) \<in> (arcs g)\<^sup>+)"
  by (simp add: visit_post_def)

definition visit_pre :: "Graph \<Rightarrow> nat \<Rightarrow> int \<Rightarrow> TopSortData \<Rightarrow> bool" where
  "visit_pre g fuel u d \<longleftrightarrow> data_ok g d \<and> vertex g u \<and> card (coloured WHITE d) < fuel \<and>
     (\<forall>x \<in> coloured GRAY d. (x, u) \<in> (arcs g)\<^sup>+)"

lemma NextEdge_ok:
  assumes "graph_ok g" and "vertex g (nodeIdx it)" and "-1 \<le> curChildIdx it"
  shows "(\<exists>it'. NextEdge g it = Inr (-1, it')) \<and> (\<forall>w > curChildIdx it. \<not> edge g (nodeIdx it) w) \<or>
    (\<exists>v. NextEdge g it = Inr (v, it\<lparr>curChildIdx := v\<rparr>) \<and> curChildIdx it < v \<and> edge g (nodeIdx it) v \<and>
      (\<forall>w. curChildIdx it < w \<longrightarrow> w < v \<longrightarrow> \<not> edge g (nodeIdx it) w))"
  using find_edge_ok [OF assms(1,2), of "curChildIdx it + 1"] assms(3) unfolding NextEdge_def
  by (simp only: add1_zle_eq) auto

lemma visit_post_trans:
  assumes "visit_post g d fin r" and "data_ok g d" and "coloured GRAY d = coloured GRAY d0"
    and "coloured WHITE d \<subseteq> coloured WHITE d0" and "coloured BLACK d0 \<subseteq> coloured BLACK d"
  shows "visit_post g d0 fin r"
proof -
  obtain ok d' where r: "r = Some (Inr (ok, d'))" using assms(1) unfolding visit_post_def by blast
  show ?thesis using assms unfolding r visit_post_Some by (cases ok) (simp_all, blast)
qed

lemma visit_post_mono:
  assumes "visit_post g d fin r" and "\<And>v. fin' v \<Longrightarrow> fin v \<or> v \<in> coloured BLACK d"
  shows "visit_post g d fin' r"
proof -
  obtain ok d' where r: "r = Some (Inr (ok, d'))" using assms(1) unfolding visit_post_def by blast
  show ?thesis using assms unfolding r visit_post_Some by (cases ok) (simp_all, blast)
qed

lemma visit_edges_ok:
  assumes g: "graph_ok g" and visit: "\<And>v d. visit_pre g fuel v d \<Longrightarrow> visit_post g d (\<lambda>w. w = v) (visit v d)"
    and u: "vertex g u"
  shows "nodeIdx it = u \<Longrightarrow> -1 \<le> curChildIdx it \<Longrightarrow> data_ok g d \<Longrightarrow> card (coloured WHITE d) < fuel \<Longrightarrow>
    (\<And>x. x \<in> coloured GRAY d \<Longrightarrow> (x, u) \<in> (arcs g)\<^sup>*) \<Longrightarrow>
    (\<And>w. w \<le> curChildIdx it \<Longrightarrow> edge g u w \<Longrightarrow> w \<in> coloured BLACK d) \<Longrightarrow>
    visit_post g d (edge g u) (visit_edges visit g it d)"
proof (induction "nat (vertCount g - curChildIdx it)" arbitrary: it d rule: less_induct)
  case less
  note prems = less.prems
  have next_cases: "(\<exists>it'. NextEdge g it = Inr (-1, it')) \<and> (\<forall>w > curChildIdx it. \<not> edge g u w) \<or>
    (\<exists>v. NextEdge g it = Inr (v, it\<lparr>curChildIdx := v\<rparr>) \<and> curChildIdx it < v \<and> edge g u v \<and>
      (\<forall>w. curChildIdx it < w \<longrightarrow> w < v \<longrightarrow> \<not> edge g u w))"
    using NextEdge_ok [OF g, of it] u prems(1,2) by simp
  then consider (last) it' where "NextEdge g it = Inr (-1, it')" "\<And>w. curChildIdx it < w \<Longrightarrow> \<not> edge g u w"
    | (step) v where "NextEdge g it = Inr (v, it\<lparr>curChildIdx := v\<rparr>)" "curChildIdx it < v" "edge g u v"
      "\<And>w. curChildIdx it < w \<Longrightarrow> w < v \<Longrightarrow> \<not> edge g u w"
    by blast
  then show ?case
  proof cases
    case last
    then have "w \<in> coloured BLACK d" if "edge g u w" for w using that prems(6) [of w] by fastforce
    then show ?thesis using last(1) prems(3) by (subst visit_edges.simps) simp
  next
    case step
    have v: "vertex g v" "0 \<le> v" "v < vertCount g" using step(3) by (auto simp: edge_def vertex_def)
    have "(x, v) \<in> (arcs g)\<^sup>+" if "x \<in> coloured GRAY d" for x
      using prems(5) [OF that] step(3) by (simp add: arcs_def rtrancl_into_trancl1)
    then have "visit_pre g fuel v d" using prems(3,4) v(1) by (simp add: visit_pre_def)
    then have post: "visit_post g d (\<lambda>w. w = v) (visit v d)" by (rule visit)
    then obtain ok d' where r: "visit v d = Some (Inr (ok, d'))" unfolding visit_post_def by blast
    show ?thesis
    proof (cases ok)
      case False
      then show ?thesis using post r step(1) v(2) by (subst visit_edges.simps) simp
    next
      case True
      then have d': "data_ok g d'" "coloured GRAY d' = coloured GRAY d" "coloured WHITE d' \<subseteq> coloured WHITE d"
        "coloured BLACK d \<subseteq> coloured BLACK d'" "v \<in> coloured BLACK d'"
        using post unfolding r visit_post_Some by simp_all
      have "visit_post g d' (edge g u) (visit_edges visit g (it\<lparr>curChildIdx := v\<rparr>) d')"
      proof (rule less.hyps)
        show "nat (vertCount g - curChildIdx (it\<lparr>curChildIdx := v\<rparr>)) < nat (vertCount g - curChildIdx it)"
          using step(2) v(3) by simp
        show "card (coloured WHITE d') < fuel" using card_mono [OF finite_coloured d'(3)] prems(4) by simp
        show "w \<in> coloured BLACK d'" if "w \<le> curChildIdx (it\<lparr>curChildIdx := v\<rparr>)" "edge g u w" for w
        proof (cases "w = v")
          case False
          then have "w \<le> curChildIdx it" using that step(4) [of w] by fastforce
          then show ?thesis using prems(6) [of w] that(2) d'(4) by blast
        qed (simp add: d'(5))
      qed (use prems(1,5) d'(1,2) v(2) in simp_all)
      then have "visit_post g d (edge g u) (visit_edges visit g (it\<lparr>curChildIdx := v\<rparr>) d')"
        by (rule visit_post_trans [OF _ d'(1-4)])
      then show ?thesis using True r step(1) v(2) by (subst visit_edges.simps) simp
    qed
  qed
qed

lemma TopSortImpl_ok:
  assumes "graph_ok g" and "visit_pre g fuel u d"
  shows "visit_post g d (\<lambda>v. v = u) (TopSortImpl fuel g u d)"
  using assms(2)
proof (induction fuel arbitrary: u d)
  case 0
  then show ?case by (simp add: visit_pre_def)
next
  case (Suc fuel)
  have pre: "data_ok g d" "vertex g u" "card (coloured WHITE d) < Suc fuel" "\<And>x. x \<in> coloured GRAY d \<Longrightarrow> (x, u) \<in> (arcs g)\<^sup>+"
    using Suc.prems by (auto simp: visit_pre_def)
  have u: "0 \<le> u" "nat u < length (color d)" using pre(1,2) by (auto simp: data_ok_def vertex_def)
  have cu: "u \<in> coloured c d \<longleftrightarrow> color d ! nat u = c" for c using u by (simp add: coloured_def)
  show ?case
  proof (cases "color d ! nat u")
    case GRAY
    then have "(u, u) \<in> (arcs g)\<^sup>+" using pre(4) cu by blast
    then show ?thesis using u GRAY by auto
  next
    case BLACK
    then show ?thesis using u cu pre(1) by simp
  next
    case WHITE
    define d0 where "d0 = d\<lparr>color := (color d)[nat u := GRAY]\<rparr>"
    have col: "coloured GRAY d0 = insert u (coloured GRAY d)" "coloured WHITE d0 = coloured WHITE d - {u}"
      "coloured BLACK d0 = coloured BLACK d"
      using coloured_update [OF u] WHITE cu by (auto simp: d0_def)
    have ok0: "data_ok g d0" using data_ok_color [OF pre(1,2)] WHITE cu by (auto simp: d0_def)
    have "visit_post g d0 (edge g u) (visit_edges (TopSortImpl fuel g) g (ConstructEdgeIterator u) d0)"
    proof (rule visit_edges_ok [OF assms(1) Suc.IH pre(2)])
      have "card (coloured WHITE d) = Suc (card (coloured WHITE d0))"
        unfolding col(2) using WHITE cu by (intro card.remove) simp_all
      then show "card (coloured WHITE d0) < fuel" using pre(3) by simp
      show "(x, u) \<in> (arcs g)\<^sup>*" if "x \<in> coloured GRAY d0" for x
        using that pre(4) [of x] col(1) by (auto intro: trancl_into_rtrancl)
      show "w \<in> coloured BLACK d0" if "w \<le> curChildIdx (ConstructEdgeIterator u)" "edge g u w" for w
        using that by (simp add: ConstructEdgeIterator_def edge_def vertex_def)
    qed (use ok0 in \<open>simp_all add: ConstructEdgeIterator_def\<close>)
    then obtain ok d1 where r: "visit_edges (TopSortImpl fuel g) g (ConstructEdgeIterator u) d0 = Some (Inr (ok, d1))"
        and p: "if ok then data_ok g d1 \<and> coloured GRAY d1 = coloured GRAY d0 \<and> coloured WHITE d1 \<subseteq> coloured WHITE d0 \<and>
          coloured BLACK d0 \<subseteq> coloured BLACK d1 \<and> (\<forall>v. edge g u v \<longrightarrow> v \<in> coloured BLACK d1)
          else \<exists>x. (x, x) \<in> (arcs g)\<^sup>+"
      unfolding visit_post_def by blast
    show ?thesis
    proof (cases ok)
      case False
      then show ?thesis using p r u WHITE by (simp add: d0_def)
    next
      case True
      then have d1: "data_ok g d1" "coloured GRAY d1 = coloured GRAY d0" "coloured WHITE d1 \<subseteq> coloured WHITE d0"
        "coloured BLACK d0 \<subseteq> coloured BLACK d1" "\<And>v. edge g u v \<Longrightarrow> v \<in> coloured BLACK d1" using p by auto
      have u1: "u \<in> coloured GRAY d1" "nat u < length (color d1)" using d1(1,2) col(1) pre(2) by (auto simp: data_ok_def vertex_def)
      then have nb: "u \<notin> coloured BLACK d1" by (auto simp: coloured_def)
      note fv = finish_vertex [OF d1(1) pre(2) nb d1(5)]
      define d2 where "d2 = d1\<lparr>sortedResult := (sortedResult d1)[nat (count_left d1) := u], count_left := count_left d1 - 1,
        color := (color d1)[nat u := BLACK]\<rparr>"
      have c2: "coloured c d2 = (if c = BLACK then insert u (coloured c d1) else coloured c d1 - {u})" for c
        using coloured_update [OF u(1) u1(2), of c BLACK] coloured_cong [of d2 "d1\<lparr>color := (color d1)[nat u := BLACK]\<rparr>" c]
        by (simp add: d2_def)
      have "TopSortImpl (Suc fuel) g u d = Some (Inr (True, d2))"
        using u u1(2) WHITE r True fv(1,2) by (simp add: d0_def d2_def)
      moreover have "coloured GRAY d2 = coloured GRAY d" "coloured WHITE d2 \<subseteq> coloured WHITE d" "coloured BLACK d \<subseteq> coloured BLACK d2"
        "u \<in> coloured BLACK d2"
        using c2 d1(2-4) col WHITE cu by auto
      ultimately show ?thesis using fv(3) by (simp add: d2_def)
    qed
  qed
qed

text \<open>A topological order lists every vertex once, with every edge from an earlier to a later place.\<close>

definition top_order :: "Graph \<Rightarrow> int list \<Rightarrow> bool" where
  "top_order g xs \<longleftrightarrow> distinct xs \<and> set xs = {0..<vertCount g} \<and>
     (\<forall>i < length xs. \<forall>j < length xs. edge g (xs ! i) (xs ! j) \<longrightarrow> i < j)"

definition cyclic :: "Graph \<Rightarrow> bool" where
  "cyclic g \<longleftrightarrow> (\<exists>x. (x, x) \<in> (arcs g)\<^sup>+)"

lemma top_order_path:
  assumes "top_order g xs" and "(x, y) \<in> (arcs g)\<^sup>+"
  shows "\<exists>i j. i < j \<and> j < length xs \<and> xs ! i = x \<and> xs ! j = y"
  using assms(2)
proof (induction rule: trancl_induct)
  case (base y)
  then have e: "edge g x y" "x \<in> set xs" "y \<in> set xs"
    using assms(1) by (auto simp: arcs_def edge_def vertex_def top_order_def)
  then obtain i j where "i < length xs" "xs ! i = x" "j < length xs" "xs ! j = y" by (auto simp: in_set_conv_nth)
  then show ?case using e(1) assms(1) unfolding top_order_def by blast
next
  case (step y z)
  then obtain i j where ij: "i < j" "j < length xs" "xs ! i = x" "xs ! j = y" by blast
  have e: "edge g y z" "z \<in> set xs" using step.hyps(2) assms(1) by (auto simp: arcs_def edge_def vertex_def top_order_def)
  then obtain k where k: "k < length xs" "xs ! k = z" by (auto simp: in_set_conv_nth)
  then have "j < k" using e(1) ij assms(1) unfolding top_order_def by blast
  then show ?case using ij k less_trans by blast
qed

lemma top_order_acyclic: "top_order g xs \<Longrightarrow> \<not> cyclic g"
proof
  assume o: "top_order g xs" and "cyclic g"
  then obtain x where "(x, x) \<in> (arcs g)\<^sup>+" unfolding cyclic_def by blast
  then obtain i j where "i < j" "j < length xs" "xs ! i = xs ! j" using top_order_path [OF o] by metis
  then show False using o unfolding top_order_def by (auto simp: nth_eq_iff_index_eq)
qed

lemma top_sort_loop_ok:
  assumes g: "graph_ok g"
  shows "data_ok g d \<Longrightarrow> coloured GRAY d = {} \<Longrightarrow> \<forall>u \<in> set us. vertex g u \<Longrightarrow> card (coloured WHITE d) < fuel \<Longrightarrow>
    visit_post g d (\<lambda>u. u \<in> set us) (top_sort_loop fuel g us d)"
proof (induction us arbitrary: d)
  case (Cons u us)
  have u: "vertex g u" using Cons.prems(3) by simp
  have i: "0 \<le> u" "nat u < length (color d)" using u Cons.prems(1) by (auto simp: data_ok_def vertex_def)
  show ?case
  proof (cases "color d ! nat u = WHITE")
    case False
    then have "color d ! nat u = BLACK" using Cons.prems(2) i by (cases "color d ! nat u") (auto simp: coloured_def)
    then have "u \<in> coloured BLACK d" using i by (simp add: coloured_def)
    moreover have "visit_post g d (\<lambda>u. u \<in> set us) (top_sort_loop fuel g us d)"
      using Cons.IH [OF Cons.prems(1,2)] Cons.prems(3,4) by simp
    ultimately have "visit_post g d (\<lambda>v. v \<in> set (u # us)) (top_sort_loop fuel g us d)"
      by (elim visit_post_mono) auto
    then show ?thesis using i False by simp
  next
    case True
    have "visit_pre g fuel u d" using Cons.prems u by (simp add: visit_pre_def)
    from TopSortImpl_ok [OF g this] obtain ok d' where r: "TopSortImpl fuel g u d = Some (Inr (ok, d'))"
      and post: "visit_post g d (\<lambda>v. v = u) (Some (Inr (ok, d')))" unfolding visit_post_def by blast
    show ?thesis
    proof (cases ok)
      case False
      then show ?thesis using r post True i by simp
    next
      case ok: True
      then have d': "data_ok g d'" "coloured GRAY d' = coloured GRAY d" "coloured WHITE d' \<subseteq> coloured WHITE d"
        "coloured BLACK d \<subseteq> coloured BLACK d'" "u \<in> coloured BLACK d'" using post by simp_all
      have "card (coloured WHITE d') < fuel" using card_mono [OF finite_coloured d'(3)] Cons.prems(4) by simp
      then have "visit_post g d' (\<lambda>u. u \<in> set us) (top_sort_loop fuel g us d')"
        using Cons.IH [OF d'(1)] d'(2) Cons.prems(2,3) by simp
      then have "visit_post g d' (\<lambda>v. v \<in> set (u # us)) (top_sort_loop fuel g us d')"
        by (rule visit_post_mono) (use d'(5) in auto)
      then have "visit_post g d (\<lambda>v. v \<in> set (u # us)) (top_sort_loop fuel g us d')"
        by (rule visit_post_trans [OF _ d'(1-4)])
      then show ?thesis using r ok True i by simp
    qed
  qed
qed simp

lemma done_top_order:
  assumes "data_ok g d" and "{0..<vertCount g} \<subseteq> coloured BLACK d"
  shows "top_order g (sortedResult d)"
proof -
  have d: "length (color d) = nat (vertCount g)" "length (sortedResult d) = nat (vertCount g)" "-1 \<le> count_left d"
    "distinct (done_part d)" "set (done_part d) = coloured BLACK d"
    and later: "\<And>i v. i < length (done_part d) \<Longrightarrow> edge g (done_part d ! i) v \<Longrightarrow> v \<in> set (drop (Suc i) (done_part d))"
    using assms(1) unfolding data_ok_def by blast+
  have all: "set (done_part d) = {0..<vertCount g}" using coloured_bound [OF d(1), of BLACK] assms(2) d(5) by simp
  then have "length (done_part d) = nat (vertCount g)" using distinct_card [OF d(4)] by simp
  then have "drop (nat (count_left d + 1)) (sortedResult d) = sortedResult d"
    using d(2) by (cases "sortedResult d") (auto simp: done_part_def)
  then have eq: "done_part d = sortedResult d" by (simp add: done_part_def)
  have "i < j" if ij: "i < length (sortedResult d)" "j < length (sortedResult d)" "edge g (sortedResult d ! i) (sortedResult d ! j)" for i j
  proof -
    have "sortedResult d ! j \<in> set (drop (Suc i) (sortedResult d))" using later [of i] ij unfolding eq by blast
    then obtain k where "Suc i + k < length (sortedResult d)" "sortedResult d ! (Suc i + k) = sortedResult d ! j"
      by (auto simp: in_set_conv_nth less_diff_conv add.commute)
    then have "Suc i + k = j" using d(4) ij(2) unfolding eq by (simp add: nth_eq_iff_index_eq)
    then show ?thesis by simp
  qed
  then show ?thesis using d(4) all unfolding eq top_order_def by blast
qed

lemma TopSort_ok:
  assumes "graph_ok g" and "length result = nat (vertCount g)" and "nat (vertCount g) < fuel"
  shows "\<exists>success xs. TopSort fuel g result = Some (Inr (success, xs)) \<and> (if success then top_order g xs else cyclic g)"
proof -
  define d where "d = \<lparr>sortedResult = result, color = replicate (nat (vertCount g)) WHITE, count_left = vertCount g - 1\<rparr>"
  have n: "0 < vertCount g" using assms(1) by (simp add: graph_ok_def)
  have none: "coloured c d = {}" if "c \<noteq> WHITE" for c using that by (auto simp: coloured_def d_def)
  have "done_part d = []" using assms(2) by (simp add: done_part_def d_def)
  then have ok: "data_ok g d" using n assms(2) none [of BLACK] by (simp add: data_ok_def d_def)
  have "card (coloured WHITE d) \<le> card {0..<vertCount g}"
    using coloured_bound [of d g WHITE] by (intro card_mono) (simp_all add: d_def)
  then have "visit_post g d (\<lambda>u. u \<in> set [0..vertCount g - 1]) (top_sort_loop fuel g [0..vertCount g - 1] d)"
    using assms(3) by (intro top_sort_loop_ok [OF assms(1) ok]) (simp_all add: none vertex_def)
  then obtain success d' where r: "top_sort_loop fuel g [0..vertCount g - 1] d = Some (Inr (success, d'))"
    and post: "visit_post g d (\<lambda>u. u \<in> set [0..vertCount g - 1]) (Some (Inr (success, d')))"
    unfolding visit_post_def by blast
  have "if success then top_order g (sortedResult d') else cyclic g"
  proof (cases success)
    case True
    then have "data_ok g d'" "{0..<vertCount g} \<subseteq> coloured BLACK d'" using post by (simp_all add: subset_iff)
    then show ?thesis using True done_top_order by simp
  qed (use post in \<open>simp add: cyclic_def\<close>)
  then show ?thesis using r by (simp add: TopSort_def GetVertexCount_def d_def)
qed

section \<open>The program\<close>

definition edge_numbers :: "(int \<times> int) list \<Rightarrow> int list" where
  "edge_numbers es = concat (map (\<lambda>(u, v). [u + 1, v + 1]) es)"

lemma read_edges_ok:
  assumes "n \<le> 2000"
  shows "graph_ok g \<Longrightarrow> vertCount g = n \<Longrightarrow> \<forall>(u, v) \<in> set es. 0 \<le> u \<and> u < n \<and> 0 \<le> v \<and> v < n \<Longrightarrow>
    \<exists>g' r. read_edges (length es) n g (CHR '' '' # show_ints (edge_numbers es)) = Inr (g', r) \<and> graph_ok g' \<and> vertCount g' = n \<and>
      arcs g' = arcs g \<union> set es"
proof (induction es arbitrary: g)
  case Nil
  then show ?case by (simp add: edge_numbers_def)
next
  case (Cons e es)
  obtain u v where e: "e = (u, v)" by (cases e)
  have uv: "0 \<le> u" "u < n" "0 \<le> v" "v < n" using Cons.prems(3) e by auto
  obtain g' where g': "AddEdge g u v = Inr g'" "graph_ok g'" "vertCount g' = vertCount g"
      "\<And>a b. edge g' a b \<longleftrightarrow> edge g a b \<or> a = u \<and> b = v"
    using AddEdge_ok [OF Cons.prems(1), of u v] uv Cons.prems(2) by (auto simp: vertex_def)
  have arcs: "arcs g' = insert (u, v) (arcs g)" using g'(4) by (auto simp: arcs_def)
  have "CHR '' '' # show_ints (edge_numbers (e # es)) =
      CHR '' '' # show_int (u + 1) @ CHR '' '' # show_int (v + 1) @ CHR '' '' # show_ints (edge_numbers es)"
    by (simp add: edge_numbers_def show_ints_def e)
  moreover have "in_int32 (u + 1)" "in_int32 (v + 1)" using uv assms by (simp_all add: in_int32_def)
  moreover have "ValidateVertexIndex n (u + 1) = Inr ()" "ValidateVertexIndex n (v + 1) = Inr ()"
    using uv by (simp_all add: ValidateVertexIndex_def)
  moreover obtain g2 r where "read_edges (length es) n g' (CHR '' '' # show_ints (edge_numbers es)) = Inr (g2, r)"
      "graph_ok g2" "vertCount g2 = n" "arcs g2 = arcs g' \<union> set es"
    using Cons.IH [OF g'(2)] g'(3) Cons.prems(2,3) by auto
  ultimately show ?case using g'(1) arcs e by simp
qed

lemma cyclic_iff: "cyclic g \<longleftrightarrow> \<not> acyclic (arcs g)"
  by (simp add: cyclic_def acyclic_def)

lemma main_run:
  assumes "0 < n" and "n \<le> 2000" and "\<forall>(u, v) \<in> set es. 0 \<le> u \<and> u < n \<and> 0 \<le> v \<and> v < n"
    and "2 * int (length es) \<le> n * (n - 1)" and "nat n < fuel"
  shows "\<exists>g success xs. vertCount g = n \<and> arcs g = set es \<and> (if success then top_order g xs else cyclic g) \<and>
    main fuel junk (show_ints (n # int (length es) # edge_numbers es)) =
      Some (Inr (if success then show_ints (map (\<lambda>v. v + 1) xs) else ''impossible to sort\<newline>''))"
proof -
  define m where "m = int (length es)"
  define p where "p = n * (n - 1)"
  have "p \<le> 2000 * 1999" unfolding p_def using assms(1,2) by (intro mult_mono) simp_all
  then have p: "0 \<le> p" "p \<le> 3998000" "2 * m \<le> p" using assms(1,4) by (simp_all add: p_def m_def)
  have num: "in_int32 n" "in_int32 m" "in_int32 p" using assms(1,2) p by (simp_all add: in_int32_def m_def)
  have "show_ints (n # m # edge_numbers es) = show_int n @ CHR '' '' # show_int m @ CHR '' '' # show_ints (edge_numbers es)"
    by (simp add: show_ints_def)
  moreover have "ValidateVerticesNumber n = Inr ()" using assms(1,2) by (simp add: ValidateVerticesNumber_def)
  moreover have "ValidateEdgesNumber n m = Inr ()"
  proof -
    have "\<not> p div 2 < m" "0 \<le> m" using p(3) by (linarith, simp add: m_def)
    then show ?thesis using p(1) num(3) by (simp add: ValidateEdgesNumber_def p_def [symmetric])
  qed
  moreover obtain g0 where g0: "CreateGraph n = Inr g0" "graph_ok g0" "vertCount g0 = n" "\<And>a b. \<not> edge g0 a b"
    using CreateGraph_ok [OF assms(1,2)] by blast
  moreover obtain g r where g: "read_edges (length es) n g0 (CHR '' '' # show_ints (edge_numbers es)) = Inr (g, r)"
      "graph_ok g" "vertCount g = n" "arcs g = set es"
    using read_edges_ok [OF assms(2) g0(2,3) assms(3)] g0(4) by (auto simp: arcs_def)
  moreover obtain success xs where "TopSort fuel g (map junk [0..<nat n]) = Some (Inr (success, xs))"
      "if success then top_order g xs else cyclic g"
    using TopSort_ok [OF g(2), of "map junk [0..<nat n]" fuel] g(3) assms(5) by auto
  ultimately show ?thesis using num(1,2) by (intro exI [of _ g] exI [of _ success] exI [of _ xs]) (simp add: main_def m_def)
qed

text \<open>C36: on every graph that the program can build, the depth-first search of \<open>TopSort\<close> ends without a fault: a recursion
  depth of one more than the number of vertices is enough, whatever the result array held, and more depth changes nothing in that.\<close>

theorem TopSort_terminates:
  assumes "graph_ok g" and "length result = nat (vertCount g)" and "nat (vertCount g) < fuel"
  shows "\<exists>success xs. TopSort fuel g result = Some (Inr (success, xs)) \<and> (success \<longleftrightarrow> acyclic (arcs g))"
proof -
  obtain success xs where r: "TopSort fuel g result = Some (Inr (success, xs))" "if success then top_order g xs else cyclic g"
    using TopSort_ok [OF assms] by blast
  then have "success \<longleftrightarrow> acyclic (arcs g)" using top_order_acyclic [of g xs] cyclic_iff [of g] by (cases success) simp_all
  then show ?thesis using r(1) by blast
qed

theorem TopSort_terminates_witness:
  "\<exists>success xs. TopSort 4 \<lparr>vertCount = 3, edges = [[6], [4], [0]]\<rparr> [7, 7, 7] = Some (Inr (success, xs)) \<and>
     (success \<longleftrightarrow> acyclic (arcs \<lparr>vertCount = 3, edges = [[6], [4], [0]]\<rparr>))"
  by (rule TopSort_terminates) (simp_all add: graph_ok_def)

text \<open>C37: given the number of vertices, the number of edges and the edges, the program prints the vertices in an order in which
  each stands once and every edge leads from an earlier to a later one, when the edges have no cycle; otherwise it prints that
  sorting is impossible.  What the result array held before does not matter.\<close>

theorem main_sorts_topologically:
  assumes "0 < n" and "n \<le> 2000" and "\<forall>(u, v) \<in> set es. 0 \<le> u \<and> u < n \<and> 0 \<le> v \<and> v < n"
    and "2 * int (length es) \<le> n * (n - 1)" and "nat n < fuel"
  shows "if acyclic (set es)
    then \<exists>xs. main fuel junk (show_ints (n # int (length es) # edge_numbers es)) = Some (Inr (show_ints (map (\<lambda>v. v + 1) xs))) \<and>
      distinct xs \<and> set xs = {0..<n} \<and> (\<forall>i < length xs. \<forall>j < length xs. (xs ! i, xs ! j) \<in> set es \<longrightarrow> i < j)
    else main fuel junk (show_ints (n # int (length es) # edge_numbers es)) = Some (Inr ''impossible to sort\<newline>'')"
proof -
  obtain g success xs where r: "vertCount g = n" "arcs g = set es" "if success then top_order g xs else cyclic g"
    and out: "main fuel junk (show_ints (n # int (length es) # edge_numbers es)) =
      Some (Inr (if success then show_ints (map (\<lambda>v. v + 1) xs) else ''impossible to sort\<newline>''))"
    using main_run [OF assms, of junk] by blast
  have e: "edge g a b \<longleftrightarrow> (a, b) \<in> set es" for a b using r(2) [symmetric] by (simp add: arcs_def)
  show ?thesis
  proof (cases success)
    case True
    then have "acyclic (set es)" using r top_order_acyclic [of g xs] by (simp add: cyclic_iff)
    moreover have "distinct xs \<and> set xs = {0..<n} \<and> (\<forall>i < length xs. \<forall>j < length xs. (xs ! i, xs ! j) \<in> set es \<longrightarrow> i < j)"
      using r(1,3) True unfolding top_order_def e by simp
    ultimately show ?thesis using out True by auto
  next
    case False
    then have "\<not> acyclic (set es)" using r(2,3) by (simp add: cyclic_iff)
    then show ?thesis using out False by simp
  qed
qed

theorem main_sorts_topologically_witness:
  "\<exists>xs. main 3 (\<lambda>_. 0) (show_ints (2 # int (length [(1 :: int, 0 :: int)]) # edge_numbers [(1, 0)])) = Some (Inr (show_ints (map (\<lambda>v. v + 1) xs))) \<and>
     distinct xs \<and> set xs = {0..<2} \<and> (\<forall>i < length xs. \<forall>j < length xs. (xs ! i, xs ! j) \<in> set [(1, 0)] \<longrightarrow> i < j)"
proof -
  have "acyclic (set [(1 :: int, 0 :: int)])" by (simp add: acyclic_insert, simp add: acyclic_def)
  then show ?thesis using main_sorts_topologically [of 2 "[(1, 0)]" 3 "\<lambda>_. 0"] by (simp only: if_True) simp
qed

end
