(* ===== verification/Kruskal_Dsu.thy ===== *)
theory Kruskal_Dsu
  imports C_Stdio
begin

text \<open>
  \<open>C-Labs/Minimal_spanning_tree_Kruskal_algo\<close>, the disjoint sets of \<open>dsu.c\<close>: an array of links in which a root is linked to
  itself.  The loop of \<open>find\<close> is a partial function, \<open>None\<close> meaning that it never returns, which it would on a cycle of
  links.  The value of each call of \<open>rand\<close> is an argument.  The theorem says that from a fresh array no sequence of unions
  makes a later \<open>find\<close> loop or leave the array, and that \<open>find\<close> decides whether two elements are connected by the unions.
\<close>

section \<open>Definitions\<close>

text \<open>Conversion to \<open>uint32_t\<close>.\<close>

definition to_u32 :: "int \<Rightarrow> nat" where
  "to_u32 v = nat (v mod 2 ^ 32)"

record DSU =
  link :: "nat list"
  dsu_size :: nat

definition createDSU :: "nat \<Rightarrow> mem \<Rightarrow> DSU option \<times> mem" where
  "createDSU n mem =
     (let (ok, mem1) = alloc mem in
      if \<not> ok then (None, mem1)
      else let (ok2, mem2) = alloc mem1 in
           if \<not> ok2 then (None, mem2)
           else (Some \<lparr>link = [0..<n], dsu_size = n\<rparr>, mem2))"

partial_function (option) find_loop :: "nat list \<Rightarrow> nat \<Rightarrow> nat run" where
  "find_loop l a =
     (case arr_get l a of
        Inl e \<Rightarrow> Some (Inl e)
      | Inr b \<Rightarrow> if b = a then Some (Inr a) else find_loop l b)"

definition find_dsu :: "DSU option \<Rightarrow> nat \<Rightarrow> int run" where
  "find_dsu set' a =
     (case set' of
        None \<Rightarrow> Some (Inr (-1))
      | Some s \<Rightarrow> if a \<ge> dsu_size s then Some (Inr (-1)) else bindO (find_loop (link s) a) (\<lambda>r. Some (Inr (int r))))"

definition swap_u32 :: "nat \<times> nat \<Rightarrow> nat \<times> nat" where
  "swap_u32 p = (let tmp = fst p in (snd p, tmp))"

definition unite :: "int \<Rightarrow> DSU \<Rightarrow> nat \<Rightarrow> nat \<Rightarrow> DSU run" where
  "unite rand s a b =
     bindO (find_dsu (Some s) a) (\<lambda>ra.
     bindO (find_dsu (Some s) b) (\<lambda>rb.
     let doSwap = c_mod rand 2 \<noteq> 0;
         (a', b') = (if doSwap then swap_u32 (to_u32 ra, to_u32 rb) else (to_u32 ra, to_u32 rb)) in
     bindO (Some (arr_set (link s) a' b')) (\<lambda>l. Some (Inr (s\<lparr>link := l\<rparr>)))))"

text \<open>A client's sequence of unions, each with the value of \<open>rand\<close>.\<close>

fun unite_all :: "(int \<times> nat \<times> nat) list \<Rightarrow> DSU \<Rightarrow> DSU run" where
  "unite_all [] s = Some (Inr s)"
| "unite_all ((rand, a, b) # us) s = bindO (unite rand s a b) (unite_all us)"

section \<open>Connected vertices\<close>

text \<open>The equivalence that a set of edges generates.\<close>

definition conn :: "(nat \<times> nat) set \<Rightarrow> (nat \<times> nat) set" where
  "conn S = (S \<union> S\<inverse>)\<^sup>*"

lemma conn_refl [simp]: "(x, x) \<in> conn S"
  by (simp add: conn_def)

lemma conn_sym: "(x, y) \<in> conn S \<Longrightarrow> (y, x) \<in> conn S"
  unfolding conn_def by (rule symD [OF sym_rtrancl]) (auto simp: sym_def)

lemma conn_trans: "(x, y) \<in> conn S \<Longrightarrow> (y, z) \<in> conn S \<Longrightarrow> (x, z) \<in> conn S"
  unfolding conn_def by (rule rtrancl_trans)

lemma conn_edge: "(x, y) \<in> S \<Longrightarrow> (x, y) \<in> conn S"
  unfolding conn_def by auto

lemma conn_mono: "S \<subseteq> T \<Longrightarrow> conn S \<subseteq> conn T"
  unfolding conn_def by (rule rtrancl_mono) auto

lemma conn_least:
  assumes "(x, y) \<in> conn S" and "\<And>a b. (a, b) \<in> S \<Longrightarrow> (a, b) \<in> conn T"
  shows "(x, y) \<in> conn T"
  using assms(1) unfolding conn_def [of S]
proof (induction rule: rtrancl_induct)
  case (step y z)
  then have "(y, z) \<in> conn T" using assms(2) conn_sym by blast
  then show ?case using step.IH conn_trans by blast
qed simp

lemma conn_empty [simp]: "(x, y) \<in> conn {} \<longleftrightarrow> x = y"
  by (simp add: conn_def)

text \<open>What one more edge connects.\<close>

lemma conn_insert:
  "(x, y) \<in> conn (insert (a, b) S) \<longleftrightarrow> (x, y) \<in> conn S \<or>
     (x, a) \<in> conn S \<and> (b, y) \<in> conn S \<or> (x, b) \<in> conn S \<and> (a, y) \<in> conn S" (is "_ \<longleftrightarrow> ?R x y")
proof
  assume "(x, y) \<in> conn (insert (a, b) S)"
  then show "?R x y" unfolding conn_def [of "insert (a, b) S"]
  proof (induction rule: rtrancl_induct)
    case (step y z)
    then consider "y = a" "z = b" | "y = b" "z = a" | "(y, z) \<in> conn S" using conn_edge conn_sym by blast
    then show ?case using step.IH by cases (metis conn_refl conn_sym conn_trans)+
  qed simp
next
  have "conn S \<subseteq> conn (insert (a, b) S)" by (rule conn_mono) blast
  moreover have "(a, b) \<in> conn (insert (a, b) S)" by (rule conn_edge) simp
  ultimately show "(x, y) \<in> conn (insert (a, b) S)" if "?R x y"
    using that conn_sym conn_trans by (meson subsetD)
qed

section \<open>Roots\<close>

inductive rooted :: "nat list \<Rightarrow> nat \<Rightarrow> nat \<Rightarrow> bool" for l where
  root: "a < length l \<Longrightarrow> l ! a = a \<Longrightarrow> rooted l a a"
| child: "a < length l \<Longrightarrow> l ! a \<noteq> a \<Longrightarrow> rooted l (l ! a) r \<Longrightarrow> rooted l a r"

lemma find_loop_rooted: "rooted l a r \<Longrightarrow> find_loop l a = Some (Inr r)"
  by (induction rule: rooted.induct) (subst find_loop.simps, simp)+

lemma rooted_root: "rooted l a r \<Longrightarrow> r < length l \<and> l ! r = r"
  by (induction rule: rooted.induct) auto

lemma rooted_unique: "rooted l a r \<Longrightarrow> rooted l a r' \<Longrightarrow> r = r'"
  using find_loop_rooted [of l a r] find_loop_rooted [of l a r'] by simp

lemma rooted_self: "r < length l \<Longrightarrow> l ! r = r \<Longrightarrow> rooted l r r' \<longleftrightarrow> r' = r"
  using rooted.root rooted_unique by blast

text \<open>Linking the root \<open>a\<close> to the root \<open>b\<close>.\<close>

lemma rooted_link:
  assumes "rooted l x r" and "a < length l" and "b < length l" and "l ! a = a" and "l ! b = b" and "a \<noteq> b"
  shows "rooted (l[a := b]) x (if r = a then b else r)"
  using assms(1)
proof (induction rule: rooted.induct)
  case (root x)
  have b: "rooted (l[a := b]) b b" using assms by (intro rooted.root) simp_all
  show ?case
  proof (cases "x = a")
    case True
    then show ?thesis using b assms rooted.child [of a "l[a := b]" b] by simp
  next
    case False
    then show ?thesis using root by (simp add: rooted.root)
  qed
next
  case (child x r)
  then have "x \<noteq> a" using assms(4) by auto
  then show ?case using child rooted.child [of x "l[a := b]"] by simp
qed

text \<open>The links represent the connection by the edges \<open>S\<close>.\<close>

definition dsu_rep :: "nat \<Rightarrow> (nat \<times> nat) set \<Rightarrow> DSU \<Rightarrow> bool" where
  "dsu_rep n S s \<longleftrightarrow> dsu_size s = n \<and> length (link s) = n \<and> (\<forall>x < n. \<exists>r. rooted (link s) x r) \<and>
     (\<forall>x y r t. rooted (link s) x r \<longrightarrow> rooted (link s) y t \<longrightarrow> (r = t \<longleftrightarrow> (x, y) \<in> conn S))"

lemma rooted_less: "rooted l x r \<Longrightarrow> x < length l"
  by (cases rule: rooted.cases) auto

lemma rooted_init: "rooted [0..<n] x r \<longleftrightarrow> x < n \<and> r = x"
  using rooted_self [of x "[0..<n]" r] rooted_less [of "[0..<n]" x r] by auto

lemma dsu_rep_init: "dsu_rep n {} \<lparr>link = [0..<n], dsu_size = n\<rparr>"
  by (simp add: dsu_rep_def rooted_init)

lemma find_ok:
  assumes "dsu_rep n S s" and "a < n"
  obtains r where "find_dsu (Some s) a = Some (Inr (int r))" and "rooted (link s) a r" and "r < n"
proof -
  obtain r where r: "rooted (link s) a r" using assms by (auto simp: dsu_rep_def)
  then show ?thesis using that [of r] rooted_root [OF r] assms find_loop_rooted [OF r] by (simp add: find_dsu_def dsu_rep_def)
qed

lemma find_iff:
  assumes "dsu_rep n S s" and "rooted (link s) x r" and "rooted (link s) y t"
  shows "r = t \<longleftrightarrow> (x, y) \<in> conn S"
  using assms by (simp add: dsu_rep_def)

definition roots :: "DSU \<Rightarrow> nat set" where
  "roots s = {r. r < length (link s) \<and> link s ! r = r}"

lemma finite_roots [simp]: "finite (roots s)"
  by (simp add: roots_def)

lemma link_roots_ok:
  assumes "dsu_rep n S s" and "rooted (link s) a ra" and "rooted (link s) b rb" and "ra \<noteq> rb"
    and "{c, d} = {ra, rb}"
  shows "dsu_rep n (insert (a, b) S) (s\<lparr>link := (link s)[c := d]\<rparr>)"
    and "card (roots (s\<lparr>link := (link s)[c := d]\<rparr>)) + 1 = card (roots s)"
proof -
  define l l' where "l = link s" and "l' = l[c := d]"
  have n: "length l = n" "dsu_size s = n" using assms(1) by (simp_all add: dsu_rep_def l_def)
  have r: "rooted l a ra" "rooted l b rb" using assms(2,3) by (simp_all add: l_def)
  have cd: "c \<noteq> d" "c < n" "d < n" "l ! c = c" "l ! d = d"
    using assms(4,5) rooted_root [OF r(1)] rooted_root [OF r(2)] n by (auto simp: doubleton_eq_iff)
  have new: "rooted l' x (if t = c then d else t)" if "rooted l x t" for x t
    unfolding l'_def by (rule rooted_link [OF that]) (use cd n in simp_all)
  have old: "\<exists>t. rooted l x t \<and> r = (if t = c then d else t)" if "rooted l' x r" for x r
  proof -
    have "x < n" using rooted_less [OF that] n by (simp add: l'_def)
    then obtain t where t: "rooted l x t" using assms(1) by (auto simp: dsu_rep_def l_def)
    then show ?thesis using rooted_unique [OF new [OF t] that] by blast
  qed
  have "r = t \<longleftrightarrow> (x, y) \<in> conn (insert (a, b) S)" if xy: "rooted l' x r" "rooted l' y t" for x y r t
  proof -
    obtain r0 t0 where o: "rooted l x r0" "rooted l y t0" "r = (if r0 = c then d else r0)" "t = (if t0 = c then d else t0)"
      using old xy by blast
    have eq: "p = q \<longleftrightarrow> (u, v) \<in> conn S" if "rooted l u p" "rooted l v q" for u v p q
      using find_iff [OF assms(1)] that by (simp add: l_def)
    have "r = t \<longleftrightarrow> r0 = t0 \<or> r0 = ra \<and> rb = t0 \<or> r0 = rb \<and> ra = t0"
      using o(3,4) assms(4,5) by (auto simp: doubleton_eq_iff)
    then show ?thesis unfolding conn_insert eq [OF o(1,2)] eq [OF o(1) r(1)] eq [OF r(2) o(2)] eq [OF o(1) r(2)] eq [OF r(1) o(2)] .
  qed
  moreover have "\<exists>r. rooted l' x r" if "x < n" for x using assms(1) that new unfolding dsu_rep_def l_def [symmetric] by blast
  ultimately show "dsu_rep n (insert (a, b) S) (s\<lparr>link := (link s)[c := d]\<rparr>)"
    using n unfolding dsu_rep_def l_def [symmetric] l'_def [symmetric] by (simp add: l'_def)
  have "roots (s\<lparr>link := (link s)[c := d]\<rparr>) = roots s - {c}" using cd n by (auto simp: roots_def l_def nth_list_update split: if_splits)
  moreover have "c \<in> roots s" using cd n by (simp add: roots_def l_def)
  ultimately show "card (roots (s\<lparr>link := (link s)[c := d]\<rparr>)) + 1 = card (roots s)" using card_Suc_Diff1 [of "roots s" c] by simp
qed

lemma to_u32_small [simp]: "k < 2 ^ 32 \<Longrightarrow> to_u32 (int k) = k"
  by (simp add: to_u32_def)

lemma unite_ok:
  assumes "dsu_rep n S s" and "n \<le> 2 ^ 32" and "a < n" and "b < n" and "(a, b) \<notin> conn S"
  shows "\<exists>s'. unite rand s a b = Some (Inr s') \<and> dsu_rep n (insert (a, b) S) s' \<and> card (roots s') + 1 = card (roots s)"
proof -
  obtain ra where ra: "find_dsu (Some s) a = Some (Inr (int ra))" "rooted (link s) a ra" "ra < n" using find_ok [OF assms(1,3)] .
  obtain rb where rb: "find_dsu (Some s) b = Some (Inr (int rb))" "rooted (link s) b rb" "rb < n" using find_ok [OF assms(1,4)] .
  define p where "p = (if c_mod rand 2 \<noteq> 0 then (rb, ra) else (ra, rb))"
  obtain c d where p: "p = (c, d)" by (cases p)
  have cd: "{c, d} = {ra, rb}" "c < n" using p ra(3) rb(3) by (auto simp: p_def split: if_splits)
  have "ra \<noteq> rb" using find_iff [OF assms(1) ra(2) rb(2)] assms(5) by simp
  note ok = link_roots_ok [OF assms(1) ra(2) rb(2) this cd(1)]
  have "to_u32 (int ra) = ra" "to_u32 (int rb) = rb" using ra(3) rb(3) assms(2) by simp_all
  then have "unite rand s a b = Some (Inr (s\<lparr>link := (link s)[c := d]\<rparr>))"
    using ra(1) rb(1) p cd(2) assms(1) by (auto simp: unite_def swap_u32_def p_def dsu_rep_def split: if_splits)
  then show ?thesis using ok by blast
qed

text \<open>Uniting connected elements changes nothing.\<close>

lemma unite_same:
  assumes "dsu_rep n S s" and "n \<le> 2 ^ 32" and "a < n" and "b < n" and "(a, b) \<in> conn S"
  shows "unite rand s a b = Some (Inr s)"
proof -
  obtain ra where ra: "find_dsu (Some s) a = Some (Inr (int ra))" "rooted (link s) a ra" "ra < n" using find_ok [OF assms(1,3)] .
  obtain rb where rb: "find_dsu (Some s) b = Some (Inr (int rb))" "rooted (link s) b rb" "rb < n" using find_ok [OF assms(1,4)] .
  have "rb = ra" using find_iff [OF assms(1) ra(2) rb(2)] assms(5) by simp
  moreover have "(link s)[ra := ra] = link s" using rooted_root [OF ra(2)] by (metis list_update_id)
  moreover have "to_u32 (int ra) = ra" "ra < length (link s)" using ra(3) assms(1,2) by (simp_all add: dsu_rep_def)
  ultimately show ?thesis using ra(1) rb(1) by (simp add: unite_def swap_u32_def)
qed

lemma conn_absorb: "(a, b) \<in> conn S \<Longrightarrow> conn (insert (a, b) S) = conn S"
proof (rule subset_antisym)
  assume ab: "(a, b) \<in> conn S"
  have "(x, y) \<in> conn S" if "(x, y) \<in> conn (insert (a, b) S)" for x y
    by (rule conn_least [OF that]) (use ab conn_edge in auto)
  then show "conn (insert (a, b) S) \<subseteq> conn S" by auto
qed (rule conn_mono, blast)

lemma dsu_rep_conn: "dsu_rep n S s \<Longrightarrow> conn T = conn S \<Longrightarrow> dsu_rep n T s"
  by (simp add: dsu_rep_def)

lemma unite_rep:
  assumes "dsu_rep n S s" and "n \<le> 2 ^ 32" and "a < n" and "b < n"
  shows "\<exists>s'. unite rand s a b = Some (Inr s') \<and> dsu_rep n (insert (a, b) S) s'"
proof (cases "(a, b) \<in> conn S")
  case True
  then show ?thesis using unite_same [OF assms] dsu_rep_conn [OF assms(1) conn_absorb] by blast
next
  case False
  then show ?thesis using unite_ok [OF assms] by blast
qed

lemma unite_all_rep:
  assumes "n \<le> 2 ^ 32"
  shows "dsu_rep n S s \<Longrightarrow> \<forall>(rand, a, b) \<in> set us. a < n \<and> b < n \<Longrightarrow>
    \<exists>s'. unite_all us s = Some (Inr s') \<and> dsu_rep n (S \<union> snd ` set us) s'"
proof (induction us arbitrary: S s)
  case (Cons u us)
  obtain rand a b where u: "u = (rand, a, b)" by (cases u)
  then obtain s1 where s1: "unite rand s a b = Some (Inr s1)" "dsu_rep n (insert (a, b) S) s1"
    using unite_rep [OF Cons.prems(1) assms, of a b rand] Cons.prems(2) by auto
  then show ?case using Cons.IH [OF s1(2)] Cons.prems(2) u by simp
qed simp

text \<open>An element outside the set makes \<open>unite\<close> write outside the array: the error value of \<open>find\<close> is not tested.\<close>

lemma unite_outside:
  assumes "dsu_rep n S s" and "n < 2 ^ 32" and "n \<le> a" and "c_mod rand 2 = 0" and "b < n"
  shows "unite rand s a b = Some (Inl Undefined)"
proof -
  obtain rb where rb: "find_dsu (Some s) b = Some (Inr (int rb))" using find_ok [OF assms(1,5)] .
  have "find_dsu (Some s) a = Some (Inr (-1))" using assms(1,3) by (simp add: find_dsu_def dsu_rep_def)
  moreover have "to_u32 (-1) = 2 ^ 32 - 1" by (simp add: to_u32_def)
  ultimately show ?thesis using rb assms(1,2,4) by (simp add: unite_def arr_set_def dsu_rep_def)
qed

text \<open>C38: on a fresh set of \<open>n\<close> elements every sequence of unions returns, whatever \<open>rand\<close> gives, and afterwards \<open>find\<close>
  returns for every element, an element of the set, with equal results exactly for the elements that the unions connect.\<close>

theorem dsu_refines_partition:
  assumes "n \<le> 2 ^ 32" and "\<forall>(rand, a, b) \<in> set us. a < n \<and> b < n" and "createDSU n mem = (Some s0, mem')"
  shows "\<exists>s. unite_all us s0 = Some (Inr s) \<and>
    (\<forall>x < n. \<forall>y < n. \<exists>r t. find_dsu (Some s) x = Some (Inr (int r)) \<and> find_dsu (Some s) y = Some (Inr (int t)) \<and> r < n \<and>
      (r = t \<longleftrightarrow> (x, y) \<in> conn (snd ` set us)))"
proof -
  have "s0 = \<lparr>link = [0..<n], dsu_size = n\<rparr>" using assms(3) by (auto simp: createDSU_def split: prod.splits if_splits)
  then obtain s where s: "unite_all us s0 = Some (Inr s)" "dsu_rep n (snd ` set us) s"
    using unite_all_rep [OF assms(1) dsu_rep_init assms(2)] by auto
  have "\<exists>r t. find_dsu (Some s) x = Some (Inr (int r)) \<and> find_dsu (Some s) y = Some (Inr (int t)) \<and> r < n \<and>
      (r = t \<longleftrightarrow> (x, y) \<in> conn (snd ` set us))" if xy: "x < n" "y < n" for x y
  proof -
    obtain r where r: "find_dsu (Some s) x = Some (Inr (int r))" "rooted (link s) x r" "r < n" using find_ok [OF s(2) xy(1)] .
    obtain t where t: "find_dsu (Some s) y = Some (Inr (int t))" "rooted (link s) y t" "t < n" using find_ok [OF s(2) xy(2)] .
    show ?thesis using r(1,3) t(1) find_iff [OF s(2) r(2) t(2)] by blast
  qed
  then show ?thesis using s(1) by blast
qed

theorem dsu_refines_partition_witness:
  "\<exists>s. unite_all [(7, 0, 2), (4, 2, 3)] \<lparr>link = [0, 1, 2, 3], dsu_size = 4\<rparr> = Some (Inr s) \<and>
    (\<forall>x < 4. \<forall>y < 4. \<exists>r t. find_dsu (Some s) x = Some (Inr (int r)) \<and> find_dsu (Some s) y = Some (Inr (int t)) \<and> r < 4 \<and>
      (r = t \<longleftrightarrow> (x, y) \<in> conn {(0, 2), (2, 3)}))"
  using dsu_refines_partition [of 4 "[(7, 0, 2), (4, 2, 3)]" "[]" "\<lparr>link = [0, 1, 2, 3], dsu_size = 4\<rparr>" "[]"]
  by (simp add: createDSU_def alloc_def upt_rec)

end
