(* ===== verification/Kruskal.thy ===== *)
theory Kruskal
  imports Kruskal_Dsu C_Qsort
begin

text \<open>
  \<open>C-Labs/Minimal_spanning_tree_Kruskal_algo\<close>: the graph (\<open>graph.c\<close>), Kruskal's algorithm over the disjoint sets
  (\<open>spanning_tree.c\<close>), the messages (\<open>error_handling.c\<close>) and the program (\<open>main.c\<close>).  The contents of fresh memory, the values
  of \<open>rand\<close> and the outcomes of the allocations are arguments.  The edges chosen are compared with those of the greedy
  algorithm on the generated equivalence, whose minimality is proved by exchanging an edge.
\<close>

section \<open>Definitions\<close>

subsection \<open>error\_handling.c\<close>

datatype exitCode = SUCCESS | ALLOCATION_ERROR | INPUT_ERROR | BAD_NUMBER_OF_VERTICES | BAD_NUMBER_OF_EDGES
  | BAD_NUMBER_OF_LINES | BAD_VERTEX | BAD_LENGTH | NO_SPANNING_TREE | OUT_OF_RANGE | INVALID_ARGUMENT

text \<open>What is printed to the stream; the message of \<open>ALLOCATION_ERROR\<close> goes to the standard error output.\<close>

fun printExitCodeDescription :: "exitCode \<Rightarrow> string" where
  "printExitCodeDescription ALLOCATION_ERROR = []"
| "printExitCodeDescription INPUT_ERROR = ''Wrong input\<newline>''"
| "printExitCodeDescription BAD_NUMBER_OF_VERTICES = ''bad number of vertices\<newline>''"
| "printExitCodeDescription BAD_NUMBER_OF_EDGES = ''bad number of edges\<newline>''"
| "printExitCodeDescription BAD_NUMBER_OF_LINES = ''bad number of lines\<newline>''"
| "printExitCodeDescription BAD_VERTEX = ''bad vertex\<newline>''"
| "printExitCodeDescription BAD_LENGTH = ''bad length\<newline>''"
| "printExitCodeDescription NO_SPANNING_TREE = ''no spanning tree\<newline>''"
| "printExitCodeDescription OUT_OF_RANGE = ''index out of range\<newline>''"
| "printExitCodeDescription INVALID_ARGUMENT = ''invalid argument\<newline>''"
| "printExitCodeDescription SUCCESS = []"

subsection \<open>graph.c\<close>

record Edge =
  eu :: nat
  ev :: nat
  elength :: nat

record Graph =
  edges :: "Edge list"
  vertCount :: nat
  edgesCount :: nat

definition createGraph :: "(nat \<Rightarrow> Edge) \<Rightarrow> nat \<Rightarrow> nat \<Rightarrow> mem \<Rightarrow> (Graph option \<times> mem) res" where
  "createGraph junk vertexCount maxEdgesCount mem =
     assertR (vertexCount > 0)
       (let (ok, mem1) = alloc mem in
        if \<not> ok then Inr (None, mem1)
        else let (ok2, mem2) = alloc mem1 in
             if \<not> ok2 then Inr (None, mem2)
             else Inr (Some \<lparr>edges = map junk [0..<maxEdgesCount], vertCount = vertexCount, edgesCount = 0\<rparr>, mem2))"

definition addEdge :: "Graph \<Rightarrow> nat \<Rightarrow> nat \<Rightarrow> nat \<Rightarrow> (exitCode \<times> Graph) res" where
  "addEdge g u v len =
     (if u \<ge> vertCount g \<or> v \<ge> vertCount g then Inr (OUT_OF_RANGE, g)
      else bindR (arr_set (edges g) (edgesCount g) \<lparr>eu = u, ev = v, elength = len\<rparr>) (\<lambda>es.
           Inr (SUCCESS, g\<lparr>edges := es, edgesCount := edgesCount g + 1\<rparr>)))"

subsection \<open>spanning\_tree.c\<close>

definition edgeComapre :: "Edge \<Rightarrow> Edge \<Rightarrow> int" where
  "edgeComapre a b = (if elength a > elength b then 1 else 0)"

text \<open>The loop over the sorted edges; the \<open>k\<close>-th call of \<open>rand\<close> is made when \<open>k\<close> edges have been chosen.\<close>

fun kruskal_loop :: "(nat \<Rightarrow> int) \<Rightarrow> Graph \<Rightarrow> nat list \<Rightarrow> DSU \<Rightarrow> Edge list \<Rightarrow> nat \<Rightarrow> (Edge list \<times> nat) run" where
  "kruskal_loop rands g [] subsets spanningTree spanningEdges = Some (Inr (spanningTree, spanningEdges))"
| "kruskal_loop rands g (i # is) subsets spanningTree spanningEdges =
     bindO (Some (arr_get (edges g) i)) (\<lambda>curEdge.
     bindO (find_dsu (Some subsets) (eu curEdge)) (\<lambda>fu.
     bindO (find_dsu (Some subsets) (ev curEdge)) (\<lambda>fv.
     let u_root = to_int32 fu; v_root = to_int32 fv in
     if u_root \<noteq> v_root then
       bindO (unite (rands spanningEdges) subsets (to_u32 u_root) (to_u32 v_root)) (\<lambda>subsets'.
       bindO (Some (arr_set spanningTree spanningEdges curEdge)) (\<lambda>spanningTree'.
       if spanningEdges + 1 = to_u32 (int (vertCount g) - 1) then Some (Inr (spanningTree', spanningEdges + 1))
       else kruskal_loop rands g is subsets' spanningTree' (spanningEdges + 1)))
     else kruskal_loop rands g is subsets spanningTree spanningEdges)))"

definition sort_edges :: "Graph \<Rightarrow> Graph" where
  "sort_edges g = g\<lparr>edges := qsort edgeComapre (take (edgesCount g) (edges g)) @ drop (edgesCount g) (edges g)\<rparr>"

definition findSpanningTree :: "(nat \<Rightarrow> int) \<Rightarrow> Graph option \<Rightarrow> Edge list option \<Rightarrow> mem \<Rightarrow>
    (exitCode \<times> Edge list option \<times> mem) run" where
  "findSpanningTree rands graph spanningTree mem =
     (case (graph, spanningTree) of
        (Some g, Some st) \<Rightarrow>
          (case createDSU (vertCount g) mem of
             (None, mem') \<Rightarrow> Some (Inr (ALLOCATION_ERROR, spanningTree, mem'))
           | (Some subsets, mem') \<Rightarrow>
               let g' = sort_edges g in
               bindO (kruskal_loop rands g' [0..<edgesCount g'] subsets st 0) (\<lambda>(st', spanningEdges).
               if spanningEdges < to_u32 (int (vertCount g') - 1) then Some (Inr (NO_SPANNING_TREE, Some st', mem'))
               else Some (Inr (SUCCESS, Some st', mem'))))
      | _ \<Rightarrow> Some (Inr (INVALID_ARGUMENT, spanningTree, mem)))"

subsection \<open>main.c\<close>

definition validateVerticesNumber :: "int \<Rightarrow> bool" where
  "validateVerticesNumber vertN \<longleftrightarrow> 0 \<le> vertN \<and> vertN \<le> 5000"

definition validateEdgesNumber :: "int \<Rightarrow> int \<Rightarrow> bool res" where
  "validateEdgesNumber vertN edgesN =
     bindR (ckd (vertN * (vertN - 1))) (\<lambda>p. let maxEdgesN = c_div p 2 in Inr (0 \<le> edgesN \<and> edgesN \<le> maxEdgesN))"

definition validateVertexIndex :: "int \<Rightarrow> int \<Rightarrow> bool" where
  "validateVertexIndex vertN idx \<longleftrightarrow> 1 \<le> idx \<and> idx \<le> vertN"

definition validateVertexLength :: "int \<Rightarrow> bool" where
  "validateVertexLength len \<longleftrightarrow> 0 \<le> len \<and> len \<le> 2147483647"

text \<open>The loop that reads the edges.\<close>

fun read_edges :: "nat \<Rightarrow> int \<Rightarrow> Graph \<Rightarrow> string \<Rightarrow> (exitCode \<times> Graph) res" where
  "read_edges 0 vertN g s = Inr (SUCCESS, g)"
| "read_edges (Suc k) vertN g s =
     (case scanf_i s of
        Item u s1 \<Rightarrow>
          (case scanf_i s1 of
             Item v s2 \<Rightarrow>
               (case scanf_i s2 of
                  Item len s3 \<Rightarrow>
                    if \<not> validateVertexIndex vertN u then Inr (BAD_VERTEX, g)
                    else if \<not> validateVertexIndex vertN v then Inr (BAD_VERTEX, g)
                    else if \<not> validateVertexLength len then Inr (BAD_LENGTH, g)
                    else bindR (addEdge g (to_u32 (u - 1)) (to_u32 (v - 1)) (to_u32 len)) (\<lambda>(exitCode, g').
                         if exitCode \<noteq> SUCCESS then Inr (exitCode, g') else read_edges k vertN g' s3)
                | _ \<Rightarrow> Inr (BAD_NUMBER_OF_LINES, g))
           | _ \<Rightarrow> Inr (BAD_NUMBER_OF_LINES, g))
      | _ \<Rightarrow> Inr (BAD_NUMBER_OF_LINES, g))"

definition print_edge :: "Edge \<Rightarrow> string" where
  "print_edge e = show_nat (to_u32 (int (eu e) + 1)) @ '' '' @ show_nat (to_u32 (int (ev e) + 1)) @ ''\<newline>''"

fun print_tree :: "Edge list \<Rightarrow> nat list \<Rightarrow> string res" where
  "print_tree spanningTree [] = Inr []"
| "print_tree spanningTree (i # is) =
     bindR (arr_get spanningTree i) (\<lambda>e. bindR (print_tree spanningTree is) (\<lambda>s. Inr (print_edge e @ s)))"

definition defer_exit :: "exitCode \<Rightarrow> string run" where
  "defer_exit exitCode = Some (Inr (printExitCodeDescription exitCode))"

text \<open>The text of \<open>in.txt\<close>, \<open>None\<close> if it cannot be opened, to the text of \<open>out.txt\<close>.\<close>

definition main :: "(nat \<Rightarrow> int) \<Rightarrow> (nat \<Rightarrow> Edge) \<Rightarrow> (nat \<Rightarrow> Edge) \<Rightarrow> mem \<Rightarrow> string option \<Rightarrow> string run" where
  "main rands junk junk' mem input =
     (case input of
        None \<Rightarrow> Some (Inl Undefined)
      | Some s \<Rightarrow>
          (case scanf_i s of
             Item vertN s1 \<Rightarrow>
               (case scanf_i s1 of
                  Item edgesN s2 \<Rightarrow>
                    if \<not> validateVerticesNumber vertN then defer_exit BAD_NUMBER_OF_VERTICES
                    else bindO (Some (validateEdgesNumber vertN edgesN)) (\<lambda>valid.
                    if \<not> valid then defer_exit BAD_NUMBER_OF_EDGES
                    else if vertN = 0 then defer_exit NO_SPANNING_TREE
                    else bindO (Some (createGraph junk (to_u32 vertN) (to_u32 edgesN) mem)) (\<lambda>(graph, mem1).
                    case graph of
                      None \<Rightarrow> defer_exit ALLOCATION_ERROR
                    | Some g0 \<Rightarrow>
                        bindO (Some (read_edges (nat edgesN) vertN g0 s2)) (\<lambda>(exitCode, g).
                        if exitCode \<noteq> SUCCESS then defer_exit exitCode
                        else let (ok, mem2) = alloc mem1 in
                             if \<not> ok then defer_exit ALLOCATION_ERROR
                             else bindO (findSpanningTree rands (Some g) (Some (map junk' [0..<nat (vertN - 1)])) mem2)
                               (\<lambda>(exitCode, spanningTree, mem3).
                               if exitCode \<noteq> SUCCESS then defer_exit exitCode
                               else case spanningTree of
                                      None \<Rightarrow> Some (Inl Undefined)
                                    | Some st \<Rightarrow> bindO (Some (print_tree st [0..<nat (vertN - 1)])) (\<lambda>answer.
                                        Some (Inr (answer @ printExitCodeDescription SUCCESS)))))))
                | _ \<Rightarrow> defer_exit BAD_NUMBER_OF_LINES)
           | _ \<Rightarrow> defer_exit BAD_NUMBER_OF_LINES))"

section \<open>The greedy choice\<close>

definition ends :: "Edge \<Rightarrow> nat \<times> nat" where
  "ends e = (eu e, ev e)"

fun greedy :: "(nat \<times> nat) set \<Rightarrow> Edge list \<Rightarrow> Edge list" where
  "greedy S [] = []"
| "greedy S (e # es) = (if ends e \<in> conn S then greedy S es else e # greedy (insert (ends e) S) es)"

definition weight :: "Edge list \<Rightarrow> nat" where
  "weight es = sum_list (map elength es)"

lemma greedy_subset: "set (greedy S es) \<subseteq> set es"
  by (induction es arbitrary: S) auto

lemma conn_insert_cong: "conn S = conn T \<Longrightarrow> conn (insert e S) = conn (insert e T)"
  by (cases e) (auto simp: conn_insert)

lemma conn_Un_cong: "conn S = conn T \<Longrightarrow> conn (S \<union> U) = conn (T \<union> U)"
proof -
  have "conn (A \<union> U) \<subseteq> conn (B \<union> U)" if "conn A = conn B" for A B
  proof clarify
    fix x y assume "(x, y) \<in> conn (A \<union> U)"
    then show "(x, y) \<in> conn (B \<union> U)"
    proof (rule conn_least)
      fix a b assume "(a, b) \<in> A \<union> U"
      then show "(a, b) \<in> conn (B \<union> U)"
        using conn_edge [of a b A] conn_edge [of a b "B \<union> U"] that conn_mono [of B "B \<union> U"] by auto
    qed
  qed
  then show "conn S = conn T \<Longrightarrow> conn (S \<union> U) = conn (T \<union> U)" by (metis subset_antisym)
qed

text \<open>The chosen edges connect what all edges connect.\<close>

lemma greedy_conn: "conn (S \<union> ends ` set (greedy S es)) = conn (S \<union> ends ` set es)"
proof (induction es arbitrary: S)
  case (Cons e es)
  show ?case
  proof (cases "ends e \<in> conn S")
    case True
    then have "conn S = conn (insert (ends e) S)" using conn_absorb [of "eu e" "ev e" S] by (simp add: ends_def)
    from conn_Un_cong [OF this, of "ends ` set es"] show ?thesis using True Cons.IH [of S] by simp
  next
    case False
    then show ?thesis using Cons.IH [of "insert (ends e) S"] by simp
  qed
qed simp

text \<open>An edge that connects what \<open>S\<close> does not connect but \<open>S\<close> with \<open>C\<close> does, can take the place of an edge of \<open>C\<close>.\<close>

lemma exchange:
  assumes "finite C" and "(a, b) \<notin> conn S" and "(a, b) \<in> conn (S \<union> ends ` C)"
  shows "\<exists>f \<in> C. conn (S \<union> ends ` C) \<subseteq> conn (insert (a, b) (S \<union> ends ` (C - {f})))"
  using assms(1,3)
proof (induction C rule: finite_induct)
  case empty
  then show ?case using assms(2) by simp
next
  case (insert f C)
  define T where "T = S \<union> ends ` C"
  have T: "S \<union> ends ` insert f C = insert (eu f, ev f) T" by (auto simp: T_def ends_def)
  show ?case
  proof (cases "(a, b) \<in> conn T")
    case True
    then obtain f0 where f0: "f0 \<in> C" "conn T \<subseteq> conn (insert (a, b) (S \<union> ends ` (C - {f0})))"
      using insert.IH unfolding T_def by blast
    define R where "R = insert (a, b) (S \<union> ends ` (insert f C - {f0}))"
    have sub: "conn (insert (a, b) (S \<union> ends ` (C - {f0}))) \<subseteq> conn R" unfolding R_def by (rule conn_mono) auto
    have "f \<noteq> f0" using f0(1) insert.hyps(2) by auto
    then have f: "(eu f, ev f) \<in> conn R" unfolding R_def by (intro conn_edge) (auto simp: ends_def)
    have "(x, y) \<in> conn R" if "(x, y) \<in> conn (insert (eu f, ev f) T)" for x y
      by (rule conn_least [OF that]) (use f sub f0(2) conn_edge [of _ _ T] in auto)
    then have "conn (insert (eu f, ev f) T) \<subseteq> conn R" by auto
    then show ?thesis using f0(1) unfolding T R_def by blast
  next
    case False
    have "insert f C - {f} = C" using insert.hyps(2) by auto
    moreover have "(eu f, ev f) \<in> conn (insert (a, b) T)"
      using insert.prems False unfolding T conn_insert by (meson conn_sym)
    moreover have "conn T \<subseteq> conn (insert (a, b) T)" by (rule conn_mono) auto
    ultimately have "conn (insert (eu f, ev f) T) \<subseteq> conn (insert (a, b) (S \<union> ends ` (insert f C - {f})))"
      unfolding T_def [symmetric] by (auto intro: conn_least conn_edge simp: T_def [symmetric])
    then show ?thesis unfolding T by blast
  qed
qed

text \<open>On edges sorted by length the greedy choice is the lightest with its connections.\<close>

lemma greedy_optimal:
  assumes "sorted (map elength es)" and "C \<subseteq> set es" and "conn (S \<union> ends ` set es) \<subseteq> conn (S \<union> ends ` C)"
  shows "weight (greedy S es) \<le> sum elength C"
  using assms
proof (induction es arbitrary: S C)
  case Nil
  then show ?case by (simp add: weight_def)
next
  case (Cons e es)
  have fin: "finite C" using Cons.prems(2) finite_subset by blast
  have sort: "sorted (map elength es)" "\<And>f. f \<in> set es \<Longrightarrow> elength e \<le> elength f" using Cons.prems(1) by auto
  have sub: "conn (S \<union> ends ` set es) \<subseteq> conn (S \<union> ends ` C)"
    using conn_mono [of "S \<union> ends ` set es" "S \<union> ends ` set (e # es)"] Cons.prems(3) by auto
  show ?case
  proof (cases "ends e \<in> conn S")
    case True
    have "conn (S \<union> ends ` C) \<subseteq> conn (S \<union> ends ` (C - {e}))"
    proof clarify
      fix x y assume "(x, y) \<in> conn (S \<union> ends ` C)"
      then show "(x, y) \<in> conn (S \<union> ends ` (C - {e}))"
      proof (rule conn_least)
        fix a b assume "(a, b) \<in> S \<union> ends ` C"
        then consider "(a, b) = ends e" | "(a, b) \<in> S \<union> ends ` (C - {e})" by blast
        then show "(a, b) \<in> conn (S \<union> ends ` (C - {e}))"
          using True conn_mono [of S "S \<union> ends ` (C - {e})"] by cases (auto intro: conn_edge)
      qed
    qed
    then have "weight (greedy S es) \<le> sum elength (C - {e})"
      using Cons.IH [OF sort(1), of "C - {e}" S] Cons.prems(2) sub by auto
    also have "\<dots> \<le> sum elength C" using fin by (intro sum_mono2) auto
    finally show ?thesis using True by simp
  next
    case False
    define S' where "S' = insert (ends e) S"
    have "\<exists>f \<in> C. elength e \<le> elength f \<and> C - {f} \<subseteq> set es \<and> conn (S' \<union> ends ` set es) \<subseteq> conn (S' \<union> ends ` (C - {f}))"
    proof (cases "e \<in> C")
      case True
      then have "S \<union> ends ` C = S' \<union> ends ` (C - {e})" "S' \<union> ends ` set es = S \<union> ends ` set (e # es)" by (auto simp: S'_def)
      then show ?thesis using True Cons.prems(2,3) by (intro bexI [of _ e]) auto
    next
      case e: False
      have "(eu e, ev e) \<in> conn (S \<union> ends ` set (e # es))" by (rule conn_edge) (simp add: ends_def)
      then have "(eu e, ev e) \<in> conn (S \<union> ends ` C)" using Cons.prems(3) by blast
      then obtain f where f: "f \<in> C" "conn (S \<union> ends ` C) \<subseteq> conn (insert (ends e) (S \<union> ends ` (C - {f})))"
        using exchange [OF fin, of "eu e" "ev e" S] False by (auto simp: ends_def)
      have eqs: "S' \<union> ends ` set es = S \<union> ends ` set (e # es)"
        "insert (ends e) (S \<union> ends ` (C - {f})) = S' \<union> ends ` (C - {f})" by (auto simp: S'_def)
      have "conn (S' \<union> ends ` set es) \<subseteq> conn (S' \<union> ends ` (C - {f}))"
        using Cons.prems(3) f(2) unfolding eqs by (rule subset_trans)
      then show ?thesis using f(1) e Cons.prems(2) sort(2) by (intro bexI [of _ f]) auto
    qed
    then obtain f where f: "f \<in> C" "elength e \<le> elength f" "C - {f} \<subseteq> set es"
      "conn (S' \<union> ends ` set es) \<subseteq> conn (S' \<union> ends ` (C - {f}))" by blast
    have "weight (greedy S' es) \<le> sum elength (C - {f})" by (rule Cons.IH [OF sort(1) f(3,4)])
    then show ?thesis using False f(1,2) fin by (simp add: weight_def S'_def sum.remove [of C f])
  qed
qed

lemma greedy_distinct: "distinct (map ends (greedy S es)) \<and> (\<forall>e \<in> set (greedy S es). ends e \<notin> conn S)"
proof (induction es arbitrary: S)
  case (Cons e es)
  have "conn S \<subseteq> conn (insert (ends e) S)" by (rule conn_mono) auto
  moreover have "ends e \<in> conn (insert (ends e) S)" by (simp add: ends_def conn_edge)
  ultimately show ?case using Cons.IH [of S] Cons.IH [of "insert (ends e) S"] by auto
qed simp

section \<open>The loop\<close>

lemma conn_insert_eq:
  assumes "(a, a') \<in> conn S" and "(b, b') \<in> conn S"
  shows "conn (insert (a', b') S) = conn (insert (a, b) S)"
proof -
  have "conn (insert (p, q) S) \<subseteq> conn (insert (p', q') S)" if "(p, p') \<in> conn S" "(q, q') \<in> conn S" for p q p' q'
  proof -
    have "(p, q) \<in> conn (insert (p', q') S)" using that conn_sym unfolding conn_insert by blast
    then have "(x, y) \<in> conn (insert (p', q') S)" if "(x, y) \<in> conn (insert (p, q) S)" for x y
      by (intro conn_least [OF that]) (auto intro: conn_edge)
    then show ?thesis by auto
  qed
  then show ?thesis using assms conn_sym by (metis subset_antisym)
qed

lemma two_roots:
  assumes "dsu_rep n S s" and "a < n" and "b < n" and "(a, b) \<notin> conn S"
  shows "2 \<le> card (roots s)"
proof -
  obtain ra rb where r: "rooted (link s) a ra" "rooted (link s) b rb" using assms(1-3) unfolding dsu_rep_def by blast
  then have "ra \<noteq> rb" using find_iff [OF assms(1)] assms(4) by blast
  moreover have "{ra, rb} \<subseteq> roots s" using rooted_root [OF r(1)] rooted_root [OF r(2)] by (simp add: roots_def)
  ultimately show ?thesis using card_mono [OF finite_roots, of "{ra, rb}" s] by simp
qed

lemma some_root:
  assumes "dsu_rep n S s" and "0 < n"
  shows "1 \<le> card (roots s)"
proof -
  obtain r where "rooted (link s) 0 r" using assms by (auto simp: dsu_rep_def)
  then have "r \<in> roots s" using rooted_root by (simp add: roots_def)
  then show ?thesis using card_0_eq [OF finite_roots, of s] by (metis One_nat_def Suc_leI empty_iff neq0_conv)
qed

lemma one_root:
  assumes "dsu_rep n S s" and "\<And>x y. x < n \<Longrightarrow> y < n \<Longrightarrow> (x, y) \<in> conn S"
  shows "card (roots s) \<le> 1"
proof (rule ccontr)
  assume "\<not> card (roots s) \<le> 1"
  then have "\<not> card (roots s) \<le> Suc 0" by simp
  then obtain r t where rt: "r \<in> roots s" "t \<in> roots s" "r \<noteq> t" unfolding card_le_Suc0_iff_eq [OF finite_roots] by blast
  then have "rooted (link s) r r" "rooted (link s) t t" "r < n" "t < n" using assms(1) by (auto simp: roots_def dsu_rep_def intro: rooted.root)
  then show False using find_iff [OF assms(1)] assms(2) rt(3) by blast
qed

lemma greedy_connected: "\<forall>e \<in> set es. ends e \<in> conn S \<Longrightarrow> greedy S es = []"
  by (induction es) auto

lemma to_int32_small [simp]: "k < 2 ^ 31 \<Longrightarrow> to_int32 (int k) = int k"
  by (simp add: to_int32_def)

text \<open>The loop appends the greedy choice to the tree; the number of roots falls by one with each edge.\<close>

lemma kruskal_loop_ok:
  assumes n: "0 < n" "n < 2 ^ 31" "vertCount g = n"
  shows "dsu_rep n S s \<Longrightarrow> card (roots s) + k = n \<Longrightarrow> length st = n - 1 \<Longrightarrow> k \<le> n - 1 \<Longrightarrow>
    \<forall>i \<in> set is. i < length (edges g) \<and> eu (edges g ! i) < n \<and> ev (edges g ! i) < n \<Longrightarrow>
    \<exists>st'. kruskal_loop rands g is s st k = Some (Inr (st', k + length (greedy S (map ((!) (edges g)) is)))) \<and> length st' = n - 1 \<and>
      k + length (greedy S (map ((!) (edges g)) is)) \<le> n - 1 \<and>
      take (k + length (greedy S (map ((!) (edges g)) is))) st' = take k st @ greedy S (map ((!) (edges g)) is) \<and>
      (\<exists>s'. dsu_rep n (S \<union> ends ` set (greedy S (map ((!) (edges g)) is))) s' \<and>
        card (roots s') + (k + length (greedy S (map ((!) (edges g)) is))) = n)"
proof (induction "is" arbitrary: S s st k)
  case (Cons i "is")
  note prems = Cons.prems
  define e where "e = edges g ! i"
  have e: "arr_get (edges g) i = Inr e" "eu e < n" "ev e < n" using prems(5) by (auto simp: e_def)
  obtain ru where ru: "find_dsu (Some s) (eu e) = Some (Inr (int ru))" "rooted (link s) (eu e) ru" "ru < n" using find_ok [OF prems(1) e(2)] .
  obtain rv where rv: "find_dsu (Some s) (ev e) = Some (Inr (int rv))" "rooted (link s) (ev e) rv" "rv < n" using find_ok [OF prems(1) e(3)] .
  have conv: "to_int32 (int ru) = int ru" "to_int32 (int rv) = int rv" "to_u32 (int ru) = ru" "to_u32 (int rv) = rv"
    "to_u32 (int n - 1) = n - 1" using ru(3) rv(3) n to_u32_small [of "n - 1"] by (simp_all add: of_nat_diff)
  have iff: "ru = rv \<longleftrightarrow> ends e \<in> conn S" using find_iff [OF prems(1) ru(2) rv(2)] by (simp add: ends_def)
  show ?case
  proof (cases "ru = rv")
    case True
    then show ?thesis using Cons.IH [OF prems(1-4)] prems(5) e(1) ru(1) rv(1) conv iff by (simp add: e_def [symmetric])
  next
    case False
    define S' where "S' = insert (ends e) S"
    have self: "rooted (link s) ru ru" "rooted (link s) rv rv" using rooted_root [OF ru(2)] rooted_root [OF rv(2)] by (auto intro: rooted.root)
    have roots: "(ru, eu e) \<in> conn S" "(rv, ev e) \<in> conn S" "(ru, rv) \<notin> conn S"
      using find_iff [OF prems(1) self(1) ru(2)] find_iff [OF prems(1) self(2) rv(2)] find_iff [OF prems(1) self] False by simp_all
    obtain s' where s': "unite (rands k) s ru rv = Some (Inr s')" "dsu_rep n (insert (ru, rv) S) s'" "card (roots s') + 1 = card (roots s)"
      using unite_ok [OF prems(1) _ ru(3) rv(3) roots(3), of "rands k"] n(2) by auto
    have rep: "dsu_rep n S' s'"
      unfolding S'_def ends_def by (rule dsu_rep_conn [OF s'(2)]) (rule conn_insert_eq [OF roots(1,2)])
    have k: "k < n - 1" using two_roots [OF prems(1) ru(3) rv(3) roots(3)] prems(2) by simp
    define st1 where "st1 = st[k := e]"
    have st1: "length st1 = n - 1" "take (k + 1) st1 = take k st @ [e]"
      using k prems(3) by (simp_all add: st1_def take_Suc_conv_app_nth)
    have step: "kruskal_loop rands g (i # is) s st k =
        (if k + 1 = n - 1 then Some (Inr (st1, k + 1)) else kruskal_loop rands g is s' st1 (k + 1))"
      using e(1) ru(1) rv(1) conv s'(1) False k prems(3) n(3) by (simp add: st1_def Let_def)
    have grd: "greedy S (map ((!) (edges g)) (i # is)) = e # greedy S' (map ((!) (edges g)) is)"
      using False iff by (simp add: e_def S'_def)
    show ?thesis
    proof (cases "k + 1 = n - 1")
      case True
      have "card (roots s') = 1" using s'(3) prems(2) True n(1) by simp
      then have "(x, y) \<in> conn S'" if "x < n" "y < n" for x y using two_roots [OF rep that] by fastforce
      then have "greedy S' (map ((!) (edges g)) is) = []" using prems(5) by (intro greedy_connected) (auto simp: ends_def)
      moreover have "card (roots s') + (k + 1) = n" using s'(3) prems(2) by simp
      ultimately show ?thesis using step grd True st1 rep by (auto simp: S'_def)
    next
      case not_last: False
      obtain st' where "kruskal_loop rands g is s' st1 (k + 1) = Some (Inr (st', k + 1 + length (greedy S' (map ((!) (edges g)) is))))"
        "length st' = n - 1" "k + 1 + length (greedy S' (map ((!) (edges g)) is)) \<le> n - 1"
        "take (k + 1 + length (greedy S' (map ((!) (edges g)) is))) st' = take (k + 1) st1 @ greedy S' (map ((!) (edges g)) is)"
        and final: "\<exists>s2. dsu_rep n (S' \<union> ends ` set (greedy S' (map ((!) (edges g)) is))) s2 \<and>
          card (roots s2) + (k + 1 + length (greedy S' (map ((!) (edges g)) is))) = n"
        using Cons.IH [OF rep, of "k + 1" st1] s'(3) prems(2,5) st1(1) k by auto
      moreover have "S \<union> ends ` set (e # greedy S' (map ((!) (edges g)) is)) = S' \<union> ends ` set (greedy S' (map ((!) (edges g)) is))"
        by (simp add: S'_def)
      ultimately show ?thesis using step not_last st1(2) final unfolding grd by (simp del: image_insert)
    qed
  qed
qed auto

section \<open>Minimum spanning trees\<close>

definition connected :: "nat \<Rightarrow> Edge set \<Rightarrow> bool" where
  "connected n E \<longleftrightarrow> (\<forall>x < n. \<forall>y < n. (x, y) \<in> conn (ends ` E))"

definition min_spanning_tree :: "nat \<Rightarrow> Edge set \<Rightarrow> Edge list \<Rightarrow> bool" where
  "min_spanning_tree n E T \<longleftrightarrow> distinct T \<and> set T \<subseteq> E \<and> length T = n - 1 \<and> connected n (set T) \<and>
     (\<forall>C. C \<subseteq> E \<longrightarrow> connected n C \<longrightarrow> weight T \<le> sum elength C)"

lemma connected_conn:
  assumes "connected n C" and "\<forall>e \<in> E. eu e < n \<and> ev e < n"
  shows "conn (ends ` E) \<subseteq> conn (ends ` C)"
proof clarify
  fix x y assume "(x, y) \<in> conn (ends ` E)"
  then show "(x, y) \<in> conn (ends ` C)"
    by (rule conn_least) (use assms in \<open>auto simp: connected_def ends_def\<close>)
qed

lemma greedy_min_spanning_tree:
  assumes "sorted (map elength es)" and "\<forall>e \<in> set es. eu e < n \<and> ev e < n" and "connected n (set es)"
    and "length (greedy {} es) = n - 1"
  shows "min_spanning_tree n (set es) (greedy {} es)"
proof -
  have "connected n (set (greedy {} es))" using assms(3) greedy_conn [of "{}" es] by (simp add: connected_def)
  moreover have "weight (greedy {} es) \<le> sum elength C" if "C \<subseteq> set es" "connected n C" for C
    using greedy_optimal [OF assms(1) that(1), of "{}"] connected_conn [OF that(2) assms(2)] by simp
  moreover have "distinct (greedy {} es)" using greedy_distinct [of "{}" es] distinct_map by blast
  ultimately show ?thesis using assms(4) greedy_subset by (simp add: min_spanning_tree_def)
qed

lemma createDSU_cases:
  "(\<exists>mem'. createDSU n mem = (None, mem')) \<and> False \<in> set mem \<or>
   (\<exists>mem'. createDSU n mem = (Some \<lparr>link = [0..<n], dsu_size = n\<rparr>, mem') \<and> set mem' \<subseteq> set mem)"
  by (cases mem; cases "tl mem") (auto simp: createDSU_def alloc_def split: list.splits)

lemma sort_edges_map:
  assumes "edgesCount g \<le> length (edges g)"
  shows "map ((!) (edges (sort_edges g))) [0..<edgesCount g] = qsort edgeComapre (take (edgesCount g) (edges g))"
    and "length (edges (sort_edges g)) = length (edges g)"
proof -
  show "length (edges (sort_edges g)) = length (edges g)" using assms by (simp add: sort_edges_def)
  then show "map ((!) (edges (sort_edges g))) [0..<edgesCount g] = qsort edgeComapre (take (edgesCount g) (edges g))"
    using assms by (intro nth_equalityI) (simp_all add: sort_edges_def nth_append)
qed

lemma findSpanningTree_ok:
  assumes n: "0 < n" "n < 2 ^ 31" "vertCount g = n" and g: "edgesCount g \<le> length (edges g)"
    and es: "es = take (edgesCount g) (edges g)" "\<forall>e \<in> set es. eu e < n \<and> ev e < n" and st: "length st = n - 1"
  shows "\<exists>code st' mem'. findSpanningTree rands (Some g) (Some st) mem = Some (Inr (code, Some st', mem')) \<and>
    (code = ALLOCATION_ERROR \<and> False \<in> set mem \<or> code = SUCCESS \<and> connected n (set es) \<and> min_spanning_tree n (set es) st' \<or>
     code = NO_SPANNING_TREE \<and> \<not> connected n (set es))"
  using createDSU_cases [of n mem]
proof (elim disjE exE conjE)
  fix mem' assume "createDSU n mem = (None, mem')" "False \<in> set mem"
  then show ?thesis using n(3) by (simp add: findSpanningTree_def)
next
  fix mem' assume mem: "createDSU n mem = (Some \<lparr>link = [0..<n], dsu_size = n\<rparr>, mem')"
  define g' where "g' = sort_edges g"
  define xs where "xs = qsort edgeComapre es"
  have g': "map ((!) (edges g')) [0..<edgesCount g] = xs" "length (edges g') = length (edges g)" "vertCount g' = n" "edgesCount g' = edgesCount g"
    using sort_edges_map [OF g] n(3) es(1) by (simp_all add: g'_def xs_def sort_edges_def)
  have xs: "set xs = set es" "sorted (map elength xs)"
    using sorted_qsort [of edgeComapre elength es] by (simp_all add: xs_def key_cmp_def edgeComapre_def)
  have range: "\<forall>i \<in> set [0..<edgesCount g]. i < length (edges g') \<and> eu (edges g' ! i) < n \<and> ev (edges g' ! i) < n"
  proof
    fix i assume i: "i \<in> set [0..<edgesCount g]"
    then have "edges g' ! i \<in> set xs" unfolding g'(1) [symmetric] by simp
    then show "i < length (edges g') \<and> eu (edges g' ! i) < n \<and> ev (edges g' ! i) < n" using xs(1) es(2) g'(2) g i by auto
  qed
  have "roots \<lparr>link = [0..<n], dsu_size = n\<rparr> = {0..<n}" by (auto simp: roots_def)
  then have "card (roots \<lparr>link = [0..<n], dsu_size = n\<rparr>) + 0 = n" by simp
  from kruskal_loop_ok [OF n(1,2) g'(3) dsu_rep_init this st _ range, of rands]
  obtain st' s' where loop: "kruskal_loop rands g' [0..<edgesCount g] \<lparr>link = [0..<n], dsu_size = n\<rparr> st 0 = Some (Inr (st', length (greedy {} xs)))"
    and st': "length st' = n - 1" "length (greedy {} xs) \<le> n - 1" "take (length (greedy {} xs)) st' = greedy {} xs"
    and s': "dsu_rep n (ends ` set (greedy {} xs)) s'" "card (roots s') + length (greedy {} xs) = n"
    unfolding g'(1) by auto
  have conv: "to_u32 (int n - 1) = n - 1" using n to_u32_small [of "n - 1"] by (simp add: of_nat_diff)
  have conn: "connected n (set es) \<longleftrightarrow> connected n (set (greedy {} xs))"
    using greedy_conn [of "{}" xs] xs(1) by (simp add: connected_def)
  show ?thesis
  proof (cases "length (greedy {} xs) = n - 1")
    case True
    then have "card (roots s') = 1" using s'(2) n(1) by simp
    then have c: "connected n (set es)" using two_roots [OF s'(1)] unfolding conn unfolding connected_def by fastforce
    then have "min_spanning_tree n (set es) (greedy {} xs)"
      using greedy_min_spanning_tree [OF xs(2), of n] xs(1) es(2) True by simp
    then show ?thesis using loop True conv mem st' c g'(3,4) n(3) by (simp add: findSpanningTree_def g'_def [symmetric])
  next
    case False
    then have "\<not> card (roots s') \<le> 1" using s'(2) st'(2) n(1) by simp
    then have "\<not> connected n (set es)" using one_root [OF s'(1)] unfolding conn unfolding connected_def by blast
    then show ?thesis using loop False st'(2) conv mem g'(3,4) n(3) by (simp add: findSpanningTree_def g'_def [symmetric])
  qed
qed

section \<open>The program\<close>

definition edge_numbers :: "Edge list \<Rightarrow> int list" where
  "edge_numbers es = concat (map (\<lambda>e. [int (eu e) + 1, int (ev e) + 1, int (elength e)]) es)"

lemma addEdge_ok:
  assumes "eu e < vertCount g" and "ev e < vertCount g" and "edgesCount g < length (edges g)"
  shows "addEdge g (eu e) (ev e) (elength e) = Inr (SUCCESS, g\<lparr>edges := (edges g)[edgesCount g := e], edgesCount := edgesCount g + 1\<rparr>)"
  using assms by (cases e) (simp add: addEdge_def)

text \<open>Edges that the program accepts for \<open>n\<close> vertices.\<close>

definition input_edge :: "nat \<Rightarrow> Edge \<Rightarrow> bool" where
  "input_edge n e \<longleftrightarrow> eu e < n \<and> ev e < n \<and> elength e < 2 ^ 31"

lemma kruskal_read_edges_ok:
  assumes n: "n \<le> 5000"
  shows "vertCount g = n \<Longrightarrow> edgesCount g + length es = length (edges g) \<Longrightarrow> \<forall>e \<in> set es. input_edge n e \<Longrightarrow>
    read_edges (length es) (int n) g (CHR '' '' # show_ints (edge_numbers es)) =
      Inr (SUCCESS, g\<lparr>edges := take (edgesCount g) (edges g) @ es, edgesCount := edgesCount g + length es\<rparr>)"
proof (induction es arbitrary: g)
  case (Cons e es)
  have e: "eu e < n" "ev e < n" "elength e < 2 ^ 31" using Cons.prems(3) by (simp_all add: input_edge_def)
  have num: "in_int32 (int (eu e) + 1)" "in_int32 (int (ev e) + 1)" "in_int32 (int (elength e))"
    using e n by (simp_all add: in_int32_def)
  have inp: "CHR '' '' # show_ints (edge_numbers (e # es)) =
      CHR '' '' # show_int (int (eu e) + 1) @ CHR '' '' # show_int (int (ev e) + 1) @ CHR '' '' # show_int (int (elength e)) @
      CHR '' '' # show_ints (edge_numbers es)"
    by (simp add: edge_numbers_def show_ints_def)
  have valid: "validateVertexIndex (int n) (int (eu e) + 1)" "validateVertexIndex (int n) (int (ev e) + 1)"
    "validateVertexLength (int (elength e))"
    using e by (simp_all add: validateVertexIndex_def validateVertexLength_def)
  have conv: "to_u32 (int (eu e)) = eu e" "to_u32 (int (ev e)) = ev e" "to_u32 (int (elength e)) = elength e"
    using e n by simp_all
  define g' where "g' = g\<lparr>edges := (edges g)[edgesCount g := e], edgesCount := edgesCount g + 1\<rparr>"
  have add: "addEdge g (eu e) (ev e) (elength e) = Inr (SUCCESS, g')"
    using addEdge_ok [of e g] e Cons.prems(1,2) by (simp add: g'_def)
  have "read_edges (length es) (int n) g' (CHR '' '' # show_ints (edge_numbers es)) =
      Inr (SUCCESS, g'\<lparr>edges := take (edgesCount g') (edges g') @ es, edgesCount := edgesCount g' + length es\<rparr>)"
    using Cons.prems by (intro Cons.IH) (simp_all add: g'_def)
  moreover have "take (edgesCount g') (edges g') @ es = take (edgesCount g) (edges g) @ e # es"
    using Cons.prems(2) by (simp add: g'_def take_Suc_conv_app_nth)
  ultimately have "read_edges (length es) (int n) g' (CHR '' '' # show_ints (edge_numbers es)) =
      Inr (SUCCESS, g\<lparr>edges := take (edgesCount g) (edges g) @ e # es, edgesCount := edgesCount g + length (e # es)\<rparr>)"
    by (simp add: g'_def)
  then show ?case unfolding inp using num valid conv add by simp
qed simp

definition print_edges :: "Edge list \<Rightarrow> string" where
  "print_edges T = concat (map (\<lambda>e. show_nat (eu e + 1) @ '' '' @ show_nat (ev e + 1) @ ''\<newline>'') T)"

lemma print_tree_ok:
  "\<forall>i \<in> set is. i < length st \<and> eu (st ! i) < 5000 \<and> ev (st ! i) < 5000 \<Longrightarrow>
   print_tree st is = Inr (print_edges (map ((!) st) is))"
proof (induction "is")
  case (Cons i "is")
  have "to_u32 (int k + 1) = k + 1" if "k < 5000" for k using to_u32_small [of "k + 1"] that by (simp add: add.commute)
  then show ?case using Cons by (simp add: print_edges_def print_edge_def)
qed (simp add: print_edges_def)

lemma createGraph_cases:
  "0 < n \<Longrightarrow> (\<exists>mem'. createGraph junk n m mem = Inr (None, mem')) \<and> False \<in> set mem \<or>
   (\<exists>mem'. createGraph junk n m mem = Inr (Some \<lparr>edges = map junk [0..<m], vertCount = n, edgesCount = 0\<rparr>, mem') \<and> set mem' \<subseteq> set mem)"
  by (cases mem; cases "tl mem") (auto simp: createGraph_def alloc_def split: list.splits)

lemma alloc_cases: "alloc mem = (ok, mem') \<Longrightarrow> set mem' \<subseteq> set mem \<and> (\<not> ok \<longrightarrow> False \<in> set mem)"
  by (auto simp: alloc_def split: list.splits)

definition correct_output :: "nat \<Rightarrow> Edge set \<Rightarrow> string \<Rightarrow> bool" where
  "correct_output n E out \<longleftrightarrow>
     (if connected n E then \<exists>T. min_spanning_tree n E T \<and> out = print_edges T else out = ''no spanning tree\<newline>'')"

text \<open>The part of \<open>main\<close> after the graph is read.\<close>

lemma kruskal_main_tail:
  assumes n: "0 < n" "n \<le> 5000" and es: "\<forall>e \<in> set es. input_edge n e"
    and g: "vertCount g = n" "edges g = es" "edgesCount g = length es" and st: "length st = n - 1"
  shows "\<exists>out. bindO (findSpanningTree rands (Some g) (Some st) mem)
      (\<lambda>(exitCode, spanningTree, mem3).
         if exitCode \<noteq> SUCCESS then defer_exit exitCode
         else case spanningTree of None \<Rightarrow> Some (Inl Undefined)
              | Some st \<Rightarrow> bindO (Some (print_tree st [0..<n - 1])) (\<lambda>answer. Some (Inr (answer @ printExitCodeDescription SUCCESS))))
      = Some (Inr out) \<and> (out = [] \<and> False \<in> set mem \<or> correct_output n (set es) out)"
proof -
  have range: "\<forall>e \<in> set es. eu e < n \<and> ev e < n" using es by (simp add: input_edge_def)
  have pre: "n < 2 ^ 31" "edgesCount g \<le> length (edges g)" "es = take (edgesCount g) (edges g)" using n g by simp_all
  obtain code st' mem' where r: "findSpanningTree rands (Some g) (Some st) mem = Some (Inr (code, Some st', mem'))"
      "code = ALLOCATION_ERROR \<and> False \<in> set mem \<or> code = SUCCESS \<and> connected n (set es) \<and> min_spanning_tree n (set es) st' \<or>
       code = NO_SPANNING_TREE \<and> \<not> connected n (set es)"
    using findSpanningTree_ok [OF n(1) pre(1) g(1) pre(2,3) range st, of rands mem] by blast
  from r(2) show ?thesis
  proof (elim disjE conjE)
    assume t: "code = SUCCESS" "connected n (set es)" "min_spanning_tree n (set es) st'"
    then have len: "length st' = n - 1" "set st' \<subseteq> set es" by (simp_all add: min_spanning_tree_def)
    have "eu (st' ! i) < 5000 \<and> ev (st' ! i) < 5000" if "i < n - 1" for i
    proof -
      have "st' ! i \<in> set es" using that len by (metis nth_mem subsetD)
      then show ?thesis using es n(2) by (fastforce simp: input_edge_def)
    qed
    then have "print_tree st' [0..<n - 1] = Inr (print_edges (map ((!) st') [0..<n - 1]))"
      by (intro print_tree_ok) (simp add: len(1))
    then have "print_tree st' [0..<n - 1] = Inr (print_edges st')" using map_nth [of st'] len(1) by simp
    then show ?thesis using r(1) t by (auto simp: correct_output_def)
  qed (use r(1) in \<open>simp_all add: defer_exit_def correct_output_def\<close>)
qed

lemma kruskal_main_run:
  assumes n: "0 < n" "n \<le> 5000" and es: "\<forall>e \<in> set es. input_edge n e" and m: "2 * length es \<le> n * (n - 1)"
  shows "\<exists>out. main rands junk junk' mem (Some (show_ints (int n # int (length es) # edge_numbers es))) = Some (Inr out) \<and>
    (out = [] \<and> False \<in> set mem \<or> correct_output n (set es) out)"
proof -
  define m where "m = length es"
  define p where "p = n * (n - 1)"
  have "p \<le> 5000 * 4999" unfolding p_def using n by (intro mult_le_mono) simp_all
  then have p: "p \<le> 24995000" "2 * m \<le> p" using m by (simp_all add: p_def m_def)
  have pn: "int n * (int n - 1) = int p" using n(1) by (simp add: p_def of_nat_diff)
  have num: "in_int32 (int n)" "in_int32 (int m)" "in_int32 (int p)" using n p by (simp_all add: in_int32_def)
  have inp: "show_ints (int n # int m # edge_numbers es) =
      show_int (int n) @ CHR '' '' # show_int (int m) @ CHR '' '' # show_ints (edge_numbers es)"
    by (simp add: show_ints_def)
  have valid: "validateVerticesNumber (int n)" "validateEdgesNumber (int n) (int m) = Inr True"
    using n p num(3) by (simp_all add: validateVerticesNumber_def validateEdgesNumber_def pn)
  have conv: "to_u32 (int n) = n" "to_u32 (int m) = m" "nat (int n - 1) = n - 1" using n p by simp_all
  define rest where "rest g0 mem1 = bindO (Some (read_edges m (int n) g0 (CHR '' '' # show_ints (edge_numbers es)))) (\<lambda>(exitCode, g).
      if exitCode \<noteq> SUCCESS then defer_exit exitCode
      else let (ok, mem2) = alloc mem1 in
           if \<not> ok then defer_exit ALLOCATION_ERROR
           else bindO (findSpanningTree rands (Some g) (Some (map junk' [0..<n - 1])) mem2)
             (\<lambda>(exitCode, spanningTree, mem3).
               if exitCode \<noteq> SUCCESS then defer_exit exitCode
               else case spanningTree of None \<Rightarrow> Some (Inl Undefined)
                    | Some st \<Rightarrow> bindO (Some (print_tree st [0..<n - 1])) (\<lambda>answer.
                        Some (Inr (answer @ printExitCodeDescription SUCCESS)))))" for g0 mem1
  have run: "main rands junk junk' mem (Some (show_ints (int n # int m # edge_numbers es))) =
      bindO (Some (createGraph junk n m mem)) (\<lambda>(graph, mem1).
        case graph of None \<Rightarrow> defer_exit ALLOCATION_ERROR | Some g0 \<Rightarrow> rest g0 mem1)"
    unfolding inp main_def rest_def using num(1,2) valid conv n(1) by simp (simp only: conv(3) nat_int)
  have "\<exists>out. main rands junk junk' mem (Some (show_ints (int n # int m # edge_numbers es))) = Some (Inr out) \<and>
      (out = [] \<and> False \<in> set mem \<or> correct_output n (set es) out)"
    using createGraph_cases [OF n(1), of junk m mem]
  proof (elim disjE exE conjE)
    fix mem1 assume c: "createGraph junk n m mem = Inr (Some \<lparr>edges = map junk [0..<m], vertCount = n, edgesCount = 0\<rparr>, mem1)"
      and sub: "set mem1 \<subseteq> set mem"
    define g where "g = \<lparr>edges = es, vertCount = n, edgesCount = m\<rparr>"
    have read: "read_edges m (int n) \<lparr>edges = map junk [0..<m], vertCount = n, edgesCount = 0\<rparr> (CHR '' '' # show_ints (edge_numbers es)) = Inr (SUCCESS, g)"
      using kruskal_read_edges_ok [OF n(2), of "\<lparr>edges = map junk [0..<m], vertCount = n, edgesCount = 0\<rparr>" es] es by (simp add: m_def g_def)
    obtain ok mem2 where a: "alloc mem1 = (ok, mem2)" by fastforce
    show ?thesis
    proof (cases ok)
      case True
      obtain out where "rest \<lparr>edges = map junk [0..<m], vertCount = n, edgesCount = 0\<rparr> mem1 = Some (Inr out)"
          "out = [] \<and> False \<in> set mem2 \<or> correct_output n (set es) out"
        using kruskal_main_tail [OF n es, of g "map junk' [0..<n - 1]" rands mem2] read a True
        unfolding rest_def by (auto simp: g_def m_def)
      then show ?thesis using run c alloc_cases [OF a] sub by auto
    next
      case False
      then show ?thesis using run c read a alloc_cases [OF a] sub by (auto simp: rest_def defer_exit_def)
    qed
  qed (use run in \<open>simp add: defer_exit_def\<close>)
  then show ?thesis by (simp add: m_def)
qed

text \<open>C39: \<open>findSpanningTree\<close> on a graph whose edges stay below its number of vertices always returns, whatever \<open>rand\<close> gives:
  with \<open>SUCCESS\<close> and a spanning tree in the array whose total length no connecting set of edges undercuts, when the graph
  is connected; with \<open>NO_SPANNING_TREE\<close>, when it is not; or with \<open>ALLOCATION_ERROR\<close> after a failed allocation.\<close>

theorem findSpanningTree_minimal:
  assumes "0 < n" and "n < 2 ^ 31" and "vertCount g = n" and "edgesCount g \<le> length (edges g)"
    and "\<forall>e \<in> set (take (edgesCount g) (edges g)). eu e < n \<and> ev e < n" and "length st = n - 1"
  shows "\<exists>code st' mem'. findSpanningTree rands (Some g) (Some st) mem = Some (Inr (code, Some st', mem')) \<and>
    (code = ALLOCATION_ERROR \<and> False \<in> set mem \<or>
     code = (if connected n (set (take (edgesCount g) (edges g))) then SUCCESS else NO_SPANNING_TREE) \<and>
     (connected n (set (take (edgesCount g) (edges g))) \<longrightarrow> min_spanning_tree n (set (take (edgesCount g) (edges g))) st'))"
  using findSpanningTree_ok [OF assms(1-4) refl assms(5,6), of rands mem] by (elim exE conjE disjE) simp_all

theorem findSpanningTree_minimal_witness:
  "\<exists>code st' mem'. findSpanningTree (\<lambda>_. 3) (Some \<lparr>edges = [\<lparr>eu = 0, ev = 1, elength = 5\<rparr>, \<lparr>eu = 1, ev = 0, elength = 2\<rparr>], vertCount = 2, edgesCount = 2\<rparr>)
      (Some [\<lparr>eu = 9, ev = 9, elength = 9\<rparr>]) [] = Some (Inr (code, Some st', mem')) \<and>
    code = (if connected 2 {\<lparr>eu = 0, ev = 1, elength = 5\<rparr>, \<lparr>eu = 1, ev = 0, elength = 2\<rparr>} then SUCCESS else NO_SPANNING_TREE) \<and>
    (connected 2 {\<lparr>eu = 0, ev = 1, elength = 5\<rparr>, \<lparr>eu = 1, ev = 0, elength = 2\<rparr>} \<longrightarrow>
     min_spanning_tree 2 {\<lparr>eu = 0, ev = 1, elength = 5\<rparr>, \<lparr>eu = 1, ev = 0, elength = 2\<rparr>} st')"
  using findSpanningTree_minimal [of 2 "\<lparr>edges = [\<lparr>eu = 0, ev = 1, elength = 5\<rparr>, \<lparr>eu = 1, ev = 0, elength = 2\<rparr>], vertCount = 2, edgesCount = 2\<rparr>"
    "[\<lparr>eu = 9, ev = 9, elength = 9\<rparr>]" "\<lambda>_. 3" "[]"] by simp

text \<open>C40: given a graph of at most 5000 vertices, the program writes the edges of a minimum spanning tree, or that there is no
  spanning tree when the graph is not connected.  When an allocation fails it writes nothing.\<close>

theorem main_prints_min_spanning_tree:
  assumes "0 < n" and "n \<le> 5000" and "\<forall>e \<in> set es. input_edge n e" and "2 * length es \<le> n * (n - 1)"
  shows "\<exists>out. main rands junk junk' mem (Some (show_ints (int n # int (length es) # edge_numbers es))) = Some (Inr out) \<and>
    (out = [] \<and> False \<in> set mem \<or> correct_output n (set es) out)"
  by (rule kruskal_main_run [OF assms])

theorem main_prints_min_spanning_tree_witness:
  "\<exists>out. main (\<lambda>_. 3) (\<lambda>_. \<lparr>eu = 9, ev = 9, elength = 9\<rparr>) (\<lambda>_. \<lparr>eu = 9, ev = 9, elength = 9\<rparr>) [True, True]
      (Some (show_ints (int 3 # int (length [\<lparr>eu = 0, ev = 1, elength = 5\<rparr>, \<lparr>eu = 1, ev = 2, elength = 2\<rparr>]) #
        edge_numbers [\<lparr>eu = 0, ev = 1, elength = 5\<rparr>, \<lparr>eu = 1, ev = 2, elength = 2\<rparr>]))) = Some (Inr out) \<and>
    (out = [] \<and> False \<in> set [True, True] \<or> correct_output 3 (set [\<lparr>eu = 0, ev = 1, elength = 5\<rparr>, \<lparr>eu = 1, ev = 2, elength = 2\<rparr>]) out)"
  by (rule main_prints_min_spanning_tree) (simp_all add: input_edge_def)

end
