(* ===== verification/Spec2Isabelle.thy ===== *)
theory Spec2Isabelle
  imports Heap_Sort Quick_Sort Huffman_Archiver Knapsack Permutations Number_Converter Calculator Avl_Insertion B_Tree Kmp_Search Circular_Buffer Dining_Stepwise Queue_Spinlock Queue_Semaphore Queue_Condvar Life_File Topological_Sort Kruskal
begin

text \<open>
  A verification of programs of the NSU-Labs repository.  The repository is a collection of small programs, most of them in
  C and C++, that share no code but for a few copied files; each is modelled in theories of its own over a shared prelude.
  The programs interact only through what they read and print, so a program's last theorem is about its \<open>main\<close>: the text on
  its standard input (or its file) to the text it prints.

  \<^bold>\<open>The language.\<close>  \<open>C_Prelude\<close> gives the result type of a C computation, \<open>fault + 'a\<close>: \<open>Undefined\<close> is
  undefined behaviour (an access outside an array, a NULL or freed pointer, signed overflow),
  \<open>AssertFail\<close> a failed \<open>assert\<close>, and \<open>Exit\<close> the end of the process with its code and what it printed.
  Arrays are lists accessed by \<open>arr_get\<close> and \<open>arr_set\<close>, which check the index; \<open>ckd\<close> checks signed arithmetic; \<open>mem\<close> is the
  list of outcomes of the coming allocations.  A theorem that a call is \<open>Inr\<close> therefore says that it faults nowhere.
  \<open>'a run\<close> adds \<open>None\<close> for a computation that has not returned, by lack of fuel or in a \<open>partial_function\<close>.
  \<open>C_Stdio\<close> models the conversions of \<open>scanf\<close> and \<open>printf\<close> the programs use, with the round trip of
  printing and scanning.  \<open>C_Heap\<close> is an explicit heap for the programs whose correctness
  depends on their pointers, and \<open>C_Qsort\<close> the \<open>qsort\<close> of glibc.

  \<^bold>\<open>Sorting\<close> (\<open>C-Labs/Heap_sort\<close>, \<open>Quick_sort\<close>).  \<open>Array_Io\<close> holds the input and output both share and the locale
  \<open>array_sorter\<close>, whose lemma gives the text printed; \<open>Heap_Sort\<close> and \<open>Quick_Sort\<close> model the algorithms function by function
  and interpret it.  Shown: the array becomes its sorted permutation, nothing outside the segment changes, the programs print
  their numbers in order (C1 to C4).

  \<^bold>\<open>Huffman archiver\<close> (\<open>C-Labs/Huffman_archiver\<close>).  \<open>Bit_Stream\<close> is \<open>BitStream.c\<close> with the locales \<open>bit_sink\<close> and
  \<open>bit_source\<close>, \<open>Huffman_Queue\<close> the linked queue of \<open>Queue.c\<close> on the heap with the locale \<open>fifo_queue\<close>, \<open>Huffman_Tree\<close> the
  code tree, \<open>Huffman_Archiver\<close> compression, decompression and the program.  Shown: the round trips of bits, bytes, archives
  and of the program (C5, C7, C8), and that the nodes of the queue and the queue itself are freed exactly once (C6).

  \<^bold>\<open>Single programs of C-Labs.\<close>  \<open>Knapsack\<close> (the answer is optimal, or an allocation failed, C9), \<open>Permutations\<close> (the next permutation and the
  validation of the input, C10 and C11), \<open>Number_Converter\<close> (buffer and integer bounds and the digits printed, C12),
  \<open>Block_Stack\<close> with the locale \<open>lifo_stack\<close> and \<open>Calculator\<close> over it (C13, with the expressions for which it is correct),
  \<open>Ordered_Tree\<close> with the locale \<open>ordered_tree\<close>, interpreted by \<open>Avl_Insertion\<close> (insertion and the height the program
  prints, C14, C15) and \<open>B_Tree\<close> (insertion under every pattern of failing allocations, C16, and the program with enough
  memory, C17), \<open>Kmp_Search\<close> (the buffered search against naive search under every pattern of failing allocations, C18, and
  the occurrences the program finds, C19).

  \<^bold>\<open>Graphs\<close> (\<open>C-Labs/Topological_sort\<close>, \<open>Minimal_spanning_tree_Kruskal_algo\<close>).  \<open>Topological_Sort\<close> is the bit matrix and the
  three colour depth-first search.  Its recursion takes fuel; one more than the number of vertices is proved to be enough,
  because each nested call colours a white vertex (C36); the program prints a topological order or reports a cycle (C37).
  \<open>Kruskal_Dsu\<close> is \<open>dsu.c\<close>, the loop of \<open>find\<close> as a partial function that is proved to return (C38); \<open>Kruskal\<close> is the graph,
  the algorithm and the program, shown to give a minimum spanning tree by an exchange argument, for all values of \<open>rand\<close> and
  all outcomes of the allocations (C39, C40).

  \<^bold>\<open>C++ programs.\<close>  \<open>Data_Refinement\<close> has the locale \<open>data_refinement\<close> of simulations; \<open>Circular_Buffer\<close>
  (\<open>C++-Labs/lab_1_circular_buffer\<close>) interprets it: the ring acts as a bounded list under the operations called
  where the code keeps its documentation (C20), and \<open>at\<close> checks its index (C21).
  \<open>Life_Core\<close> and \<open>Life_File\<close> (\<open>C++-Labs/lab_2_game_of_life\<close>) are the field, the rules and the universe, and the files, the
  command line and the offline mode: generations on a torus (C32), round trips of rules and files (C33, C34), and the offline
  mode from command line to output file (C35).  Exceptions are values of a result type.

  \<^bold>\<open>Dining philosophers\<close> (\<open>CSharpLabs/DiningPhilosophersProblem\<close>, the stepwise simulation).  \<open>Dining_Stepwise\<close> has the table as a
  record, one function per method of the classes, and the strategies; random numbers are arguments.  Shown: neighbours never
  eat together (C22), with the resource hierarchy there is a meal in every \<open>24 n + 1\<close> steps (C23), and a deadlock is
  reported (C24).  In coordinator mode the constructor of the simulation recurses for ever; the steps of that mode are modelled
  for philosophers that have subscribed, which the program never reaches.

  \<^bold>\<open>Bounded queue between threads\<close> (\<open>OS-Labs/10-sync\<close>).  \<open>Shared_Queue\<close> is the sequential \<open>queue.c\<close> on the heap, up to the release
  of its nodes and of the queue (C25, an interpretation of \<open>data_refinement\<close>).  \<open>Queue_Threads\<close> has the writer, the reader and the monitor as program counters over a
  shared state, a step relation that interleaves them statement by statement, and the locale \<open>queue_protocol\<close> of what a
  synchronisation must keep; its lemmas give the order of the values for every interleaving.  \<open>Queue_Mutex\<close>,
  \<open>Queue_Spinlock\<close>, \<open>Queue_Semaphore\<close> and \<open>Queue_Condvar\<close> interpret it (C26 to C28, C30) and show that no thread waits for ever
  for another (C26, C29, C31).  A statement of C is atomic in this model, which the locks justify for the synchronised
  versions; the version without synchronisation is shown to use freed memory.

  \<^bold>\<open>Bounds.\<close>  Hypotheses on sizes are those of the programs or of their types: the limits the programs validate (2000 and 5000
  vertices, the digits of the converter), arrays shorter than \<open>2^32\<close> (quick sort: at most \<open>2^30\<close>, so that its \<open>int\<close> sums
  do not overflow), files shorter than 4 GiB, half degrees of a B-tree up to \<open>2^63\<close>, beyond which the program's \<open>size_t\<close>
  arithmetic wraps around and insertion faults, and below \<open>2^59\<close> where its allocations are to succeed.  Loops are structural or have
  a termination proof, but for the two named above.

  \<^bold>\<open>Not modelled.\<close>  Within the modelled programs: the functions that only free value-like structures at the end of a program
  (trees, matrices, code tables), messages on the standard error output, the window of the game of life and its logger, CPU
  affinity and process ids of the threads.  Of the other programs, the red-black tree, Prim, Dijkstra, convex hull, hash map,
  cipher, sound processor and lock-coupled list programs are computations that the same prelude could carry and that have no
  theory so far.  The Boyer-Moore and Rabin-Karp searches move an unterminated buffer with \<open>strcpy\<close>, which is undefined.  The word
  counter depends on a locale's wide characters and on the formatting of \<open>float\<close>; the CSV parser is a template without
  instances of its own; the pool allocator works on raw memory below the typed heap.  The rest is outside what such a
  model can state faithfully: Qt and ImGui interfaces, databases, Java, C\# and Go services, sockets and event loops, MPI,
  OpenMP and floating point, hardware measurements, thread and coroutine libraries that switch stacks, and exercises that are
  sequences of system calls.
\<close>

end
